(* ===== verification/Prelude.thy ===== *)
theory Prelude
  imports Main "HOL-Library.Word"
begin

text \<open>
  The vocabulary every component shares: the machine integers of the i386 target, the
  outcome of a kernel routine that may panic, and the generic facts on words and
  alignment that the component proofs use.

  \<^item> \<open>u8\<close>, \<open>u16\<close>, \<open>u32\<close>, \<open>u64\<close> are the unsigned C types of \<open>include/types.h\<close>. A C
    \<open>int\<close> or \<open>long\<close> is also 32 bits wide on this target; where its sign matters it is read
    with \<open>sint\<close>.
  \<^item> A routine that can end in \<open>kernelPanic\<close> returns \<open>Inl (Panic msg)\<close>. \<open>Inl (Fault msg)\<close>
    marks an access the C++ source does not define (a null pointer, an index outside an array).
\<close>

unbundle bit_operations_syntax

section \<open>Machine integers\<close>

type_synonym u8 = "8 word"
type_synonym u16 = "16 word"
type_synonym u32 = "32 word"
type_synonym u64 = "64 word"

named_theorems mmu_consts \<open>numeric values of the layout and paging constants\<close>
named_theorems unat_simps \<open>word operations read as natural numbers\<close>

section \<open>Outcomes of kernel routines\<close>

datatype kerr = Panic string | Fault string

type_synonym 'a outcome = "kerr + 'a"

definition bindE :: "'e + 'a \<Rightarrow> ('a \<Rightarrow> 'e + 'b) \<Rightarrow> 'e + 'b" where
  "bindE m f = (case m of Inl e \<Rightarrow> Inl e | Inr x \<Rightarrow> f x)"

lemma bindE_Inl [simp]: "bindE (Inl e) f = Inl e"
  by (simp add: bindE_def)

lemma bindE_Inr [simp]: "bindE (Inr x) f = f x"
  by (simp add: bindE_def)

lemma bindE_eq_Inr [simp]: "bindE m f = Inr y \<longleftrightarrow> (\<exists>x. m = Inr x \<and> f x = Inr y)"
  by (cases m) auto

lemma bindE_eq_Inl: "bindE m f = Inl e \<longleftrightarrow> m = Inl e \<or> (\<exists>x. m = Inr x \<and> f x = Inl e)"
  by (cases m) auto

lemma bindE_cong [fundef_cong]:
  "m = m' \<Longrightarrow> (\<And>x. m' = Inr x \<Longrightarrow> f x = g x) \<Longrightarrow> bindE m f = bindE m' g"
  by (cases m') auto

definition assertE :: "string \<Rightarrow> bool \<Rightarrow> unit outcome" where
  "assertE msg b = (if b then Inr () else Inl (Panic msg))"

lemma assertE_eq_Inr [simp]: "assertE msg b = Inr u \<longleftrightarrow> b"
  by (simp add: assertE_def)

lemma assertE_True [simp]: "assertE msg True = Inr ()"
  by (simp add: assertE_def)

text \<open>A \<open>for\<close> loop over the indices \<open>xs\<close>; the first failing body ends it.\<close>

primrec foldE :: "('a \<Rightarrow> 's \<Rightarrow> 's outcome) \<Rightarrow> 'a list \<Rightarrow> 's \<Rightarrow> 's outcome" where
  "foldE f [] s = Inr s"
| "foldE f (x # xs) s = bindE (f x s) (foldE f xs)"

lemma foldE_append: "foldE f (xs @ ys) s = bindE (foldE f xs s) (foldE f ys)"
  by (induction xs arbitrary: s) (auto simp: bindE_def split: sum.splits)

text \<open>Sequencing where a routine may also not return.\<close>

definition bindO :: "('e + 'a) option \<Rightarrow> ('a \<Rightarrow> ('e + 'b) option) \<Rightarrow> ('e + 'b) option" where
  "bindO m f = (case m of None \<Rightarrow> None | Some r \<Rightarrow> (case r of Inl e \<Rightarrow> Some (Inl e) | Inr x \<Rightarrow> f x))"

lemma bindO_simps [simp]: "bindO None f = None" "bindO (Some (Inl e)) f = Some (Inl e)" "bindO (Some (Inr x)) f = f x"
  by (simp_all add: bindO_def)

lemma bindO_eq_Inr [simp]: "bindO m f = Some (Inr y) \<longleftrightarrow> (\<exists>x. m = Some (Inr x) \<and> f x = Some (Inr y))"
  by (auto simp: bindO_def split: option.splits sum.splits)

text \<open>The rule for such a loop with an invariant over the state and the index.\<close>

lemma foldE_invariant:
  assumes "I 0 s" and "\<And>i s. i < n \<Longrightarrow> I i s \<Longrightarrow> \<exists>s'. f i s = Inr s' \<and> I (Suc i) s'"
  shows "\<exists>s'. foldE f [0..<n] s = Inr s' \<and> I n s'"
  using assms(2)
proof (induction n)
  case (Suc n)
  then obtain s' where "foldE f [0..<n] s = Inr s'" "I n s'" by (meson less_SucI)
  moreover obtain t where "f n s' = Inr t" "I (Suc n) t" using Suc.prems [OF _ \<open>I n s'\<close>] by auto
  ultimately show ?case by (auto simp: foldE_append)
qed (simp add: assms(1))

section \<open>Words as natural numbers\<close>

lemma unat_lt_2p32: "unat (w :: u32) < 4294967296"
  using unsigned_less [of w, where ?'a = nat] by simp

lemma unat_and_mask [unat_simps]: "unat (w AND mask n) = unat w mod 2 ^ n"
  by (simp only: take_bit_eq_mask [symmetric] unsigned_take_bit_eq) (simp add: take_bit_eq_mod)

lemma unat_drop_bit [unat_simps]: "unat (drop_bit n w) = unat w div 2 ^ n"
  by (simp only: unat_drop_bit_eq) (simp add: drop_bit_eq_div)

lemma unat_add_no_wrap:
  "unat (a :: u32) + unat b < 4294967296 \<Longrightarrow> unat (a + b) = unat a + unat b"
  by (simp add: unat_word_ariths)

lemma unat_add_of_nat:
  "unat (a :: u32) + n < 4294967296 \<Longrightarrow> unat (a + of_nat n) = unat a + n"
  by (simp add: unat_word_ariths take_bit_eq_mod unsigned_of_nat)

lemma unat_sub_le: "b \<le> a \<Longrightarrow> unat (a - b :: u32) = unat a - unat b"
  by (rule unat_sub)

lemma unat_of_nat32 [simp]: "n < 4294967296 \<Longrightarrow> unat (of_nat n :: u32) = n"
  by (simp add: unsigned_of_nat take_bit_eq_mod)

lemma unat_inj32: "unat (a :: u32) = unat b \<Longrightarrow> a = b"
  by (rule word_unat_eq_iff [THEN iffD2])

lemma of_nat_eq32:
  "m < 4294967296 \<Longrightarrow> n < 4294967296 \<Longrightarrow> (of_nat m :: u32) = of_nat n \<longleftrightarrow> m = n"
  by (metis unat_of_nat32)

section \<open>Alignment\<close>

definition aligned :: "nat \<Rightarrow> u32 \<Rightarrow> bool" where
  "aligned n a \<longleftrightarrow> n dvd unat a"

lemma aligned_add:
  "n dvd 4294967296 \<Longrightarrow> aligned n a \<Longrightarrow> aligned n b \<Longrightarrow> aligned n (a + b)"
  by (simp add: aligned_def unat_word_ariths dvd_mod)

lemma aligned_sub:
  assumes "n dvd 4294967296" "aligned n a" "aligned n b"
  shows "aligned n (a - b)"
proof -
  have n0: "unat (a - b) = (unat a + (4294967296 - unat b)) mod 4294967296"
    using unat_lt_2p32 [of b] unat_lt_2p32 [of a]
    by (cases "unat b \<le> unat a") (simp_all add: unat_sub_if' mod_if)
  show ?thesis
    unfolding aligned_def n0
    using assms by (simp add: aligned_def dvd_mod dvd_diff_nat)
qed

lemma aligned_mono: "m dvd n \<Longrightarrow> aligned n a \<Longrightarrow> aligned m a"
  by (auto simp: aligned_def intro: dvd_trans)

lemma aligned_mask: "aligned (2 ^ n) a \<longleftrightarrow> a AND mask n = 0"
  by (simp add: aligned_def dvd_eq_mod_eq_0 unat_and_mask [symmetric] unat_eq_zero)

lemma aligned_offset_no_wrap:
  assumes "aligned n a" "n dvd 4294967296" "i < n"
  shows "unat a + i < 4294967296"
proof -
  obtain k where k: "unat a = n * k" using assms(1) by (auto simp: aligned_def)
  obtain m where m: "4294967296 = n * m" using assms(2) by (auto simp: dvd_def)
  have "n * k < n * m" using k m unat_lt_2p32 [of a] by simp
  then have "k < m" by (simp add: mult_less_cancel1)
  then have "n * k + n \<le> n * m"
    by (metis Suc_leI mult_Suc_right add.commute mult_le_mono2)
  then show ?thesis using k m assms(3) by linarith
qed

end
