(* ===== verification/ByteMem.thy ===== *)
theory ByteMem
  imports Prelude
begin

text \<open>
  Byte-addressed memory and the \<open>mem\<close> namespace of \<open>lib/string.cc\<close>: \<open>set\<close>, \<open>copy\<close>, \<open>move\<close>,
  \<open>clear\<close> and \<open>cmp\<close>. A pointer is a \<open>u32\<close>, memory a function from addresses to bytes, and
  pointer arithmetic wraps at 32 bits as on the i386 target. \<open>load32\<close> and \<open>store32\<close> are the
  little-endian accesses through a \<open>uint32_t*\<close> or \<open>long*\<close>. The closed forms \<open>mem_set_eq\<close>,
  \<open>mem_copy_eq\<close> and \<open>mem_move_eq\<close> describe the final memory of each loop in one step; every
  routine returns its \<open>dest\<close> argument, so only the new memory is modelled.
\<close>

type_synonym mem = "u32 \<Rightarrow> u8"

section \<open>Word access\<close>

definition load32 :: "mem \<Rightarrow> u32 \<Rightarrow> u32" where
  "load32 m a = ucast (m a) OR push_bit 8 (ucast (m (a + 1)))
     OR push_bit 16 (ucast (m (a + 2))) OR push_bit 24 (ucast (m (a + 3)))"

definition store32 :: "mem \<Rightarrow> u32 \<Rightarrow> u32 \<Rightarrow> mem" where
  "store32 m a v = m(a := ucast v, a + 1 := ucast (drop_bit 8 v),
     a + 2 := ucast (drop_bit 16 v), a + 3 := ucast (drop_bit 24 v))"

definition load16 :: "mem \<Rightarrow> u32 \<Rightarrow> u16" where
  "load16 m a = ucast (m a) OR push_bit 8 (ucast (m (a + 1)))"

section \<open>The mem namespace\<close>

primrec set_loop :: "mem \<Rightarrow> u32 \<Rightarrow> u8 \<Rightarrow> nat \<Rightarrow> mem" where
  "set_loop m dest val 0 = m"
| "set_loop m dest val (Suc count) = set_loop (m(dest := val)) (dest + 1) val count"

definition mem_set :: "mem \<Rightarrow> u32 \<Rightarrow> u8 \<Rightarrow> u32 \<Rightarrow> mem" where
  "mem_set m dest val count = set_loop m dest val (unat count)"

primrec copy_fwd :: "mem \<Rightarrow> u32 \<Rightarrow> u32 \<Rightarrow> nat \<Rightarrow> mem" where
  "copy_fwd m dest src 0 = m"
| "copy_fwd m dest src (Suc count) = copy_fwd (m(dest := m src)) (dest + 1) (src + 1) count"

definition mem_copy :: "mem \<Rightarrow> u32 \<Rightarrow> u32 \<Rightarrow> u32 \<Rightarrow> mem" where
  "mem_copy m dest src count = copy_fwd m dest src (unat count)"

text \<open>The two back-to-front loops of \<open>mem::move\<close>, by \<open>long\<close>s and by \<open>char\<close>s.\<close>

primrec move_words :: "mem \<Rightarrow> u32 \<Rightarrow> u32 \<Rightarrow> nat \<Rightarrow> mem" where
  "move_words m d s 0 = m"
| "move_words m d s (Suc i) =
     move_words (store32 m (d + of_nat (4 * i)) (load32 m (s + of_nat (4 * i)))) d s i"

primrec move_chars :: "mem \<Rightarrow> u32 \<Rightarrow> u32 \<Rightarrow> nat \<Rightarrow> mem" where
  "move_chars m d s 0 = m"
| "move_chars m d s (Suc i) = move_chars (m(d + of_nat i := m (s + of_nat i))) d s i"

definition mem_move :: "mem \<Rightarrow> u32 \<Rightarrow> u32 \<Rightarrow> u32 \<Rightarrow> mem" where
  "mem_move m dest src count =
     (if dest < src then mem_copy m dest src count
      else if dest mod 4 = 0 \<and> src mod 4 = 0 \<and> count mod 4 = 0
      then move_words m dest src (unat (count div 4))
      else move_chars m dest src (unat count))"

definition mem_clear :: "mem \<Rightarrow> u32 \<Rightarrow> u32 \<Rightarrow> mem" where
  "mem_clear m dest count = mem_set m dest 0 count"

text \<open>\<open>char\<close> is signed on this target: the difference is taken after sign extension.\<close>

primrec cmp_loop :: "mem \<Rightarrow> u32 \<Rightarrow> u32 \<Rightarrow> nat \<Rightarrow> int" where
  "cmp_loop m lhs rhs 0 = 0"
| "cmp_loop m lhs rhs (Suc count) =
     (if m lhs = m rhs then cmp_loop m (lhs + 1) (rhs + 1) count
      else sint (m lhs) - sint (m rhs))"

definition mem_cmp :: "mem \<Rightarrow> u32 \<Rightarrow> u32 \<Rightarrow> u32 \<Rightarrow> int" where
  "mem_cmp m lhs rhs count = cmp_loop m lhs rhs (unat count)"

definition store16 :: "mem \<Rightarrow> u32 \<Rightarrow> u16 \<Rightarrow> mem" where
  "store16 k a v = k(a := ucast v, a + 1 := ucast (drop_bit 8 v))"

definition load_bytes :: "mem \<Rightarrow> u32 \<Rightarrow> nat \<Rightarrow> u8 list" where
  "load_bytes k a n = map (\<lambda>i. k (a + of_nat i)) [0..<n]"

primrec store_bytes :: "mem \<Rightarrow> u32 \<Rightarrow> u8 list \<Rightarrow> mem" where
  "store_bytes k a [] = k"
| "store_bytes k a (x # xs) = store_bytes (k(a := x)) (a + 1) xs"

section \<open>Facts about word access\<close>

lemma store32_bytes [simp]:
  "store32 m a v a = ucast v"
  "store32 m a v (a + 1) = ucast (drop_bit 8 v)"
  "store32 m a v (a + 2) = ucast (drop_bit 16 v)"
  "store32 m a v (a + 3) = ucast (drop_bit 24 v)"
  by (simp_all add: store32_def)

lemma word32_bytes:
  fixes v :: u32
  shows "ucast (ucast v :: u8) OR push_bit 8 (ucast (ucast (drop_bit 8 v) :: u8))
     OR push_bit 16 (ucast (ucast (drop_bit 16 v) :: u8))
     OR push_bit 24 (ucast (ucast (drop_bit 24 v) :: u8)) = v" (is "?w = v")
proof (rule bit_word_eqI)
  fix n assume n: "n < LENGTH(32)"
  then consider "n < 8" | "8 \<le> n" "n < 16" | "16 \<le> n" "n < 24" | "24 \<le> n" "n < 32"
    by fastforce
  then show "bit ?w n = bit v n"
    by cases (auto simp: bit_simps)
qed

lemma load32_store32_same [simp]: "load32 (store32 m a v) a = v"
  by (simp add: load32_def word32_bytes)

lemma store32_other: "b \<notin> {a, a + 1, a + 2, a + 3} \<Longrightarrow> store32 m a v b = m b"
  by (simp add: store32_def)

lemma load32_cong:
  "m a = m' a \<Longrightarrow> m (a + 1) = m' (a + 1) \<Longrightarrow> m (a + 2) = m' (a + 2) \<Longrightarrow> m (a + 3) = m' (a + 3)
   \<Longrightarrow> load32 m a = load32 m' a"
  by (simp add: load32_def)

lemma unat_small_off: "k < 4 \<Longrightarrow> aligned 4 a \<Longrightarrow> unat (a + of_nat k) = unat a + k"
  using aligned_offset_no_wrap [of 4 a k] by (simp add: unat_add_of_nat)

lemma aligned4_disjoint:
  assumes "aligned 4 a" "aligned 4 b" "a \<noteq> b" "i < 4" "j < 4"
  shows "a + of_nat i \<noteq> b + of_nat j"
proof
  assume "a + of_nat i = b + of_nat j"
  then have "unat a + i = unat b + j"
    using assms unat_small_off by metis
  moreover obtain k l where "unat a = 4 * k" "unat b = 4 * l"
    using assms(1,2) unfolding aligned_def by (meson dvdE)
  ultimately have "unat a = unat b" using assms(4,5) by presburger
  then show False using assms(3) unat_inj32 by blast
qed

lemma load32_store32_other:
  assumes "aligned 4 a" "aligned 4 b" "a \<noteq> b"
  shows "load32 (store32 m a v) b = load32 m b"
proof -
  have "store32 m a v (b + of_nat j) = m (b + of_nat j)" if "j < 4" for j
    using aligned4_disjoint [OF assms(1,2,3) _ that, of 0]
      aligned4_disjoint [OF assms(1,2,3) _ that, of 1]
      aligned4_disjoint [OF assms(1,2,3) _ that, of 2]
      aligned4_disjoint [OF assms(1,2,3) _ that, of 3]
    by (intro store32_other) auto
  from this [of 0] this [of 1] this [of 2] this [of 3]
  show ?thesis by (intro load32_cong) simp_all
qed

lemma copy_word:
  "store32 m d (load32 m s) = (\<lambda>a. if unat (a - d) < 4 then m (s + (a - d)) else m a)"
proof
  fix a
  let ?k = "a - d"
  have a: "a = d \<longleftrightarrow> ?k = 0" "a = d + 1 \<longleftrightarrow> ?k = 1" "a = d + 2 \<longleftrightarrow> ?k = 2"
    "a = d + 3 \<longleftrightarrow> ?k = 3" by (auto simp: algebra_simps)
  have small: "unat ?k < 4 \<longleftrightarrow> ?k = 0 \<or> ?k = 1 \<or> ?k = 2 \<or> ?k = 3"
  proof
    assume "unat ?k < 4"
    then have "unat ?k = 0 \<or> unat ?k = 1 \<or> unat ?k = 2 \<or> unat ?k = 3" by arith
    then show "?k = 0 \<or> ?k = 1 \<or> ?k = 2 \<or> ?k = 3"
      by (auto simp: word_unat_eq_iff)
  qed auto
  have byte: "ucast (load32 m s) = m s"
    "ucast (drop_bit 8 (load32 m s)) = m (s + 1)"
    "ucast (drop_bit 16 (load32 m s)) = m (s + 2)"
    "ucast (drop_bit 24 (load32 m s)) = m (s + 3)"
    by (rule bit_word_eqI; simp add: load32_def bit_simps; auto dest: bit_imp_le_length)+
  show "store32 m d (load32 m s) a = (if unat ?k < 4 then m (s + ?k) else m a)"
    unfolding small store32_def fun_upd_apply a byte
    by (elim disjE | simp)+
qed

section \<open>What the loops compute\<close>

lemma dist_Suc:
  fixes a d :: u32
  shows "a \<noteq> d \<Longrightarrow> unat (a - d) = Suc (unat (a - (d + 1)))"
proof -
  assume "a \<noteq> d"
  then have "a - d \<noteq> 0" by simp
  then have "unat (a - d - 1) = unat (a - d) - 1" by (rule unat_minus_one)
  moreover have "0 < unat (a - d)" using \<open>a - d \<noteq> 0\<close> by (simp add: unat_gt_0)
  ultimately show ?thesis by (simp add: algebra_simps)
qed

lemma set_loop_eq:
  "n < 4294967296 \<Longrightarrow> set_loop m d v n = (\<lambda>a. if unat (a - d) < n then v else m a)"
proof (induction n arbitrary: m d)
  case 0
  then show ?case by simp
next
  case (Suc n)
  then show ?case
    by (auto simp: fun_eq_iff dist_Suc unat_minus_one)
qed

lemma mem_set_eq: "mem_set m d v c = (\<lambda>a. if unat (a - d) < unat c then v else m a)"
  by (simp add: mem_set_def set_loop_eq unat_lt_2p32)

lemma mem_clear_eq: "mem_clear m d c = (\<lambda>a. if unat (a - d) < unat c then 0 else m a)"
  by (simp add: mem_clear_def mem_set_eq)

lemma copy_fwd_eq:
  "n \<le> 4294967296 \<Longrightarrow> d = s \<or> n \<le> unat (d - s) \<Longrightarrow>
   copy_fwd m d s n = (\<lambda>a. if unat (a - d) < n then m (s + (a - d)) else m a)"
proof (induction n arbitrary: m d s)
  case 0
  then show ?case by simp
next
  case (Suc n)
  have IH: "copy_fwd (m(d := m s)) (d + 1) (s + 1) n =
      (\<lambda>a. if unat (a - (d + 1)) < n then (m(d := m s)) (s + 1 + (a - (d + 1)))
            else (m(d := m s)) a)"
    using Suc.prems by (intro Suc.IH) auto
  have *: "s + (a - d) \<noteq> d \<or> d = s" if "unat (a - d) < Suc n" "a \<noteq> d" for a
  proof (rule ccontr)
    assume "\<not> ?thesis"
    then have "a - d = d - s" "d \<noteq> s" by (auto simp: algebra_simps)
    with Suc.prems(2) that show False by simp
  qed
  show ?case
    using IH * by (auto simp: fun_eq_iff dist_Suc algebra_simps split: if_splits)
qed

lemma mem_copy_eq:
  "d = s \<or> unat c \<le> unat (d - s) \<Longrightarrow>
   mem_copy m d s c = (\<lambda>a. if unat (a - d) < unat c then m (s + (a - d)) else m a)"
  unfolding mem_copy_def by (rule copy_fwd_eq) (auto intro: less_imp_le unat_lt_2p32)

lemma move_chars_eq:
  "n \<le> 4294967296 \<Longrightarrow> d = s \<or> n \<le> unat (s - d) \<Longrightarrow>
   move_chars m d s n = (\<lambda>a. if unat (a - d) < n then m (s + (a - d)) else m a)"
proof (induction n arbitrary: m)
  case 0
  then show ?case by simp
next
  case (Suc n)
  let ?m = "m(d + of_nat n := m (s + of_nat n))"
  have IH: "move_chars ?m d s n = (\<lambda>a. if unat (a - d) < n then ?m (s + (a - d)) else ?m a)"
    using Suc.prems by (intro Suc.IH) auto
  have here: "a = d + of_nat n \<longleftrightarrow> unat (a - d) = n" for a
  proof -
    have "a = d + of_nat n \<longleftrightarrow> a - d = of_nat n" by (auto simp: algebra_simps)
    then show ?thesis using Suc.prems(1) by (simp add: word_unat_eq_iff)
  qed
  have *: "?m (s + (a - d)) = m (s + (a - d))" if "unat (a - d) < n" for a
  proof (cases "d = s")
    case False
    have "s + (a - d) \<noteq> d + of_nat n"
    proof
      assume eq: "s + (a - d) = d + of_nat n"
      then have "s - d = of_nat n - (a - d)" by (simp add: algebra_simps)
      moreover have "unat (of_nat n - (a - d)) = n - unat (a - d)"
        using that Suc.prems(1) by (simp add: unat_sub_if')
      ultimately have "unat (s - d) = n - unat (a - d)" by (simp only:)
      then show False using Suc.prems(2) False by linarith
    qed
    then show ?thesis by simp
  qed auto
  show ?case
    using IH * here by (auto simp: fun_eq_iff less_Suc_eq)
qed

lemma unat_window:
  fixes x k :: u32
  assumes "unat k + w \<le> 4294967296"
  shows "unat (x - k) < w \<longleftrightarrow> unat k \<le> unat x \<and> unat x < unat k + w"
  using assms unat_lt_2p32 [of x] by (auto simp: unat_sub_if')

lemma move_words_eq:
  "4 * n \<le> 4294967296 \<Longrightarrow> d = s \<or> 4 * n \<le> unat (s - d) \<Longrightarrow>
   move_words m d s n = (\<lambda>a. if unat (a - d) < 4 * n then m (s + (a - d)) else m a)"
proof (induction n arbitrary: m)
  case 0
  then show ?case by simp
next
  case (Suc n)
  let ?k = "of_nat (4 * n) :: u32"
  let ?m = "store32 m (d + ?k) (load32 m (s + ?k))"
  have m: "?m = (\<lambda>a. if unat (a - (d + ?k)) < 4 then m (s + (a - d)) else m a)"
    unfolding copy_word by (simp add: fun_eq_iff algebra_simps)
  have IH: "move_words ?m d s n
      = (\<lambda>a. if unat (a - d) < 4 * n then ?m (s + (a - d)) else ?m a)"
    using Suc.prems by (intro Suc.IH) auto
  have k: "unat ?k = 4 * n" using Suc.prems(1) by (intro unat_of_nat32) simp
  have here: "unat (a - (d + ?k)) < 4 \<longleftrightarrow> 4 * n \<le> unat (a - d) \<and> unat (a - d) < 4 * Suc n" for a
    using unat_window [of ?k 4 "a - d"] k Suc.prems(1) by (simp add: algebra_simps)
  have *: "?m (s + (a - d)) = m (s + (a - d))" if lt: "unat (a - d) < 4 * n" for a
  proof (cases "d = s")
    case True
    then show ?thesis unfolding m using lt here by auto
  next
    case False
    let ?b = "s + (a - d)"
    have b: "?b - d = (s - d) + (a - d)" by (simp add: algebra_simps)
    have "unat (?b - d) = (unat (s - d) + unat (a - d)) mod 4294967296"
      unfolding b by (simp only: unat_word_ariths) simp
    moreover have "4 * Suc n \<le> unat (s - d)" using Suc.prems(2) False by simp
    ultimately have "\<not> (4 * n \<le> unat (?b - d) \<and> unat (?b - d) < 4 * Suc n)"
      using lt unat_lt_2p32 [of "s - d"] unat_lt_2p32 [of "a - d"] by (auto simp: mod_if)
    then have "\<not> unat (?b - (d + ?k)) < 4" using here by blast
    then show ?thesis unfolding m by (simp only: if_False)
  qed
  have other: "?m a = (if 4 * n \<le> unat (a - d) \<and> unat (a - d) < 4 * Suc n
      then m (s + (a - d)) else m a)" for a
    unfolding m using here by simp
  show ?case
    unfolding move_words.simps IH using * other by (auto simp: fun_eq_iff)
qed

lemma mem_move_eq:
  assumes "unat d + unat c \<le> 4294967296" "unat s + unat c \<le> 4294967296"
  shows "mem_move m d s c = (\<lambda>a. if unat (a - d) < unat c then m (s + (a - d)) else m a)"
proof (cases "d < s")
  case True
  then have "unat (d - s) = 4294967296 + unat d - unat s"
    by (simp add: unat_sub_if' word_less_nat_alt)
  then have "unat c \<le> unat (d - s)" using assms unat_lt_2p32 [of s] by linarith
  then show ?thesis using True by (simp add: mem_move_def mem_copy_eq)
next
  case False
  then have cond: "d = s \<or> unat c \<le> unat (s - d)"
    using assms unat_lt_2p32 [of d]
    by (cases "d = s") (auto simp: unat_sub_if' word_less_nat_alt word_unat_eq_iff)
  show ?thesis
  proof (cases "d mod 4 = 0 \<and> s mod 4 = 0 \<and> c mod 4 = 0")
    case True
    then have "unat c mod 4 = 0" using unat_mod [of c 4] by simp
    then have c: "4 * unat (c div 4) = unat c"
      by (auto simp: unat_div dest: mod_0_imp_dvd)
    have "move_words m d s (unat (c div 4))
        = (\<lambda>a. if unat (a - d) < 4 * unat (c div 4) then m (s + (a - d)) else m a)"
      using cond unat_lt_2p32 [of c] by (intro move_words_eq) (simp_all add: c)
    then show ?thesis using False True by (simp add: mem_move_def c)
  next
    case notw: False
    have "mem_move m d s c = move_chars m d s (unat c)"
      unfolding mem_move_def using False notw by (simp only: if_False)
    then show ?thesis
      using cond unat_lt_2p32 [of c] by (simp add: move_chars_eq less_imp_le)
  qed
qed

lemma sint_eq_iff8 [simp]: "sint (a :: u8) = sint b \<longleftrightarrow> a = b"
  by (simp add: word_eq_iff_signed [symmetric])

lemma cmp_loop_zero: "cmp_loop m l r n = 0 \<longleftrightarrow> (\<forall>i<n. m (l + of_nat i) = m (r + of_nat i))"
proof (induction n arbitrary: l r)
  case (Suc n)
  show ?case
    using Suc [of "l + 1" "r + 1"]
    by (simp add: All_less_Suc2 add.assoc)
qed simp

lemma mem_cmp_zero:
  "mem_cmp m l r c = 0 \<longleftrightarrow> (\<forall>i<unat c. m (l + of_nat i) = m (r + of_nat i))"
  by (simp add: mem_cmp_def cmp_loop_zero)

lemma store_bytes_apply:
  "length xs \<le> 4294967296 \<Longrightarrow> store_bytes k a xs b = (if unat (b - a) < length xs then xs ! unat (b - a) else k b)"
proof (induction xs arbitrary: k a)
  case (Cons x xs)
  have len: "length xs \<le> 4294967296" using Cons.prems by simp
  have "store_bytes k a (x # xs) b = store_bytes (k(a := x)) (a + 1) xs b" by simp
  also have "\<dots> = (if unat (b - (a + 1)) < length xs then xs ! unat (b - (a + 1)) else (k(a := x)) b)" by (rule Cons.IH [OF len])
  finally have e: "store_bytes k a (x # xs) b = (if unat (b - (a + 1)) < length xs then xs ! unat (b - (a + 1)) else (k(a := x)) b)" .
  show ?case
  proof (cases "b = a")
    case True
    have "unat (a - (a + 1)) = 4294967295" by (simp add: unsigned_minus_1_eq_mask mask_eq_exp_minus_1)
    then show ?thesis unfolding e using True Cons.prems by simp
  next
    case False
    then have n: "b - a \<noteq> 0" by simp
    have "unat (b - (a + 1)) = unat (b - a - 1)" by (simp only: diff_diff_eq)
    then have u: "unat (b - a) = Suc (unat (b - (a + 1)))" using unat_minus_one [OF n] n unat_gt_0 [of "b - a"] by linarith
    show ?thesis unfolding e u using False by simp
  qed
qed simp

end
