(* ===== verification/Mmu.thy ===== *)
theory Mmu
  imports Prelude
begin

text \<open>
  The paging, segmentation and gate macros of \<open>include/mmu.h\<close>, the address-space constants of
  \<open>include/memlayout.h\<close> and the rounding macros of \<open>include/types.h\<close>. A macro on
  \<open>uintptr_t\<close> becomes a function on \<open>u32\<close>; a bit-field structure becomes a record whose fields
  have the declared widths, so that storing into a field truncates as the compiler does.
\<close>

section \<open>Constants\<close>

definition PGSIZE :: u32 where [mmu_consts]: "PGSIZE = 4096"
definition PTSIZE :: u32 where [mmu_consts]: "PTSIZE = 4194304"
definition NPTENTRIES :: nat where [mmu_consts]: "NPTENTRIES = 1024"

definition PTE_P :: u32 where [mmu_consts]: "PTE_P = 0x001"
definition PTE_W :: u32 where [mmu_consts]: "PTE_W = 0x002"
definition PTE_U :: u32 where [mmu_consts]: "PTE_U = 0x004"
definition PTE_PWT :: u32 where [mmu_consts]: "PTE_PWT = 0x008"
definition PTE_PCD :: u32 where [mmu_consts]: "PTE_PCD = 0x010"

definition KERNBASE :: u32 where [mmu_consts]: "KERNBASE = 0xE0000000"
definition EXTPHYSMEM :: u32 where [mmu_consts]: "EXTPHYSMEM = 0x100000"
definition KSTACKTOP :: u32 where [mmu_consts]: "KSTACKTOP = 0xE0000000"
definition KSTKSIZE :: u32 where [mmu_consts]: "KSTKSIZE = 0x8000"
definition MMIOLIM :: u32 where [mmu_consts]: "MMIOLIM = KSTACKTOP - PTSIZE"
definition MMIOBASE :: u32 where [mmu_consts]: "MMIOBASE = MMIOLIM - PTSIZE"
definition ULIM :: u32 where [mmu_consts]: "ULIM = MMIOBASE"
definition UVPT :: u32 where [mmu_consts]: "UVPT = ULIM - PTSIZE"
definition UPAGES :: u32 where [mmu_consts]: "UPAGES = UVPT - PTSIZE"
definition UENVS :: u32 where [mmu_consts]: "UENVS = UPAGES - PTSIZE"
definition UTOP :: u32 where [mmu_consts]: "UTOP = UENVS"
definition USTACKTOP :: u32 where [mmu_consts]: "USTACKTOP = UTOP - 2 * PGSIZE"

definition GD_KT :: u16 where [mmu_consts]: "GD_KT = 0x08"
definition GD_KD :: u16 where [mmu_consts]: "GD_KD = 0x10"
definition GD_UT :: u16 where [mmu_consts]: "GD_UT = 0x18"
definition GD_UD :: u16 where [mmu_consts]: "GD_UD = 0x20"
definition GD_TSS0 :: u16 where [mmu_consts]: "GD_TSS0 = 0x28"

section \<open>Rounding\<close>

definition ROUNDDOWN :: "u32 \<Rightarrow> u32 \<Rightarrow> u32" where
  "ROUNDDOWN a n = a - a mod n"

definition ROUNDUP :: "u32 \<Rightarrow> u32 \<Rightarrow> u32" where
  "ROUNDUP a n = ROUNDDOWN (a + n - 1) n"

section \<open>Linear addresses\<close>

definition PGNUM :: "u32 \<Rightarrow> u32" where
  "PGNUM la = drop_bit 12 la"

definition PDX :: "u32 \<Rightarrow> u32" where
  "PDX la = drop_bit 22 la AND 0x3FF"

definition PTX :: "u32 \<Rightarrow> u32" where
  "PTX la = drop_bit 12 la AND 0x3FF"

definition PGOFF :: "u32 \<Rightarrow> u32" where
  "PGOFF la = la AND 0xFFF"

definition PGADDR :: "u32 \<Rightarrow> u32 \<Rightarrow> u32 \<Rightarrow> u32" where
  "PGADDR d t off = push_bit 22 d OR push_bit 12 t OR off"

definition PTE_ADDR :: "u32 \<Rightarrow> u32" where
  "PTE_ADDR pte = pte AND NOT 0xFFF"

abbreviation present :: "u32 \<Rightarrow> bool" where
  "present e \<equiv> e AND PTE_P \<noteq> 0"

section \<open>Segment and gate descriptors\<close>

record SegDesc =
  sd_lim_15_0 :: "16 word"
  sd_base_15_0 :: "16 word"
  sd_base_23_16 :: "8 word"
  sd_type :: "4 word"
  sd_s :: "1 word"
  sd_dpl :: "2 word"
  sd_p :: "1 word"
  sd_lim_19_16 :: "4 word"
  sd_avl :: "1 word"
  sd_rsv1 :: "1 word"
  sd_db :: "1 word"
  sd_g :: "1 word"
  sd_base_31_24 :: "8 word"

definition SEG_NULL :: SegDesc where
  "SEG_NULL = \<lparr>sd_lim_15_0 = 0, sd_base_15_0 = 0, sd_base_23_16 = 0, sd_type = 0, sd_s = 0,
     sd_dpl = 0, sd_p = 0, sd_lim_19_16 = 0, sd_avl = 0, sd_rsv1 = 0, sd_db = 0, sd_g = 0,
     sd_base_31_24 = 0\<rparr>"

definition SEG :: "u32 \<Rightarrow> u32 \<Rightarrow> u32 \<Rightarrow> u32 \<Rightarrow> SegDesc" where
  "SEG ty base lim dpl = \<lparr>sd_lim_15_0 = ucast (drop_bit 12 lim AND 0xffff),
     sd_base_15_0 = ucast (base AND 0xffff), sd_base_23_16 = ucast (drop_bit 16 base AND 0xff),
     sd_type = ucast ty, sd_s = 1, sd_dpl = ucast dpl, sd_p = 1,
     sd_lim_19_16 = ucast (drop_bit 28 lim), sd_avl = 0, sd_rsv1 = 0, sd_db = 1, sd_g = 1,
     sd_base_31_24 = ucast (drop_bit 24 base)\<rparr>"

definition SEG16 :: "u32 \<Rightarrow> u32 \<Rightarrow> u32 \<Rightarrow> u32 \<Rightarrow> SegDesc" where
  "SEG16 ty base lim dpl = \<lparr>sd_lim_15_0 = ucast (lim AND 0xffff),
     sd_base_15_0 = ucast (base AND 0xffff), sd_base_23_16 = ucast (drop_bit 16 base AND 0xff),
     sd_type = ucast ty, sd_s = 1, sd_dpl = ucast dpl, sd_p = 1,
     sd_lim_19_16 = ucast (drop_bit 16 lim), sd_avl = 0, sd_rsv1 = 0, sd_db = 1, sd_g = 0,
     sd_base_31_24 = ucast (drop_bit 24 base)\<rparr>"

record GateDesc =
  gd_off_15_0 :: "16 word"
  gd_sel :: "16 word"
  gd_args :: "5 word"
  gd_rsv1 :: "3 word"
  gd_type :: "4 word"
  gd_s :: "1 word"
  gd_dpl :: "2 word"
  gd_p :: "1 word"
  gd_off_31_16 :: "16 word"

definition SETGATE :: "bool \<Rightarrow> u16 \<Rightarrow> u32 \<Rightarrow> u32 \<Rightarrow> GateDesc" where
  "SETGATE istrap sel off dpl = \<lparr>gd_off_15_0 = ucast (off AND 0xffff), gd_sel = sel,
     gd_args = 0, gd_rsv1 = 0, gd_type = (if istrap then 0xF else 0xE), gd_s = 0,
     gd_dpl = ucast dpl, gd_p = 1, gd_off_31_16 = ucast (drop_bit 16 off)\<rparr>"

section \<open>The address that a descriptor encodes\<close>

definition gate_offset :: "GateDesc \<Rightarrow> u32" where
  "gate_offset g = ucast (gd_off_15_0 g) OR push_bit 16 (ucast (gd_off_31_16 g))"

definition seg_base :: "SegDesc \<Rightarrow> u32" where
  "seg_base s = ucast (sd_base_15_0 s) OR push_bit 16 (ucast (sd_base_23_16 s))
     OR push_bit 24 (ucast (sd_base_31_24 s))"

text \<open>The processor scales the 20-bit limit by 4 KiB when the granularity bit is set.\<close>

definition seg_limit :: "SegDesc \<Rightarrow> u32" where
  "seg_limit s = (let raw = ucast (sd_lim_15_0 s) OR push_bit 16 (ucast (sd_lim_19_16 s)) in
     if sd_g s = 1 then push_bit 12 raw OR 0xFFF else raw)"

section \<open>Facts\<close>

lemma masks32: "(0x3FF :: u32) = mask 10" "(0xFFF :: u32) = mask 12" "(0xffff :: u32) = mask 16"
  "(0xff :: u32) = mask 8"
  by (simp_all add: mask_eq_exp_minus_1)

lemma unat_PGNUM [unat_simps]: "unat (PGNUM la) = unat la div 4096"
  by (simp add: PGNUM_def unat_simps)

lemma unat_PDX [unat_simps]: "unat (PDX la) = unat la div 4194304"
proof -
  have "unat la div 4194304 < 1024" using unat_lt_2p32 [of la] by simp
  then show ?thesis unfolding PDX_def masks32 by (simp add: unat_simps)
qed

lemma unat_PTX [unat_simps]: "unat (PTX la) = unat la div 4096 mod 1024"
  unfolding PTX_def masks32 by (simp add: unat_simps)

lemma unat_PGOFF [unat_simps]: "unat (PGOFF la) = unat la mod 4096"
  unfolding PGOFF_def masks32 by (simp add: unat_simps)

lemma PDX_lt: "unat (PDX la) < 1024"
  using unat_lt_2p32 [of la] by (simp add: unat_simps)

lemma PTX_lt: "unat (PTX la) < 1024"
  by (simp add: unat_simps)

lemma and_not_mask32: "(w :: u32) AND NOT (mask n) = w - (w AND mask n)"
  by (subst disjunctive_diff_eq_and_not) (auto simp: bit_eq_iff bit_simps)

lemma unat_PTE_ADDR [unat_simps]: "unat (PTE_ADDR e) = unat e div 4096 * 4096"
proof -
  have le: "e AND mask 12 \<le> e" by (simp add: word_and_le2)
  have "unat (PTE_ADDR e) = unat e - unat (e AND mask 12)"
    unfolding PTE_ADDR_def masks32 and_not_mask32 using le by (rule unat_sub_le)
  then show ?thesis by (simp add: unat_and_mask minus_mod_eq_div_mult)
qed

lemma aligned_PTE_ADDR: "aligned 4096 (PTE_ADDR e)"
  by (simp add: aligned_def unat_simps)

lemma unat_ROUNDDOWN: "n \<noteq> 0 \<Longrightarrow> unat (ROUNDDOWN a n) = unat a div unat n * unat n"
proof -
  have "unat (a mod n) \<le> unat a" by (simp add: unat_mod)
  then have "a mod n \<le> a" by (simp add: word_le_nat_alt)
  then have "unat (ROUNDDOWN a n) = unat a - unat (a mod n)"
    unfolding ROUNDDOWN_def by (rule unat_sub_le)
  then show ?thesis by (simp add: unat_mod minus_mod_eq_div_mult)
qed

lemma unat_ROUNDUP:
  assumes "n \<noteq> 0" "unat a + unat n \<le> 4294967296"
  shows "unat (ROUNDUP a n) = (unat a + unat n - 1) div unat n * unat n"
proof -
  have n1: "1 \<le> unat n" using assms(1) by (simp add: Suc_le_eq unat_gt_0)
  have eq: "a + n - 1 = a + (n - 1)" by simp
  have m: "unat (n - 1) = unat n - 1" using assms(1) by (rule unat_minus_one)
  have "unat (a + n - 1) = unat a + (unat n - 1)"
    unfolding eq m [symmetric] by (rule unat_add_no_wrap) (use assms(2) n1 m in simp)
  then show ?thesis unfolding ROUNDUP_def using n1 by (simp add: unat_ROUNDDOWN assms(1))
qed

lemma PGADDR_split: "PGADDR (PDX la) (PTX la) (PGOFF la) = la"
proof (rule bit_word_eqI)
  fix n assume "n < LENGTH(32)"
  then consider "n < 12" | "12 \<le> n" "n < 22" | "22 \<le> n" "n < 32" by fastforce
  then show "bit (PGADDR (PDX la) (PTX la) (PGOFF la)) n = bit la n"
    by cases (auto simp: PGADDR_def PDX_def PTX_def PGOFF_def masks32 bit_simps)
qed

lemma unat_PGADDR:
  assumes "j < 1024" "l < 1024"
  shows "unat (PGADDR (of_nat j) (of_nat l) 0) = j * 4194304 + l * 4096"
proof -
  have l: "unat (of_nat l * 4096 :: u32) = l * 4096" "unat (of_nat j * 4194304 :: u32) = j * 4194304"
    using assms by (simp_all add: unat_word_ariths)
  have "(push_bit 22 (of_nat j) :: u32) AND push_bit 12 (of_nat l) = 0"
  proof (rule bit_word_eqI)
    fix n assume "n < LENGTH(32)"
    have "\<not> bit l (n - 12)" if "22 \<le> n"
    proof -
      have "(2 :: nat) ^ 10 \<le> 2 ^ (n - 12)" by (rule power_increasing) (use that in auto)
      then have "l div 2 ^ (n - 12) = 0" using assms(2) by (intro div_less) simp
      then show ?thesis by (simp only: bit_iff_odd) simp
    qed
    then show "bit ((push_bit 22 (of_nat j) :: u32) AND push_bit 12 (of_nat l)) n = bit (0 :: u32) n"
      by (auto simp: bit_simps)
  qed
  then have "PGADDR (of_nat j) (of_nat l) 0 = push_bit 22 (of_nat j) + push_bit 12 (of_nat l)"
    unfolding PGADDR_def by (simp add: disjunctive_add_eq_or)
  then show ?thesis
    using assms l by (simp add: push_bit_eq_mult unat_word_ariths)
qed

lemma PGADDR_parts:
  assumes "j < 1024" "l < 1024"
  shows "unat (PDX (PGADDR (of_nat j) (of_nat l) 0)) = j" "unat (PTX (PGADDR (of_nat j) (of_nat l) 0)) = l"
  unfolding unat_PDX unat_PTX unat_PGADDR [OF assms] using assms by simp_all

lemma gate_offset_SETGATE: "gate_offset (SETGATE t sel off dpl) = off"
proof (rule bit_word_eqI)
  fix n assume "n < LENGTH(32)"
  then consider "n < 16" | "16 \<le> n" "n < 32" by fastforce
  then show "bit (gate_offset (SETGATE t sel off dpl)) n = bit off n"
    by cases (auto simp: gate_offset_def SETGATE_def masks32 bit_simps)
qed

lemma seg_base_bits:
  assumes "sd_base_15_0 s = ucast (base AND 0xffff)"
    "sd_base_23_16 s = ucast (drop_bit 16 base AND 0xff)"
    "sd_base_31_24 s = ucast (drop_bit 24 base)"
  shows "seg_base s = base"
proof (rule bit_word_eqI)
  fix n assume "n < LENGTH(32)"
  then consider "n < 16" | "16 \<le> n" "n < 24" | "24 \<le> n" "n < 32" by fastforce
  then show "bit (seg_base s) n = bit base n"
    by cases (auto simp: seg_base_def assms masks32 bit_simps)
qed

lemma seg_base_SEG [simp]: "seg_base (SEG ty base lim dpl) = base"
  by (rule seg_base_bits) (simp_all add: SEG_def)

lemma seg_base_SEG16 [simp]: "seg_base (SEG16 ty base lim dpl) = base"
  by (rule seg_base_bits) (simp_all add: SEG16_def)

lemma seg_limit_SEG: "seg_limit (SEG ty base lim dpl) = lim OR 0xFFF"
proof (rule bit_word_eqI)
  fix n assume "n < LENGTH(32)"
  then consider "n < 12" | "12 \<le> n" "n < 28" | "28 \<le> n" "n < 32" by fastforce
  then show "bit (seg_limit (SEG ty base lim dpl)) n = bit (lim OR 0xFFF) n"
    by cases (auto simp: seg_limit_def SEG_def masks32 bit_simps)
qed

lemma seg_limit_SEG16: "unat lim < 1048576 \<Longrightarrow> seg_limit (SEG16 ty base lim dpl) = lim"
proof -
  assume "unat lim < 1048576"
  then have "unat (lim AND mask 20) = unat lim" by (simp add: unat_simps)
  then have lim: "lim AND mask 20 = lim" by (rule unat_inj32)
  have hi: "\<not> bit lim n" if "20 \<le> n" for n
    by (metis bit_and_iff bit_mask_iff lim not_le that)
  show ?thesis
  proof (rule bit_word_eqI)
    fix n assume "n < LENGTH(32)"
    then consider "n < 16" | "16 \<le> n" "n < 20" | "20 \<le> n" by fastforce
    then show "bit (seg_limit (SEG16 ty base lim dpl)) n = bit lim n"
      by cases (auto simp: seg_limit_def SEG16_def masks32 bit_simps hi)
  qed
qed

end
