(* ===== verification/Results.thy ===== *)
theory Results
  imports Prelude
begin

text \<open>
  The result codes of \<open>include/result.hh\<close> with their numeric values, and the table of
  messages that \<open>lib/printfmt.cc\<close> prints for them.
\<close>

datatype Result = ok | unknownError | invalidArg | noMemory | noFreeTask | fuck
  | tooManyArgs | badSyntax | badCommand | noSuchTask

primrec result_code :: "Result \<Rightarrow> u32" where
  "result_code ok = 0"
| "result_code unknownError = 1"
| "result_code invalidArg = 2"
| "result_code noMemory = 3"
| "result_code noFreeTask = 4"
| "result_code fuck = 5"
| "result_code tooManyArgs = 6"
| "result_code badSyntax = 7"
| "result_code badCommand = 8"
| "result_code noSuchTask = 9"

text \<open>\<open>describe\<close>: a code without an enumerator falls through to the last \<open>return\<close>.\<close>

definition describe_result :: "u32 \<Rightarrow> string" where
  "describe_result c =
     (if c = 0 then ''OK'' else if c = 1 then ''Unknown Error''
      else if c = 2 then ''Invalid Argument'' else if c = 3 then ''No Memory''
      else if c = 4 then ''No Free Task'' else if c = 5 then ''Fucking Error''
      else if c = 6 then ''Too Many Arguments'' else if c = 7 then ''Bad Syntax''
      else if c = 8 then ''Bad Command'' else if c = 9 then ''No Such Task''
      else ''Undefined Error'')"

lemma result_code_inj: "result_code a = result_code b \<longleftrightarrow> a = b"
  by (cases a; cases b) simp_all

end
