(* ===== verification/PageAlloc.thy ===== *)
theory PageAlloc
  imports Mmu ByteMem
begin

text \<open>
  Physical memory management of \<open>kernel/vmem.cc\<close> and \<open>kernel/vmem.hh\<close>: the boot-time bump
  allocator \<open>bootAlloc\<close>, memory detection, the table \<open>PageInfo::array\<close> with its free list, and
  \<open>page::init\<close>. A \<open>PageInfo*\<close> is the index of its entry (\<open>this - array\<close>), \<open>None\<close> the null
  pointer. The array is a component of its own: the boot allocator places it below every page
  that the free list hands out (\<open>page_init_ok\<close>), so no page access reaches it.
\<close>

section \<open>State\<close>

record PageInfo =
  nextFree :: "nat option"
  refCount :: u16

text \<open>Instructions with an effect outside the modelled state: TLB, control registers, segment registers.\<close>

datatype hw_event = Invlpg u32 | Lcr3 u32 | Lcr0 u32 | Lgdt | LoadSeg string u16 | Ljmp u16
  | Cli | Outb u32 u8 | Outw u32 u16

text \<open>
  \<open>kmem\<close> is memory as the kernel addresses it: physical address \<open>pa\<close> is at \<open>pa + KERNBASE\<close>.
  \<open>pagesAddr\<close> is the pointer value of \<open>PageInfo::array\<close>; \<open>bootNext\<close> is the static \<open>next\<close> of
  \<open>bootAlloc\<close> (\<open>None\<close> before its first call), \<open>mmioNext\<close> that of \<open>mmioMap\<close>. \<open>hwlog\<close> records
  the privileged instructions executed and what the system control writes to ports, latest first.
\<close>

record vmem =
  totalMem :: u32
  nPages :: u32
  nPagesBaseMem :: u32
  kernelPageDir :: u32
  pagesAddr :: u32
  pages :: "PageInfo list"
  freeList :: "nat option"
  bootNext :: "u32 option"
  bootAllocForbidden :: bool
  mmioNext :: u32
  kmem :: mem
  hwlog :: "hw_event list"

section \<open>Address conversion\<close>

definition PHY_ADDR :: "u32 \<Rightarrow> u32 outcome" where
  "PHY_ADDR kernva =
     (if kernva < KERNBASE then Inl (Panic ''PADDR: cannot convert to pa'')
      else Inr (kernva - KERNBASE))"

definition KERN_ADDR :: "vmem \<Rightarrow> u32 \<Rightarrow> u32 outcome" where
  "KERN_ADDR s pa =
     (if nPages s \<le> PGNUM pa \<or> nPages s = 0 then Inl (Panic ''KADDR: cannot convert to kva'')
      else Inr (pa + KERNBASE))"

definition toPhy :: "nat \<Rightarrow> u32" where
  "toPhy i = push_bit 12 (of_nat i)"

definition toKernV :: "vmem \<Rightarrow> nat \<Rightarrow> u32 outcome" where
  "toKernV s i = KERN_ADDR s (toPhy i)"

definition fromPhy :: "vmem \<Rightarrow> u32 \<Rightarrow> nat outcome" where
  "fromPhy s pa =
     (if nPages s \<le> PGNUM pa \<or> nPages s = 0
      then Inl (Panic ''phyToPage: cannot convert to PageInfo'')
      else Inr (unat (PGNUM pa)))"

section \<open>PageInfo\<close>

text \<open>Dereferencing a \<open>PageInfo*\<close>; outside the array the source has no meaning.\<close>

definition page_at :: "vmem \<Rightarrow> nat \<Rightarrow> PageInfo outcome" where
  "page_at s i = (if i < length (pages s) then Inr (pages s ! i) else Inl (Fault ''PageInfo*''))"

definition page_free :: "nat \<Rightarrow> vmem \<Rightarrow> vmem outcome" where
  "page_free i s = bindE (page_at s i) (\<lambda>p.
     if refCount p \<noteq> 0 \<or> nextFree p \<noteq> None
     then Inl (Panic ''pageFree: cannot free page'')
     else Inr (s\<lparr>pages := (pages s)[i := p\<lparr>nextFree := freeList s\<rparr>], freeList := Some i\<rparr>))"

definition decRef :: "nat \<Rightarrow> vmem \<Rightarrow> vmem outcome" where
  "decRef i s = bindE (page_at s i) (\<lambda>p.
     let p' = p\<lparr>refCount := refCount p - 1\<rparr>; s' = s\<lparr>pages := (pages s)[i := p']\<rparr> in
     if refCount p' \<le> 0 then page_free i s' else Inr s')"

definition incRef :: "nat \<Rightarrow> vmem \<Rightarrow> vmem outcome" where
  "incRef i s = bindE (page_at s i) (\<lambda>p.
     Inr (s\<lparr>pages := (pages s)[i := p\<lparr>refCount := refCount p + 1\<rparr>]\<rparr>))"

definition page_alloc :: "bool \<Rightarrow> vmem \<Rightarrow> (nat option \<times> vmem) outcome" where
  "page_alloc zero s =
     (case freeList s of
        None \<Rightarrow> Inr (None, s)
      | Some i \<Rightarrow> bindE (page_at s i) (\<lambda>p.
          let s1 = s\<lparr>freeList := nextFree p, pages := (pages s)[i := p\<lparr>nextFree := None\<rparr>]\<rparr> in
          if zero then bindE (toKernV s1 i) (\<lambda>va.
            Inr (Some i, s1\<lparr>kmem := mem_clear (kmem s1) va PGSIZE\<rparr>))
          else Inr (Some i, s1)))"

partial_function (option) freeCount_loop ::
  "PageInfo list \<Rightarrow> nat option \<Rightarrow> nat \<Rightarrow> nat outcome option" where
  "freeCount_loop ps p count =
     (case p of None \<Rightarrow> Some (Inr count)
      | Some i \<Rightarrow> if i < length ps then freeCount_loop ps (nextFree (ps ! i)) (count + 1)
                 else Some (Inl (Fault ''PageInfo*'')))"

definition freeCount :: "vmem \<Rightarrow> nat outcome option" where
  "freeCount s = freeCount_loop (pages s) (freeList s) 0"

section \<open>Boot-time allocation and detection\<close>

definition bootAlloc :: "u32 \<Rightarrow> u32 \<Rightarrow> vmem \<Rightarrow> (u32 \<times> vmem) outcome" where
  "bootAlloc kernEnd sz s =
     (let next = (case bootNext s of None \<Rightarrow> ROUNDUP kernEnd PGSIZE | Some a \<Rightarrow> a);
          s1 = s\<lparr>bootNext := Some next\<rparr> in
      if sz = 0 then Inr (next, s1)
      else bindE (assertE ''!bootAllocForbidden'' (\<not> bootAllocForbidden s)) (\<lambda>_.
        Inr (next, s1\<lparr>bootNext := Some (ROUNDUP (next + sz) PGSIZE)\<rparr>)))"

text \<open>\<open>nvram::read\<close>: two CMOS bytes, little endian; \<open>cmos\<close> is the clock chip's register file.\<close>

definition nvram_read :: "(u8 \<Rightarrow> u8) \<Rightarrow> u8 \<Rightarrow> u32" where
  "nvram_read cmos r = ucast (cmos r) OR push_bit 8 (ucast (cmos (r + 1)))"

definition NVRAM_BASELO :: u8 where "NVRAM_BASELO = 0x15"
definition NVRAM_EXTLO :: u8 where "NVRAM_EXTLO = 0x17"
definition NVRAM_EXT16LO :: u8 where "NVRAM_EXT16LO = 0x34"

definition detect :: "(u8 \<Rightarrow> u8) \<Rightarrow> vmem \<Rightarrow> vmem" where
  "detect cmos s =
     (let baseMem = nvram_read cmos NVRAM_BASELO;
          extMem = nvram_read cmos NVRAM_EXTLO;
          ext16Mem = nvram_read cmos NVRAM_EXT16LO * 64;
          total = (if ext16Mem \<noteq> 0 then 16 * 1024 + ext16Mem
                   else if extMem \<noteq> 0 then 1 * 1024 + extMem
                   else baseMem) in
      s\<lparr>totalMem := total, nPages := total div (PGSIZE div 1024),
        nPagesBaseMem := baseMem div (PGSIZE div 1024)\<rparr>)"

section \<open>page::init\<close>

definition SIZEOF_PageInfo :: u32 where "SIZEOF_PageInfo = 8"

definition mark_used :: "nat \<Rightarrow> vmem \<Rightarrow> vmem outcome" where
  "mark_used i s = bindE (page_at s i) (\<lambda>p.
     Inr (s\<lparr>pages := (pages s)[i := p\<lparr>refCount := 1\<rparr>]\<rparr>))"

definition mark_free :: "nat \<Rightarrow> vmem \<Rightarrow> vmem outcome" where
  "mark_free i s = bindE (page_at s i) (\<lambda>p.
     Inr (s\<lparr>pages := (pages s)[i := p\<lparr>refCount := 0, nextFree := freeList s\<rparr>],
            freeList := Some i\<rparr>))"

definition page_ref :: "vmem \<Rightarrow> u32 \<Rightarrow> u16 outcome" where
  "page_ref s pa = bindE (fromPhy s pa) (\<lambda>i. bindE (page_at s i) (\<lambda>p. Inr (refCount p)))"

definition init_checks :: "vmem \<Rightarrow> vmem outcome" where
  "init_checks s =
     bindE (page_ref s 0xb8000) (\<lambda>c. bindE (assertE ''0xb8000'' (0 < c)) (\<lambda>_.
     bindE (PHY_ADDR (pagesAddr s)) (\<lambda>pa. bindE (page_ref s pa) (\<lambda>c.
     bindE (assertE ''PageInfo::array'' (0 < c)) (\<lambda>_.
     bindE (page_ref s ((totalMem s - 4) * 1024)) (\<lambda>c. bindE (assertE ''totalMem'' (c = 0)) (\<lambda>_.
     case freeList s of None \<Rightarrow> Inl (Fault ''PageInfo*'')
     | Some i \<Rightarrow> bindE (assertE ''PDX'' (PDX (toPhy i) = 0)) (\<lambda>_. Inr s))))))))"

definition page_init :: "u32 \<Rightarrow> vmem \<Rightarrow> vmem outcome" where
  "page_init kernEnd s =
     bindE (bootAlloc kernEnd (SIZEOF_PageInfo * nPages s) s) (\<lambda>(arr, s1).
     let s2 = s1\<lparr>pagesAddr := arr, kmem := mem_clear (kmem s1) arr (SIZEOF_PageInfo * nPages s1),
          pages := replicate (unat (nPages s1)) \<lparr>nextFree = None, refCount = 0\<rparr>\<rparr> in
     bindE (foldE mark_used [0..<unat (EXTPHYSMEM div PGSIZE)] s2) (\<lambda>s3.
     bindE (bootAlloc kernEnd 0 s3) (\<lambda>(next, s4).
     bindE (PHY_ADDR next) (\<lambda>pa.
     let i1 = unat (EXTPHYSMEM div PGSIZE); nextFreePage = unat (pa div PGSIZE);
         i2 = max i1 nextFreePage; lim = unat (4 * 1024 * 1024 div PGSIZE) in
     bindE (foldE mark_used [i1..<nextFreePage] s4) (\<lambda>s5.
     bindE (foldE mark_free [lim..<unat (nPages s5)] s5) (\<lambda>s6.
     bindE (foldE mark_free [i2..<lim] s6) init_checks))))))"

section \<open>The free list\<close>

text \<open>\<open>fl_path ps p is\<close>: following \<open>nextFree\<close> from \<open>p\<close> visits exactly \<open>is\<close> and then ends.\<close>

primrec fl_path :: "PageInfo list \<Rightarrow> nat option \<Rightarrow> nat list \<Rightarrow> bool" where
  "fl_path ps p [] \<longleftrightarrow> p = None"
| "fl_path ps p (i # is) \<longleftrightarrow> p = Some i \<and> i < length ps \<and> fl_path ps (nextFree (ps ! i)) is"

text \<open>
  The allocator invariant, for the list \<open>fl\<close> of free pages in the order they are handed out:
  free pages are unreferenced, pages outside the list are unlinked, and the table has one entry
  per page of physical memory, all of it inside the kernel's window.
\<close>

definition alloc_inv :: "vmem \<Rightarrow> nat list \<Rightarrow> bool" where
  "alloc_inv s fl \<longleftrightarrow> fl_path (pages s) (freeList s) fl \<and> distinct fl
     \<and> (\<forall>i\<in>set fl. refCount (pages s ! i) = 0)
     \<and> (\<forall>i<length (pages s). i \<notin> set fl \<longrightarrow> nextFree (pages s ! i) = None)
     \<and> length (pages s) = unat (nPages s) \<and> nPages s \<le> 0x20000"

lemma fl_path_update [simp]:
  "i \<notin> set is \<Longrightarrow> fl_path (ps[i := x]) p is \<longleftrightarrow> fl_path ps p is"
  by (induction "is" arbitrary: p) auto

lemma fl_path_lt: "fl_path ps p is \<Longrightarrow> i \<in> set is \<Longrightarrow> i < length ps"
  by (induction "is" arbitrary: p) auto

lemma fl_path_unique: "fl_path ps p is \<Longrightarrow> fl_path ps p js \<Longrightarrow> is = js"
proof (induction "is" arbitrary: p js)
  case Nil
  then show ?case by (cases js) auto
next
  case (Cons i "is")
  then show ?case by (cases js) auto
qed

lemma alloc_inv_path: "alloc_inv s fl \<Longrightarrow> fl_path (pages s) (freeList s) fl"
  and alloc_inv_distinct: "alloc_inv s fl \<Longrightarrow> distinct fl"
  and alloc_inv_ref0: "alloc_inv s fl \<Longrightarrow> i \<in> set fl \<Longrightarrow> refCount (pages s ! i) = 0"
  and alloc_inv_next: "alloc_inv s fl \<Longrightarrow> i < length (pages s) \<Longrightarrow> i \<notin> set fl \<Longrightarrow>
        nextFree (pages s ! i) = None"
  and alloc_inv_length: "alloc_inv s fl \<Longrightarrow> length (pages s) = unat (nPages s)"
  and alloc_inv_window: "alloc_inv s fl \<Longrightarrow> nPages s \<le> 0x20000"
  by (simp_all add: alloc_inv_def)

lemma alloc_inv_lt: "alloc_inv s fl \<Longrightarrow> i \<in> set fl \<Longrightarrow> i < unat (nPages s)"
  using fl_path_lt alloc_inv_path alloc_inv_length by metis

lemma nPages_unat: "alloc_inv s fl \<Longrightarrow> unat (nPages s) \<le> 131072"
  using alloc_inv_window [of s fl] by (simp add: word_le_nat_alt)

lemma unat_toPhy: "i < 1048576 \<Longrightarrow> unat (toPhy i) = 4096 * i"
  by (simp add: toPhy_def push_bit_eq_mult unat_word_ariths)

lemma aligned_toPhy: "i < 1048576 \<Longrightarrow> aligned 4096 (toPhy i)"
  by (simp add: aligned_def unat_toPhy)

lemma PGNUM_toPhy: "i < 1048576 \<Longrightarrow> unat (PGNUM (toPhy i)) = i"
  by (simp add: unat_simps unat_toPhy)

lemma toKernV_ok:
  "alloc_inv s fl \<Longrightarrow> i < unat (nPages s) \<Longrightarrow> toKernV s i = Inr (toPhy i + KERNBASE)"
  using nPages_unat [of s fl]
  by (auto simp: toKernV_def KERN_ADDR_def word_le_nat_alt PGNUM_toPhy)

lemma fromPhy_toPhy:
  "alloc_inv s fl \<Longrightarrow> i < unat (nPages s) \<Longrightarrow> fromPhy s (toPhy i) = Inr i"
  using nPages_unat [of s fl]
  by (auto simp: fromPhy_def word_le_nat_alt PGNUM_toPhy)

lemma page_at_Inr [simp]: "page_at s i = Inr p \<longleftrightarrow> i < length (pages s) \<and> p = pages s ! i"
  by (auto simp: page_at_def)

section \<open>Allocation, release and reference counting\<close>

lemma page_alloc_empty: "alloc_inv s [] \<Longrightarrow> page_alloc z s = Inr (None, s)"
  by (auto simp: page_alloc_def alloc_inv_def)

lemma page_alloc_cons:
  assumes inv: "alloc_inv s (i # fl)"
  defines "s1 \<equiv> s\<lparr>freeList := nextFree (pages s ! i),
                 pages := (pages s)[i := (pages s ! i)\<lparr>nextFree := None\<rparr>]\<rparr>"
  shows "page_alloc z s = Inr (Some i, if z
           then s1\<lparr>kmem := mem_clear (kmem s) (toPhy i + KERNBASE) PGSIZE\<rparr> else s1)"
    and "alloc_inv s1 fl"
proof -
  have fl: "freeList s = Some i" "i < length (pages s)" "i \<notin> set fl"
      "fl_path (pages s) (nextFree (pages s ! i)) fl"
    using inv by (auto simp: alloc_inv_def)
  show s1: "alloc_inv s1 fl"
    using inv fl by (auto simp: alloc_inv_def s1_def nth_list_update)
  have "toKernV s1 i = Inr (toPhy i + KERNBASE)"
    using s1 fl(2) alloc_inv_length [OF inv] by (intro toKernV_ok) (auto simp: s1_def)
  then show "page_alloc z s = Inr (Some i, if z
           then s1\<lparr>kmem := mem_clear (kmem s) (toPhy i + KERNBASE) PGSIZE\<rparr> else s1)"
    using fl by (auto simp: page_alloc_def page_at_def s1_def)
qed

lemma alloc_inv_kmem [simp]: "alloc_inv (s\<lparr>kmem := m\<rparr>) fl = alloc_inv s fl"
  and alloc_inv_hwlog [simp]: "alloc_inv (s\<lparr>hwlog := l\<rparr>) fl = alloc_inv s fl"
  by (simp_all add: alloc_inv_def)

lemma page_free_ok:
  assumes "alloc_inv s fl" "i < length (pages s)" "i \<notin> set fl" "refCount (pages s ! i) = 0"
  defines "t \<equiv> s\<lparr>pages := (pages s)[i := (pages s ! i)\<lparr>nextFree := freeList s\<rparr>],
           freeList := Some i\<rparr>"
  shows "page_free i s = Inr t" and "alloc_inv t (i # fl)"
  unfolding t_def using assms(1-4) by (auto simp: page_free_def page_at_def alloc_inv_def nth_list_update)

text \<open>
  The check of \<open>free\<close> for a page that is already free looks at its link, which is null for the last page of
  the list: freeing that page again is accepted and makes the list a cycle, on which \<open>freeCount\<close> never ends.
\<close>

lemma free_last_again:
  assumes "alloc_inv s [i]"
  shows "page_free i s = Inr (s\<lparr>pages := (pages s)[i := (pages s ! i)\<lparr>nextFree := Some i\<rparr>], freeList := Some i\<rparr>)"
    "freeCount (s\<lparr>pages := (pages s)[i := (pages s ! i)\<lparr>nextFree := Some i\<rparr>], freeList := Some i\<rparr>) = None"
proof -
  have i: "freeList s = Some i" "i < length (pages s)" "nextFree (pages s ! i) = None" "refCount (pages s ! i) = 0"
    using assms by (auto simp: alloc_inv_def)
  then show "page_free i s = Inr (s\<lparr>pages := (pages s)[i := (pages s ! i)\<lparr>nextFree := Some i\<rparr>], freeList := Some i\<rparr>)"
    by (simp add: page_free_def page_at_def)
  let ?ps = "(pages s)[i := (pages s ! i)\<lparr>nextFree := Some i\<rparr>]"
  have "freeCount_loop ps p n = Some r \<Longrightarrow> ps = ?ps \<Longrightarrow> p \<noteq> Some i" for ps p n r
  proof (induction ps p n r rule: freeCount_loop.raw_induct [rotated, consumes 1])
    case (1 loop ps p n r)
    show ?case
    proof
      assume "p = Some i"
      then have "loop ?ps (Some i) (n + 1) = Some r" using 1(2) 1(3) i(2) by simp
      then show False using 1(1) by blast
    qed
  qed
  then show "freeCount (s\<lparr>pages := ?ps, freeList := Some i\<rparr>) = None"
    by (cases "freeCount_loop ?ps (Some i) 0") (auto simp: freeCount_def)
qed

lemma alloc_inv_setref:
  assumes "alloc_inv s fl" "i < length (pages s)" "i \<notin> set fl"
  shows "alloc_inv (s\<lparr>pages := (pages s)[i := (pages s ! i)\<lparr>refCount := c\<rparr>]\<rparr>) fl"
  using assms by (auto simp: alloc_inv_def nth_list_update)

lemma incRef_ok:
  assumes "alloc_inv s fl" "i < length (pages s)" "i \<notin> set fl"
  defines "t \<equiv> s\<lparr>pages := (pages s)[i := (pages s ! i)
           \<lparr>refCount := refCount (pages s ! i) + 1\<rparr>]\<rparr>"
  shows "incRef i s = Inr t" and "alloc_inv t fl"
  unfolding t_def using assms(1-3) by (auto simp: incRef_def page_at_def intro: alloc_inv_setref)

lemma PageInfo_both: "p\<lparr>refCount := c, nextFree := n\<rparr> = \<lparr>nextFree = n, refCount = c\<rparr>"
  by (cases p) simp

lemma PageInfo_count: "nextFree p = None \<Longrightarrow> p\<lparr>refCount := c\<rparr> = \<lparr>nextFree = None, refCount = c\<rparr>"
  by (cases p) simp

lemma decRef_ok:
  assumes inv: "alloc_inv s fl" "i < length (pages s)" "i \<notin> set fl"
    and c: "c = refCount (pages s ! i) - 1"
  shows "\<exists>s'. decRef i s = Inr s' \<and> alloc_inv s' (if c = 0 then i # fl else fl)
     \<and> s' = s\<lparr>pages := (pages s)[i := \<lparr>nextFree = (if c = 0 then freeList s else None),
            refCount = c\<rparr>], freeList := (if c = 0 then Some i else freeList s)\<rparr>"
proof -
  let ?s = "s\<lparr>pages := (pages s)[i := (pages s ! i)\<lparr>refCount := c\<rparr>]\<rparr>"
  have s: "alloc_inv ?s fl" using inv by (rule alloc_inv_setref)
  have unlinked: "nextFree (pages s ! i) = None" using inv by (simp add: alloc_inv_next)
  show ?thesis
  proof (cases "c = 0")
    case True
    have "page_free i ?s = Inr (?s\<lparr>pages := (pages ?s)[i := (pages ?s ! i)
        \<lparr>nextFree := freeList ?s\<rparr>], freeList := Some i\<rparr>)"
      "alloc_inv (?s\<lparr>pages := (pages ?s)[i := (pages ?s ! i)
        \<lparr>nextFree := freeList ?s\<rparr>], freeList := Some i\<rparr>) (i # fl)"
      using page_free_ok [OF s, of i] inv True by simp_all
    then show ?thesis
      using inv(2) True c by (simp add: decRef_def page_at_def Let_def PageInfo_both)
  next
    case False
    then show ?thesis
      using inv(2) c s unlinked
      by (simp add: decRef_def page_at_def Let_def PageInfo_count)
  qed
qed

lemma freeCount_loop_path:
  "fl_path ps p fl \<Longrightarrow> freeCount_loop ps p n = Some (Inr (n + length fl))"
proof (induction fl arbitrary: p n)
  case Nil
  then show ?case by (simp add: freeCount_loop.simps)
next
  case (Cons i fl)
  then show ?case by (simp add: freeCount_loop.simps [of ps "Some i"])
qed

lemma freeCount_ok: "alloc_inv s fl \<Longrightarrow> freeCount s = Some (Inr (length fl))"
  using freeCount_loop_path [OF alloc_inv_path, of s fl 0] by (simp add: freeCount_def)

section \<open>The boot allocator\<close>

lemma bootAlloc_Some:
  "bootNext s = Some nx \<Longrightarrow> \<not> bootAllocForbidden s \<Longrightarrow>
   bootAlloc kernEnd sz s = Inr (nx, if sz = 0 then s
     else s\<lparr>bootNext := Some (ROUNDUP (nx + sz) PGSIZE)\<rparr>)"
  by (auto simp: bootAlloc_def Let_def assertE_def)

lemma bootAlloc_first:
  "bootNext s = None \<Longrightarrow>
   bootAlloc kernEnd sz s = bootAlloc kernEnd sz (s\<lparr>bootNext := Some (ROUNDUP kernEnd PGSIZE)\<rparr>)"
  by (simp add: bootAlloc_def Let_def)

lemma ROUNDUP_page:
  assumes "unat a + 4096 \<le> 4294967296"
  shows "unat a \<le> unat (ROUNDUP a PGSIZE)" "unat (ROUNDUP a PGSIZE) < unat a + 4096"
    "aligned 4096 (ROUNDUP a PGSIZE)"
proof -
  have eq: "unat (ROUNDUP a PGSIZE) = (unat a + 4095) div 4096 * 4096"
    using unat_ROUNDUP [of PGSIZE a] assms by (simp add: PGSIZE_def)
  have "(unat a + 4095) div 4096 * 4096 + (unat a + 4095) mod 4096 = unat a + 4095"
    "(unat a + 4095) mod 4096 < 4096" by simp_all
  then show "unat a \<le> unat (ROUNDUP a PGSIZE)" "unat (ROUNDUP a PGSIZE) < unat a + 4096"
    unfolding eq by linarith+
  show "aligned 4096 (ROUNDUP a PGSIZE)" by (simp add: aligned_def eq)
qed

section \<open>The free list that page::init builds\<close>

lemma foldE_mark_used:
  "\<forall>i\<in>set xs. i < length (pages s) \<Longrightarrow>
   \<exists>ps. foldE mark_used xs s = Inr (s\<lparr>pages := ps\<rparr>) \<and> length ps = length (pages s) \<and>
     (\<forall>i. ps ! i = (if i \<in> set xs then (pages s ! i)\<lparr>refCount := 1\<rparr> else pages s ! i))"
proof (induction xs arbitrary: s)
  case Nil
  then show ?case by (auto intro: exI [of _ "pages s"])
next
  case (Cons x xs)
  let ?s = "s\<lparr>pages := (pages s)[x := (pages s ! x)\<lparr>refCount := 1\<rparr>]\<rparr>"
  obtain ps where ps: "foldE mark_used xs ?s = Inr (?s\<lparr>pages := ps\<rparr>)"
      "length ps = length (pages ?s)"
      "\<forall>i. ps ! i = (if i \<in> set xs then (pages ?s ! i)\<lparr>refCount := 1\<rparr> else pages ?s ! i)"
    using Cons.IH [of ?s] Cons.prems by auto
  have "foldE mark_used (x # xs) s = Inr (s\<lparr>pages := ps\<rparr>)"
    using ps(1) Cons.prems by (simp add: mark_used_def page_at_def)
  moreover have "ps ! i = (if i \<in> set (x # xs) then (pages s ! i)\<lparr>refCount := 1\<rparr> else pages s ! i)"
    for i using ps(3) Cons.prems by (cases "i = x") auto
  ultimately show ?case using ps(2) by auto
qed

lemma foldE_mark_free:
  "\<forall>i\<in>set xs. i < length (pages s) \<Longrightarrow> distinct xs \<Longrightarrow> set xs \<inter> set fl = {} \<Longrightarrow>
   fl_path (pages s) (freeList s) fl \<Longrightarrow>
   \<exists>ps p. foldE mark_free xs s = Inr (s\<lparr>pages := ps, freeList := p\<rparr>) \<and>
     length ps = length (pages s) \<and> fl_path ps p (rev xs @ fl) \<and>
     (\<forall>i. i \<notin> set xs \<longrightarrow> ps ! i = pages s ! i) \<and> (\<forall>i\<in>set xs. refCount (ps ! i) = 0)"
proof (induction xs arbitrary: s fl)
  case Nil
  then show ?case by (auto intro!: exI [of _ "pages s"] exI [of _ "freeList s"])
next
  case (Cons x xs)
  let ?s = "s\<lparr>pages := (pages s)[x := (pages s ! x)\<lparr>refCount := 0, nextFree := freeList s\<rparr>],
              freeList := Some x\<rparr>"
  obtain ps p where ps: "foldE mark_free xs ?s = Inr (?s\<lparr>pages := ps, freeList := p\<rparr>)"
      "length ps = length (pages ?s)" "fl_path ps p (rev xs @ x # fl)"
      "\<forall>i. i \<notin> set xs \<longrightarrow> ps ! i = pages ?s ! i" "\<forall>i\<in>set xs. refCount (ps ! i) = 0"
    using Cons.IH [of ?s "x # fl"] Cons.prems by (auto simp: disjoint_iff)
  have "foldE mark_free (x # xs) s = Inr (s\<lparr>pages := ps, freeList := p\<rparr>)"
    using ps(1) Cons.prems by (simp add: mark_free_def page_at_def)
  moreover have "refCount (ps ! x) = 0"
    using ps(4) Cons.prems by simp
  ultimately show ?case
    using ps(2-5) Cons.prems by (intro exI [of _ ps] exI [of _ p]) auto
qed

text \<open>
  The state that \<open>page::init\<close> leaves: the pages from the end of the boot allocations up to the
  end of memory are free, those below 4 MB first.
\<close>

definition init_free :: "nat \<Rightarrow> nat \<Rightarrow> nat list" where
  "init_free nf n = rev [nf..<1024] @ rev [1024..<n]"

lemma set_init_free: "nf \<le> 1024 \<Longrightarrow> 1024 \<le> n \<Longrightarrow> set (init_free nf n) = {nf..<n}"
  by (auto simp: init_free_def)

lemma distinct_init_free: "distinct (init_free nf n)"
  by (auto simp: init_free_def)

lemma fromPhy_ok: "unat (PGNUM pa) < unat (nPages s) \<Longrightarrow> fromPhy s pa = Inr (unat (PGNUM pa))"
  by (auto simp: fromPhy_def word_le_nat_alt)

lemma page_ref_ok:
  "unat (PGNUM pa) < unat (nPages s) \<Longrightarrow> length (pages s) = unat (nPages s) \<Longrightarrow>
   page_ref s pa = Inr (refCount (pages s ! unat (PGNUM pa)))"
  by (simp add: page_ref_def fromPhy_ok page_at_def)

text \<open>
  \<open>page::init\<close> on a machine with \<open>T\<close> KB of memory, from the boot pointer \<open>nx\<close>: \<open>e\<close> is the
  end of \<open>PageInfo::array\<close>, rounded to a page, and \<open>nf\<close> the number of that page.
\<close>

definition boot_ready :: "vmem \<Rightarrow> u32 \<Rightarrow> bool" where
  "boot_ready s nx \<longleftrightarrow> bootNext s = Some nx \<and> \<not> bootAllocForbidden s \<and> aligned 4096 nx
     \<and> KERNBASE + EXTPHYSMEM \<le> nx \<and> nPages s = totalMem s div 4 \<and> freeList s = None
     \<and> 1024 \<le> unat (nPages s) \<and> unat (totalMem s) \<le> 524288
     \<and> unat nx + 8 * unat (nPages s) \<le> unat KERNBASE + 1023 * 4096"

definition boot_end :: "vmem \<Rightarrow> u32 \<Rightarrow> u32" where
  "boot_end s nx = ROUNDUP (nx + SIZEOF_PageInfo * nPages s) PGSIZE"

lemma boot_readyD:
  assumes "boot_ready s nx"
  shows "bootNext s = Some nx" "\<not> bootAllocForbidden s" "aligned 4096 nx"
    "unat KERNBASE + unat EXTPHYSMEM \<le> unat nx" "nPages s = totalMem s div 4" "freeList s = None"
    "1024 \<le> unat (nPages s)" "unat (totalMem s) \<le> 524288"
    "unat nx + 8 * unat (nPages s) \<le> unat KERNBASE + 1023 * 4096"
proof -
  have "unat (KERNBASE + EXTPHYSMEM) = unat KERNBASE + unat EXTPHYSMEM"
    by (simp add: KERNBASE_def EXTPHYSMEM_def)
  then show "unat KERNBASE + unat EXTPHYSMEM \<le> unat nx"
    using assms unfolding boot_ready_def word_le_nat_alt by metis
qed (use assms in \<open>unfold boot_ready_def, blast+\<close>)

lemma boot_end_bounds:
  assumes "boot_ready s nx"
  defines "nf \<equiv> unat (boot_end s nx - KERNBASE) div 4096"
  shows "KERNBASE + EXTPHYSMEM \<le> boot_end s nx" "256 \<le> nf" "nf < 1024"
    and "unat (boot_end s nx - KERNBASE) = 4096 * nf"
    and "unat nx + 8 * unat (nPages s) \<le> unat (boot_end s nx)"
    and "unat (nx - KERNBASE) div 4096 < nf"
proof -
  have r: "3758096384 + 1048576 \<le> unat nx" "1024 \<le> unat (nPages s)"
      "unat nx + 8 * unat (nPages s) \<le> 3758096384 + 1023 * 4096"
    using boot_readyD(4,7,9) [OF assms(1)] by (simp_all add: KERNBASE_def EXTPHYSMEM_def)
  have sz: "unat (SIZEOF_PageInfo * nPages s) = 8 * unat (nPages s)"
    using r by (simp add: SIZEOF_PageInfo_def unat_word_ariths)
  have a: "unat (nx + SIZEOF_PageInfo * nPages s) = unat nx + 8 * unat (nPages s)"
    using r sz by (subst unat_add_no_wrap) auto
  note up = ROUNDUP_page [of "nx + SIZEOF_PageInfo * nPages s", folded boot_end_def, unfolded a]
  have e: "unat nx + 8 * unat (nPages s) \<le> unat (boot_end s nx)"
      "unat (boot_end s nx) < unat nx + 8 * unat (nPages s) + 4096"
      "4096 dvd unat (boot_end s nx)"
    using up r by (simp_all add: aligned_def)
  show "unat nx + 8 * unat (nPages s) \<le> unat (boot_end s nx)" by (rule e(1))
  have k: "KERNBASE \<le> boot_end s nx" "KERNBASE \<le> nx" "unat KERNBASE = 3758096384"
    using e r by (simp_all add: KERNBASE_def word_le_nat_alt)
  have d: "unat (boot_end s nx - KERNBASE) = unat (boot_end s nx) - 3758096384"
      "unat (nx - KERNBASE) = unat nx - 3758096384"
    using unat_sub_le [OF k(1)] unat_sub_le [OF k(2)] k(3) by simp_all
  have dv: "4096 dvd unat (boot_end s nx) - 3758096384"
    using e(3) by (simp add: dvd_diff_nat)
  then show "unat (boot_end s nx - KERNBASE) = 4096 * nf"
    by (simp add: nf_def d)
  show "KERNBASE + EXTPHYSMEM \<le> boot_end s nx"
    using e(1) r by (simp add: KERNBASE_def EXTPHYSMEM_def word_le_nat_alt)
  show "256 \<le> nf" "unat (nx - KERNBASE) div 4096 < nf" using e r unfolding nf_def d by simp_all
  show "nf < 1024" using e r unfolding nf_def d by simp
qed

lemma init_checks_ok:
  assumes T: "nPages s = totalMem s div 4" "unat (totalMem s) \<le> 524288" "1024 \<le> unat (nPages s)"
    and len: "length (pages s) = unat (nPages s)"
    and arr: "KERNBASE \<le> pagesAddr s" "unat (pagesAddr s - KERNBASE) div 4096 < nf"
    and nf: "256 \<le> nf" "nf < 1024"
    and used: "\<And>i. i < nf \<Longrightarrow> refCount (pages s ! i) = 1"
    and free: "\<And>i. nf \<le> i \<Longrightarrow> i < unat (nPages s) \<Longrightarrow> refCount (pages s ! i) = 0"
    and fl: "fl_path (pages s) (freeList s) (init_free nf (unat (nPages s)))"
  shows "init_checks s = Inr s"
proof -
  have a: "page_ref s 0xb8000 = Inr 1"
    using T(3) len nf used [of 184] by (simp add: page_ref_ok unat_PGNUM)
  have b: "page_ref s (pagesAddr s - KERNBASE) = Inr 1"
    using arr nf T(3) len used by (simp add: page_ref_ok unat_PGNUM)
  have n: "unat (nPages s) = unat (totalMem s) div 4" by (simp add: T(1) unat_div)
  then have t4: "4 \<le> unat (totalMem s)" using T(3) by simp
  define x where "x = totalMem s - 4"
  have x: "unat x = unat (totalMem s) - 4"
    using t4 by (simp add: x_def unat_sub_if')
  have "unat (x * 1024) = unat x * 1024"
    using x T(2) by (simp add: unat_word_ariths)
  then have "unat ((totalMem s - 4) * 1024) = (unat (totalMem s) - 4) * 1024"
    unfolding x by (simp only: x_def)
  then have "unat (PGNUM ((totalMem s - 4) * 1024)) = unat (nPages s) - 1"
    using t4 n by (simp add: unat_PGNUM)
  then have c: "page_ref s ((totalMem s - 4) * 1024) = Inr 0"
    using T(3) len nf free [of "unat (nPages s) - 1"] by (simp add: page_ref_ok)
  have "[nf..<1024] = [nf..<1023] @ [1023]"
    using nf upt_Suc_append [of nf 1023] by simp
  then have d: "freeList s = Some 1023" using fl by (simp add: init_free_def)
  have e: "PDX (toPhy 1023) = 0"
    by (rule unat_inj32) (simp add: unat_PDX unat_toPhy)
  show ?thesis
    using arr c by (simp add: init_checks_def PHY_ADDR_def a b d e not_less)
qed

lemma page_init_ok:
  assumes ready: "boot_ready s nx"
  defines "nf \<equiv> unat (boot_end s nx - KERNBASE) div 4096"
  shows "\<exists>s'. page_init kernEnd s = Inr s' \<and> alloc_inv s' (init_free nf (unat (nPages s)))
     \<and> (\<forall>i<nf. refCount (pages s' ! i) = 1) \<and> pagesAddr s' = nx \<and> nPages s' = nPages s
     \<and> bootNext s' = Some (boot_end s nx) \<and> kmem s' = mem_clear (kmem s) nx (SIZEOF_PageInfo * nPages s)
     \<and> kernelPageDir s' = kernelPageDir s \<and> bootAllocForbidden s' = bootAllocForbidden s"
proof -
  note b = boot_end_bounds [OF ready, folded nf_def]
  note r = boot_readyD [OF ready]
  let ?n = "unat (nPages s)"
  let ?p0 = "replicate ?n \<lparr>nextFree = None, refCount = 0\<rparr>"
  let ?s1 = "s\<lparr>bootNext := Some (boot_end s nx)\<rparr>"
  let ?s2 = "?s1\<lparr>pagesAddr := nx, kmem := mem_clear (kmem s) nx (SIZEOF_PageInfo * nPages s),
               pages := ?p0\<rparr>"
  have nz: "SIZEOF_PageInfo * nPages s \<noteq> 0"
  proof
    have "?n \<le> 131072" using r(8) unfolding r(5) by (simp add: unat_div)
    then have "unat (SIZEOF_PageInfo * nPages s) = 8 * ?n"
      by (simp add: SIZEOF_PageInfo_def unat_word_ariths)
    moreover assume "SIZEOF_PageInfo * nPages s = 0"
    ultimately show False using r(7) by simp
  qed
  have A: "bootAlloc kernEnd (SIZEOF_PageInfo * nPages s) s = Inr (nx, ?s1)"
    using nz r by (simp add: bootAlloc_Some boot_end_def)
  have i1: "unat (EXTPHYSMEM div PGSIZE) = 256" "unat (4194304 div PGSIZE) = 1024"
    by (simp_all add: EXTPHYSMEM_def PGSIZE_def)
  obtain p1 where p1: "foldE mark_used [0..<256] ?s2 = Inr (?s2\<lparr>pages := p1\<rparr>)"
      "length p1 = ?n" "\<forall>i. p1 ! i = (if i < 256 then (?p0 ! i)\<lparr>refCount := 1\<rparr> else ?p0 ! i)"
    using foldE_mark_used [of "[0..<256]" ?s2] r by auto
  let ?s3 = "?s2\<lparr>pages := p1\<rparr>"
  have B: "bootAlloc kernEnd 0 ?s3 = Inr (boot_end s nx, ?s3)"
    by (simp add: bootAlloc_Some r)
  have "KERNBASE \<le> boot_end s nx"
    using b(1) by (simp add: KERNBASE_def EXTPHYSMEM_def word_le_nat_alt)
  then have C: "PHY_ADDR (boot_end s nx) = Inr (boot_end s nx - KERNBASE)"
    by (simp add: PHY_ADDR_def not_less)
  have nf: "unat ((boot_end s nx - KERNBASE) div PGSIZE) = nf"
    by (simp add: unat_div nf_def PGSIZE_def)
  obtain p2 where p2: "foldE mark_used [256..<nf] ?s3 = Inr (?s3\<lparr>pages := p2\<rparr>)"
      "length p2 = ?n" "\<forall>i. p2 ! i = (if 256 \<le> i \<and> i < nf then (p1 ! i)\<lparr>refCount := 1\<rparr> else p1 ! i)"
    using foldE_mark_used [of "[256..<nf]" ?s3] p1(2) b r by auto
  let ?s4 = "?s3\<lparr>pages := p2\<rparr>"
  obtain p3 q3 where p3:
      "foldE mark_free [1024..<?n] ?s4 = Inr (?s4\<lparr>pages := p3, freeList := q3\<rparr>)"
      "length p3 = ?n" "fl_path p3 q3 (rev [1024..<?n])"
      "\<forall>i. i \<notin> set [1024..<?n] \<longrightarrow> p3 ! i = p2 ! i" "\<forall>i\<in>set [1024..<?n]. refCount (p3 ! i) = 0"
    using foldE_mark_free [of "[1024..<?n]" ?s4 "[]"] p2(2) r by auto
  let ?s5 = "?s4\<lparr>pages := p3, freeList := q3\<rparr>"
  have "\<exists>p4 q4. foldE mark_free [nf..<1024] ?s5 = Inr (?s5\<lparr>pages := p4, freeList := q4\<rparr>) \<and>
      length p4 = length (pages ?s5) \<and> fl_path p4 q4 (rev [nf..<1024] @ rev [1024..<?n]) \<and>
      (\<forall>i. i \<notin> set [nf..<1024] \<longrightarrow> p4 ! i = pages ?s5 ! i) \<and>
      (\<forall>i\<in>set [nf..<1024]. refCount (p4 ! i) = 0)"
    by (rule foldE_mark_free) (use p3(2,3) r(7) in \<open>auto simp: disjoint_iff\<close>)
  then obtain p4 q4 where p4:
      "foldE mark_free [nf..<1024] ?s5 = Inr (?s5\<lparr>pages := p4, freeList := q4\<rparr>)"
      "length p4 = ?n" "fl_path p4 q4 (init_free nf ?n)"
      "\<forall>i. i \<notin> {nf..<1024} \<longrightarrow> p4 ! i = p3 ! i" "\<forall>i\<in>{nf..<1024}. refCount (p4 ! i) = 0"
    using p3(2) by (auto simp: init_free_def)
  let ?s6 = "?s5\<lparr>pages := p4, freeList := q4\<rparr>"
  have used: "p4 ! i = \<lparr>nextFree = None, refCount = 1\<rparr>" if "i < nf" for i
  proof -
    have "p4 ! i = p2 ! i" using that p4(4) p3(4) b(3) by auto
    then show ?thesis using that p2(3) p1(3) b(2,3) r(7) by auto
  qed
  have free: "refCount (p4 ! i) = 0" if "nf \<le> i" "i < ?n" for i
    using that p4(4,5) p3(5) by (cases "i < 1024") auto
  have win: "nPages s \<le> 0x20000"
    using r(8) unfolding r(5) by (simp add: word_le_nat_alt unat_div)
  have inv: "alloc_inv ?s6 (init_free nf ?n)"
    using p4(2,3) used free win b(3) distinct_init_free set_init_free [of nf ?n] r(7)
    by (auto simp: alloc_inv_def)
  have "init_checks ?s6 = Inr ?s6"
  proof (rule init_checks_ok)
    show "KERNBASE \<le> pagesAddr ?s6" using r(4) by (simp add: word_le_nat_alt)
  qed (use r(5,7,8) b(2,3,6) p4(2,3) used free in simp_all)
  then have "page_init kernEnd s = Inr ?s6"
    using A p1(1) B C p2(1) p3(1) p4(1) b(2,3) r(7)
    by (simp add: page_init_def Let_def i1 nf max_def)
  then show ?thesis using inv used by (intro exI [of _ ?s6]) simp
qed

section \<open>The allocator as an interface\<close>

text \<open>
  What the page-table and task code may assume of the allocator: \<open>rep s ps\<close> says that \<open>ps\<close> are
  the pages on offer, in order; allocation takes the first one and releasing it restores the pool.
\<close>

locale page_pool =
  fixes alloc :: "'s \<Rightarrow> ('p option \<times> 's) outcome"
    and release :: "'p \<Rightarrow> 's \<Rightarrow> 's outcome"
    and rep :: "'s \<Rightarrow> 'p list \<Rightarrow> bool"
  assumes rep_distinct: "rep s ps \<Longrightarrow> distinct ps"
    and alloc_nil: "rep s [] \<Longrightarrow> alloc s = Inr (None, s)"
    and alloc_cons: "rep s (p # ps) \<Longrightarrow> \<exists>s'. alloc s = Inr (Some p, s') \<and> rep s' ps
           \<and> (\<exists>s''. release p s' = Inr s'' \<and> rep s'' (p # ps))"

text \<open>\<open>n\<close> successive allocations, ended early by a null result.\<close>

primrec alloc_many :: "('s \<Rightarrow> ('p option \<times> 's) outcome) \<Rightarrow> nat \<Rightarrow> 's \<Rightarrow> ('p list \<times> 's) outcome" where
  "alloc_many alloc 0 s = Inr ([], s)"
| "alloc_many alloc (Suc n) s = bindE (alloc s) (\<lambda>(p, s1).
     case p of None \<Rightarrow> Inr ([], s1)
     | Some x \<Rightarrow> bindE (alloc_many alloc n s1) (\<lambda>(xs, s2). Inr (x # xs, s2)))"

context page_pool
begin

lemma alloc_many_take:
  "rep s ps \<Longrightarrow> \<exists>s'. alloc_many alloc n s = Inr (take n ps, s') \<and> rep s' (drop n ps)"
proof (induction n arbitrary: s ps)
  case 0
  then show ?case by simp
next
  case (Suc n)
  show ?case
  proof (cases ps)
    case Nil
    then show ?thesis using Suc.prems alloc_nil by simp
  next
    case (Cons p ps')
    then obtain s1 where s1: "alloc s = Inr (Some p, s1)" "rep s1 ps'"
      using alloc_cons Suc.prems by blast
    obtain s2 where "alloc_many alloc n s1 = Inr (take n ps', s2)" "rep s2 (drop n ps')"
      using Suc.IH [OF s1(2)] by blast
    then show ?thesis using s1(1) Cons by simp
  qed
qed

lemma alloc_many_distinct:
  "rep s ps \<Longrightarrow> alloc_many alloc n s = Inr (xs, s') \<Longrightarrow> distinct xs \<and> set xs \<subseteq> set ps"
  using alloc_many_take [of s ps n] rep_distinct [of s ps] by (auto dest: in_set_takeD)

end

lemma page_alloc_release:
  assumes inv: "alloc_inv s (i # fl)"
  shows "\<exists>s'. page_alloc z s = Inr (Some i, s') \<and> alloc_inv s' fl
     \<and> (\<exists>s''. page_free i s' = Inr s'' \<and> alloc_inv s'' (i # fl))"
proof -
  have i: "i < length (pages s)" "i \<notin> set fl" "refCount (pages s ! i) = 0"
    using inv by (auto simp: alloc_inv_def)
  let ?s1 = "s\<lparr>freeList := nextFree (pages s ! i), pages := (pages s)[i := (pages s ! i)\<lparr>nextFree := None\<rparr>]\<rparr>"
  obtain s' where s': "page_alloc z s = Inr (Some i, s')" "alloc_inv s' fl" "pages s' = pages ?s1"
    using page_alloc_cons [OF inv] by (cases z) auto
  have "\<exists>s''. page_free i s' = Inr s'' \<and> alloc_inv s'' (i # fl)"
    using page_free_ok [OF s'(2), of i] i s'(3) by auto
  then show ?thesis using s' by blast
qed

interpretation pool: page_pool "page_alloc z" page_free alloc_inv
proof unfold_locales
  show "distinct fl" if "alloc_inv s fl" for s fl using that by (rule alloc_inv_distinct)
  show "page_alloc z s = Inr (None, s)" if "alloc_inv s []" for s
    using that by (rule page_alloc_empty)
  show "\<exists>s'. page_alloc z s = Inr (Some i, s') \<and> alloc_inv s' fl
     \<and> (\<exists>s''. page_free i s' = Inr s'' \<and> alloc_inv s'' (i # fl))" if "alloc_inv s (i # fl)" for s i fl
    using that by (rule page_alloc_release)
qed

section \<open>Properties\<close>

text \<open>
  A machine of eight pages: 0 and 1 in use, 2 allocated but not yet referenced, 3 to 7 free. It
  serves as the concrete instance of the properties below.
\<close>

definition small_vm :: vmem where
  "small_vm = \<lparr>totalMem = 32, nPages = 8, nPagesBaseMem = 8, kernelPageDir = 0xE0001000,
     pagesAddr = 0xE0000000,
     pages = [\<lparr>nextFree = None, refCount = 1\<rparr>, \<lparr>nextFree = None, refCount = 1\<rparr>,
              \<lparr>nextFree = None, refCount = 0\<rparr>, \<lparr>nextFree = Some 4, refCount = 0\<rparr>,
              \<lparr>nextFree = Some 5, refCount = 0\<rparr>, \<lparr>nextFree = Some 6, refCount = 0\<rparr>,
              \<lparr>nextFree = Some 7, refCount = 0\<rparr>, \<lparr>nextFree = None, refCount = 0\<rparr>],
     freeList = Some 3, bootNext = None, bootAllocForbidden = True, mmioNext = MMIOBASE,
     kmem = (\<lambda>_. 0), hwlog = []\<rparr>"

lemma small_vm_inv: "alloc_inv small_vm [3, 4, 5, 6, 7]"
  by (simp add: alloc_inv_def small_vm_def All_less_Suc)

text \<open>
  C8: On a machine with between 4 MB and 512 MB of memory whose kernel image ends below 4 MB,
  \<open>page::init\<close> passes all its assertions and builds a well-formed allocator. The free pages are
  exactly those from the end of the boot allocations to the end of memory, those below 4 MB are
  handed out first, and every page below is marked as referenced.
\<close>

theorem page_init_builds_allocator:
  assumes "boot_ready s nx"
  shows "\<exists>s' nf. page_init kernEnd s = Inr s' \<and> 4096 * nf = unat (boot_end s nx - KERNBASE)
     \<and> alloc_inv s' (init_free nf (unat (nPages s))) \<and> set (init_free nf (unat (nPages s))) = {nf..<unat (nPages s)}
     \<and> hd (init_free nf (unat (nPages s))) = 1023
     \<and> (\<forall>i<nf. refCount (pages s' ! i) = 1) \<and> bootNext s' = Some (boot_end s nx)"
proof -
  let ?nf = "unat (boot_end s nx - KERNBASE) div 4096"
  note b = boot_end_bounds [OF assms] and n = boot_readyD(7) [OF assms]
  have "[?nf..<1024] = [?nf..<1023] @ [1023]"
    using b(3) upt_Suc_append [of ?nf 1023] by simp
  then have "hd (init_free ?nf (unat (nPages s))) = 1023" by (simp add: init_free_def)
  moreover have "set (init_free ?nf (unat (nPages s))) = {?nf..<unat (nPages s)}"
    using b(3) n by (intro set_init_free) simp_all
  moreover obtain s' where "page_init kernEnd s = Inr s'"
      "alloc_inv s' (init_free ?nf (unat (nPages s)))" "\<forall>i<?nf. refCount (pages s' ! i) = 1"
      "bootNext s' = Some (boot_end s nx)"
    using page_init_ok [OF assms, of kernEnd] by blast
  ultimately show ?thesis
    using b(4) by (intro exI [of _ s'] exI [of _ ?nf]) simp
qed

theorem page_init_builds_allocator_witness:
  "boot_ready (small_vm\<lparr>totalMem := 8192, nPages := 2048, freeList := None, bootNext := Some 0xE0200000,
     bootAllocForbidden := False\<rparr>) 0xE0200000 \<and>
   (\<exists>s' fl. page_init 0 (small_vm\<lparr>totalMem := 8192, nPages := 2048, freeList := None,
     bootNext := Some 0xE0200000, bootAllocForbidden := False\<rparr>) = Inr s' \<and> alloc_inv s' fl)"
proof -
  let ?s = "small_vm\<lparr>totalMem := 8192, nPages := 2048, freeList := None,
     bootNext := Some 0xE0200000, bootAllocForbidden := False\<rparr>"
  have "boot_ready ?s 0xE0200000"
    by (simp add: boot_ready_def aligned_def KERNBASE_def EXTPHYSMEM_def)
  then show ?thesis using page_init_builds_allocator [OF \<open>boot_ready ?s 0xE0200000\<close>, of 0] by blast
qed

text \<open>
  C9: Allocating from a well-formed pool hands out pages in free-list order, each once: \<open>n\<close> calls
  of \<open>PageInfo::alloc\<close> return the first \<open>n\<close> free pages, all distinct, stop at a null result
  exactly when the pool runs dry, and leave the rest of the pool well formed.
\<close>

theorem page_alloc_many:
  assumes "alloc_inv s fl"
  shows "\<exists>s'. alloc_many (page_alloc z) n s = Inr (take n fl, s') \<and> alloc_inv s' (drop n fl)
     \<and> distinct (take n fl) \<and> freeCount s' = Some (Inr (length fl - n))"
  using pool.alloc_many_take [OF assms] alloc_inv_distinct [OF assms] freeCount_ok by fastforce

theorem page_alloc_many_witness:
  "alloc_inv small_vm [3, 4, 5, 6, 7] \<and>
   (\<exists>s'. alloc_many (page_alloc True) 2 small_vm = Inr ([3, 4], s') \<and> freeCount s' = Some (Inr 3))"
  using page_alloc_many [OF small_vm_inv, of True 2] small_vm_inv by auto

text \<open>
  \<open>decRef\<close> on an allocated page takes one reference off and frees the page exactly when that
  was the last one: it is then the next page to be handed out. The pool stays well formed, no
  other page's record changes, and the final \<open>freeCount\<close> shows the difference.
\<close>

lemma decRef_frees_last:
  assumes "alloc_inv s fl" "i < length (pages s)" "i \<notin> set fl" "refCount (pages s ! i) \<noteq> 0"
  defines "final \<equiv> refCount (pages s ! i) = 1"
  shows "\<exists>s'. decRef i s = Inr s' \<and> alloc_inv s' (if final then i # fl else fl)
     \<and> refCount (pages s' ! i) = refCount (pages s ! i) - 1
     \<and> (\<forall>k. k \<noteq> i \<longrightarrow> pages s' ! k = pages s ! k)
     \<and> freeCount s' = Some (Inr (length fl + (if final then 1 else 0)))"
proof -
  have "(refCount (pages s ! i) - 1 = 0) = final" by (auto simp: final_def)
  then obtain s' where s': "decRef i s = Inr s'" "alloc_inv s' (if final then i # fl else fl)"
      "s' = s\<lparr>pages := (pages s)[i := \<lparr>nextFree = (if final then freeList s else None),
            refCount = refCount (pages s ! i) - 1\<rparr>], freeList := (if final then Some i else freeList s)\<rparr>"
    using decRef_ok [OF assms(1-3) refl] by auto
  then show ?thesis using freeCount_ok [OF s'(2)] assms(2) by auto
qed

lemma decRef_frees_last_witness:
  "refCount (pages small_vm ! 1) \<noteq> 0 \<and> (\<exists>s'. decRef 1 small_vm = Inr s' \<and> alloc_inv s' [1, 3, 4, 5, 6, 7])"
proof -
  have "1 < length (pages small_vm)" "refCount (pages small_vm ! 1) = 1"
    by (simp_all add: small_vm_def)
  then show ?thesis using decRef_frees_last [OF small_vm_inv, of 1] by auto
qed

end
