(* ===== verification/PageDir.thy ===== *)
theory PageDir
  imports PageAlloc Results
begin

text \<open>
  Two-level page tables: the \<open>vmem::pgdir\<close> namespace of \<open>kernel/vmem.cc\<close>. Directories and
  tables live in kernel memory; a \<open>pde_t*\<close> or \<open>pte_t*\<close> is its address. The proofs read that
  memory through \<open>view\<close>, which presents it as physical pages of 1024 entries; on views the
  operations become updates of single entries.
\<close>

section \<open>Operations\<close>

definition invalidateTLB :: "u32 \<Rightarrow> vmem \<Rightarrow> vmem" where
  "invalidateTLB va s = s\<lparr>hwlog := Invlpg va # hwlog s\<rparr>"

definition findPte :: "u32 \<Rightarrow> u32 \<Rightarrow> bool \<Rightarrow> vmem \<Rightarrow> (u32 option \<times> vmem) outcome" where
  "findPte pageDir va create s =
     (let pdx = PDX va; ptx = PTX va; pde = pageDir + 4 * pdx in
      if present (load32 (kmem s) pde) then
        bindE (KERN_ADDR s (PTE_ADDR (load32 (kmem s) pde))) (\<lambda>pageTable.
          Inr (Some (pageTable + 4 * ptx), s))
      else if \<not> create then Inr (None, s)
      else bindE (page_alloc True s) (\<lambda>(pp, s1).
        case pp of None \<Rightarrow> Inr (None, s1)
        | Some i \<Rightarrow>
          bindE (incRef i s1) (\<lambda>s2.
          bindE (toKernV s2 i) (\<lambda>kv.
          let s3 = s2\<lparr>kmem := mem_clear (kmem s2) kv PGSIZE\<rparr>;
              s4 = s3\<lparr>kmem := store32 (kmem s3) pde (toPhy i OR PTE_P OR PTE_U OR PTE_W)\<rparr>;
              s5 = invalidateTLB va s4 in
          bindE (KERN_ADDR s5 (PTE_ADDR (load32 (kmem s5) pde))) (\<lambda>pageTable.
            Inr (Some (pageTable + 4 * ptx), s5))))))"

definition findInfo :: "u32 \<Rightarrow> u32 \<Rightarrow> vmem \<Rightarrow> ((nat \<times> u32) option \<times> vmem) outcome" where
  "findInfo pageDir va s = bindE (findPte pageDir va False s) (\<lambda>(pte, s1).
     case pte of None \<Rightarrow> Inr (None, s1)
     | Some p \<Rightarrow> if \<not> present (load32 (kmem s1) p) then Inr (None, s1)
                 else bindE (fromPhy s1 (PTE_ADDR (load32 (kmem s1) p))) (\<lambda>pp.
                   Inr (Some (pp, p), s1)))"

definition remove :: "u32 \<Rightarrow> u32 \<Rightarrow> vmem \<Rightarrow> vmem outcome" where
  "remove pageDir va s = bindE (findInfo pageDir va s) (\<lambda>(r, s1).
     case r of None \<Rightarrow> Inr s1
     | Some (pp, pte) \<Rightarrow> if present (load32 (kmem s1) pte) then
         bindE (decRef pp s1) (\<lambda>s2.
           Inr (invalidateTLB va (s2\<lparr>kmem := store32 (kmem s2) pte 0\<rparr>)))
       else Inr s1)"

definition insert_page :: "u32 \<Rightarrow> nat \<Rightarrow> u32 \<Rightarrow> u32 \<Rightarrow> vmem \<Rightarrow> (Result \<times> vmem) outcome" where
  "insert_page pageDir pp va perm s = bindE (findPte pageDir va True s) (\<lambda>(pte, s1).
     case pte of None \<Rightarrow> Inr (fuck, s1)
     | Some p \<Rightarrow>
       bindE (incRef pp s1) (\<lambda>s2.
       bindE (if present (load32 (kmem s2) p) then remove pageDir va s2 else Inr s2) (\<lambda>s3.
       Inr (ok, invalidateTLB va
              (s3\<lparr>kmem := store32 (kmem s3) p (toPhy pp OR perm OR PTE_P)\<rparr>)))))"

text \<open>The body of the \<open>while\<close> loop of \<open>staticMap\<close>; a null entry pointer would be dereferenced.\<close>

definition staticMap_step ::
  "u32 \<Rightarrow> u32 \<Rightarrow> u32 \<Rightarrow> u32 \<Rightarrow> u32 \<Rightarrow> vmem \<Rightarrow> vmem outcome" where
  "staticMap_step pageDir va pa perm off s =
     bindE (findPte pageDir (va + off) True s) (\<lambda>(pte, s1).
     case pte of None \<Rightarrow> Inl (Fault ''null pte'')
     | Some p \<Rightarrow> Inr (invalidateTLB (va + off)
         (s1\<lparr>kmem := store32 (kmem s1) p ((pa + off) OR PTE_P OR perm)\<rparr>)))"

partial_function (option) staticMap_loop ::
  "u32 \<Rightarrow> u32 \<Rightarrow> u32 \<Rightarrow> u32 \<Rightarrow> u32 \<Rightarrow> u32 \<Rightarrow> vmem \<Rightarrow> vmem outcome option" where
  "staticMap_loop pageDir va sz pa perm off s =
     (if off < sz then
        (case staticMap_step pageDir va pa perm off s of
           Inl e \<Rightarrow> Some (Inl e)
         | Inr s1 \<Rightarrow> staticMap_loop pageDir va sz pa perm (off + PGSIZE) s1)
      else Some (Inr s))"

definition staticMap ::
  "u32 \<Rightarrow> u32 \<Rightarrow> u32 \<Rightarrow> u32 \<Rightarrow> u32 \<Rightarrow> vmem \<Rightarrow> vmem outcome option" where
  "staticMap pageDir va sz pa perm s = staticMap_loop pageDir va sz pa perm 0 s"

definition mmioMap :: "u32 \<Rightarrow> u32 \<Rightarrow> vmem \<Rightarrow> (u32 \<times> vmem) outcome option" where
  "mmioMap pa sz s =
     (let sz = ROUNDUP sz PGSIZE; next = mmioNext s in
      if MMIOLIM \<le> next + sz \<or> next + sz < MMIOBASE
      then Some (Inl (Panic ''Cannot map vm for mmio''))
      else case staticMap (kernelPageDir s) next sz pa (PTE_W OR PTE_PCD OR PTE_PWT) s of
        None \<Rightarrow> None
      | Some (Inl e) \<Rightarrow> Some (Inl e)
      | Some (Inr s1) \<Rightarrow> Some (Inr (next, s1\<lparr>mmioNext := next + sz\<rparr>)))"

partial_function (option) userCheck_loop ::
  "u32 \<Rightarrow> u32 \<Rightarrow> u32 \<Rightarrow> u32 \<Rightarrow> vmem \<Rightarrow> bool outcome option" where
  "userCheck_loop pageDir va_end perm va_it s =
     (if va_it < va_end then
        if ULIM \<le> va_it then Some (Inr False)
        else (case findPte pageDir va_it False s of
            Inl e \<Rightarrow> Some (Inl e)
          | Inr r \<Rightarrow> (case fst r of None \<Rightarrow> Some (Inr False)
             | Some pte \<Rightarrow> if load32 (kmem s) pte AND perm = 0 then Some (Inr False)
                 else userCheck_loop pageDir va_end perm (va_it + PGSIZE) s))
      else Some (Inr True))"

definition userCheck :: "u32 \<Rightarrow> u32 \<Rightarrow> u32 \<Rightarrow> u32 \<Rightarrow> vmem \<Rightarrow> bool outcome option" where
  "userCheck pageDir va sz perm s = userCheck_loop pageDir (va + sz) (perm OR PTE_P) va s"

definition pgdir_alloc :: "u32 \<Rightarrow> vmem \<Rightarrow> vmem outcome" where
  "pgdir_alloc kernEnd s = bindE (bootAlloc kernEnd PGSIZE s) (\<lambda>(pd, s1).
     let s2 = s1\<lparr>kernelPageDir := pd, kmem := mem_clear (kmem s1) pd PGSIZE\<rparr> in
     bindE (PHY_ADDR pd) (\<lambda>pa.
       Inr (s2\<lparr>kmem := store32 (kmem s2) (pd + 4 * PDX UVPT) (pa OR PTE_U OR PTE_P)\<rparr>)))"

section \<open>Memory as pages of entries\<close>

definition slot :: "nat \<Rightarrow> nat \<Rightarrow> u32" where
  "slot k j = toPhy k + KERNBASE + 4 * of_nat j"

definition view :: "mem \<Rightarrow> nat \<Rightarrow> nat \<Rightarrow> u32" where
  "view m k j = (if k < 131072 \<and> j < 1024 then load32 m (slot k j) else 0)"

definition put :: "(nat \<Rightarrow> nat \<Rightarrow> u32) \<Rightarrow> nat \<Rightarrow> nat \<Rightarrow> u32 \<Rightarrow> nat \<Rightarrow> nat \<Rightarrow> u32" where
  "put pv k j v = pv(k := (pv k)(j := v))"

lemma put_apply: "put pv k j v k' j' = (if k = k' \<and> j = j' then v else pv k' j')"
  by (simp add: put_def)

lemma unat_slot:
  "k < 131072 \<Longrightarrow> j < 1024 \<Longrightarrow> unat (slot k j) = 3758096384 + 4096 * k + 4 * j"
  by (simp add: slot_def KERNBASE_def unat_word_ariths unat_toPhy)

lemma slot_inj:
  "k < 131072 \<Longrightarrow> j < 1024 \<Longrightarrow> k' < 131072 \<Longrightarrow> j' < 1024 \<Longrightarrow>
   slot k j = slot k' j' \<longleftrightarrow> k = k' \<and> j = j'"
proof -
  assume b: "k < 131072" "j < 1024" "k' < 131072" "j' < 1024"
  then have "slot k j = slot k' j' \<longleftrightarrow> 4096 * k + 4 * j = 4096 * k' + 4 * j'"
    by (simp add: word_unat_eq_iff unat_slot)
  also have "\<dots> \<longleftrightarrow> k = k' \<and> j = j'"
  proof
    assume eq: "4096 * k + 4 * j = 4096 * k' + 4 * j'"
    have "(4096 * k + 4 * j) div 4096 = k" "(4096 * k' + 4 * j') div 4096 = k'"
      using b by simp_all
    then have "k = k'" using eq by simp
    then show "k = k' \<and> j = j'" using eq by simp
  qed simp
  finally show ?thesis .
qed

lemma aligned_slot: "k < 131072 \<Longrightarrow> j < 1024 \<Longrightarrow> aligned 4 (slot k j)"
  by (simp add: aligned_def unat_slot)

lemma view_store:
  assumes "k < 131072" "j < 1024"
  shows "view (store32 m (slot k j) v) = put (view m) k j v"
proof (intro ext)
  fix k' j'
  show "view (store32 m (slot k j) v) k' j' = put (view m) k j v k' j'"
  proof (cases "k' < 131072 \<and> j' < 1024 \<and> \<not> (k = k' \<and> j = j')")
    case True
    then have "load32 (store32 m (slot k j) v) (slot k' j') = load32 m (slot k' j')"
      using assms by (intro load32_store32_other) (auto simp: aligned_slot slot_inj)
    then show ?thesis using True by (auto simp: view_def put_apply)
  next
    case False
    then show ?thesis using assms by (auto simp: view_def put_apply)
  qed
qed

lemma clear_byte:
  assumes "k < 131072" "k' < 131072" "j < 1024" "i < 4"
  shows "mem_clear m (toPhy k + KERNBASE) PGSIZE (slot k' j + of_nat i)
           = (if k = k' then 0 else m (slot k' j + of_nat i))"
proof -
  have a: "unat (slot k' j + of_nat i) = 3758096384 + 4096 * k' + 4 * j + i"
    using assms by (subst unat_add_of_nat) (auto simp: unat_slot)
  have b: "unat (toPhy k + KERNBASE) = 3758096384 + 4096 * k"
    using unat_slot [of k 0] assms by (simp add: slot_def)
  have "unat (slot k' j + of_nat i - (toPhy k + KERNBASE)) < 4096 \<longleftrightarrow> k = k'"
    unfolding unat_sub_if' a b using assms by (auto split: if_splits)
  then show ?thesis by (simp add: mem_clear_eq PGSIZE_def)
qed

lemma view_clear:
  assumes "k < 131072"
  shows "view (mem_clear m (toPhy k + KERNBASE) PGSIZE) = (view m)(k := \<lambda>_. 0)"
proof (intro ext)
  fix k' j
  show "view (mem_clear m (toPhy k + KERNBASE) PGSIZE) k' j = ((view m)(k := \<lambda>_. 0)) k' j"
  proof (cases "k' < 131072 \<and> j < 1024")
    case True
    then have *: "mem_clear m (toPhy k + KERNBASE) PGSIZE (slot k' j + of_nat i)
        = (if k = k' then 0 else m (slot k' j + of_nat i))" if "i < 4" for i
      using clear_byte that assms by blast
    show ?thesis
      using *[of 0] *[of 1] *[of 2] *[of 3] True by (auto simp: view_def load32_def)
  next
    case False
    then show ?thesis by (auto simp: view_def)
  qed
qed

text \<open>The number of the page that an entry points to.\<close>

definition pn :: "u32 \<Rightarrow> nat" where
  "pn e = unat (PGNUM e)"

lemma pn_lt: "pn e < 1048576"
  using unat_lt_2p32 [of e] by (simp add: pn_def unat_simps)

lemma toPhy_pn: "toPhy (pn e) = PTE_ADDR e"
  by (rule unat_inj32) (use pn_lt [of e] in \<open>simp add: unat_toPhy, simp add: pn_def unat_simps\<close>)

lemma pn_PTE_ADDR [simp]: "pn (PTE_ADDR e) = pn e"
  by (simp add: pn_def unat_simps)

lemma entry_bits:
  assumes "i < 1048576" "unat f < 4096"
  shows "PTE_ADDR (toPhy i OR f) = toPhy i" "pn (toPhy i OR f) = i"
    "present (toPhy i OR f) \<longleftrightarrow> present f"
proof -
  have hi: "\<not> bit f n" if "12 \<le> n" for n
  proof -
    have "unat (f AND mask 12) = unat f" using assms(2) by (simp add: unat_and_mask)
    then have "f AND mask 12 = f" by (rule unat_inj32)
    then show ?thesis using that by (metis bit_and_iff bit_mask_iff not_le)
  qed
  have lo: "\<not> bit (toPhy i) n" if "n < 12" for n
    using that by (simp add: toPhy_def bit_simps)
  show A: "PTE_ADDR (toPhy i OR f) = toPhy i"
  proof (rule bit_word_eqI)
    fix n assume "n < LENGTH(32)"
    then show "bit (PTE_ADDR (toPhy i OR f)) n = bit (toPhy i) n"
      using hi lo by (cases "n < 12") (auto simp: PTE_ADDR_def masks32 bit_simps)
  qed
  have "pn (toPhy i OR f) = pn (toPhy i)"
    using A pn_PTE_ADDR [of "toPhy i OR f"] by simp
  then show "pn (toPhy i OR f) = i" using assms(1) by (simp add: pn_def PGNUM_toPhy)
  have "toPhy i AND PTE_P = 0"
    by (rule bit_word_eqI) (use lo [of 0] in \<open>auto simp: PTE_P_def bit_simps intro: gr0I\<close>)
  then show "present (toPhy i OR f) \<longleftrightarrow> present f"
    by (simp add: bit.conj_disj_distrib2)
qed

section \<open>Well-formed directories\<close>

definition uvpt_ix :: nat where "uvpt_ix = unat (PDX UVPT)"

text \<open>
  \<open>dir_inv pv d n fl\<close>: page \<open>d\<close> is a directory over \<open>n\<close> physical pages. Every table it refers to
  exists and is not free; apart from the recursive slot at \<open>UVPT\<close>, tables are distinct from each
  other and from the directory.
\<close>

definition dir_inv :: "(nat \<Rightarrow> nat \<Rightarrow> u32) \<Rightarrow> nat \<Rightarrow> nat \<Rightarrow> nat list \<Rightarrow> bool" where
  "dir_inv pv d n fl \<longleftrightarrow> d < n \<and> d \<notin> set fl
     \<and> (\<forall>j<1024. present (pv d j) \<longrightarrow> pn (pv d j) < n \<and> pn (pv d j) \<notin> set fl)
     \<and> (\<forall>j<1024. j \<noteq> uvpt_ix \<and> present (pv d j) \<longrightarrow> pn (pv d j) \<noteq> d
          \<and> (\<forall>k<1024. k \<noteq> uvpt_ix \<and> k \<noteq> j \<and> present (pv d k) \<longrightarrow> pn (pv d k) \<noteq> pn (pv d j)))"

text \<open>The entry that maps the page \<open>(j, l)\<close> of the address space, \<open>0\<close> where there is no table.\<close>

definition lookup :: "(nat \<Rightarrow> nat \<Rightarrow> u32) \<Rightarrow> nat \<Rightarrow> nat \<Rightarrow> nat \<Rightarrow> u32" where
  "lookup pv d j l = (if present (pv d j) then pv (pn (pv d j)) l else 0)"

definition entry :: "vmem \<Rightarrow> nat \<Rightarrow> u32 \<Rightarrow> u32" where
  "entry s d va = lookup (view (kmem s)) d (unat (PDX va)) (unat (PTX va))"

lemma not_present_0 [simp]: "\<not> present 0"
  by simp

lemma dir_inv_table:
  "dir_inv pv d n fl \<Longrightarrow> j < 1024 \<Longrightarrow> present (pv d j) \<Longrightarrow> pn (pv d j) < n \<and> pn (pv d j) \<notin> set fl"
  by (simp add: dir_inv_def)

lemma dir_inv_neq:
  "dir_inv pv d n fl \<Longrightarrow> j < 1024 \<Longrightarrow> j \<noteq> uvpt_ix \<Longrightarrow> present (pv d j) \<Longrightarrow> pn (pv d j) \<noteq> d"
  by (simp add: dir_inv_def)

lemma dir_inv_inj:
  "dir_inv pv d n fl \<Longrightarrow> j < 1024 \<Longrightarrow> k < 1024 \<Longrightarrow> j \<noteq> uvpt_ix \<Longrightarrow> k \<noteq> uvpt_ix \<Longrightarrow> present (pv d j)
   \<Longrightarrow> present (pv d k) \<Longrightarrow> pn (pv d j) = pn (pv d k) \<longleftrightarrow> j = k"
  by (auto simp: dir_inv_def)

lemma dir_inv_subset: "dir_inv pv d n fl \<Longrightarrow> set fl' \<subseteq> set fl \<Longrightarrow> dir_inv pv d n fl'"
  by (auto simp: dir_inv_def)

text \<open>Writing an entry of a page table: one mapping changes.\<close>

lemma lookup_put:
  assumes "dir_inv pv d n fl" "j < 1024" "j \<noteq> uvpt_ix" "present (pv d j)"
    and "j' < 1024" "j' \<noteq> uvpt_ix"
  shows "lookup (put pv (pn (pv d j)) l v) d j' l'
       = (if j = j' \<and> l = l' then v else lookup pv d j' l')"
  using dir_inv_neq [OF assms(1-4)] dir_inv_inj [OF assms(1,2,5,3,6,4)] assms(4)
  by (auto simp: lookup_def put_apply)

lemma dir_inv_put:
  assumes "dir_inv pv d n fl" "j < 1024" "j \<noteq> uvpt_ix" "present (pv d j)"
  shows "dir_inv (put pv (pn (pv d j)) l v) d n fl"
  using assms dir_inv_neq [OF assms] by (simp add: dir_inv_def put_apply)

text \<open>Installing a cleared page \<open>i\<close> as a new table: no mapping changes.\<close>

definition install :: "(nat \<Rightarrow> nat \<Rightarrow> u32) \<Rightarrow> nat \<Rightarrow> nat \<Rightarrow> nat \<Rightarrow> u32 \<Rightarrow> nat \<Rightarrow> nat \<Rightarrow> u32" where
  "install pv d j i e = put (pv(i := \<lambda>_. 0)) d j e"

lemma install_apply:
  "install pv d j i e k l = (if k = d \<and> l = j then e else if k = i then 0 else pv k l)"
  by (auto simp: install_def put_apply)

lemma dir_inv_install:
  assumes "dir_inv pv d n (i # fl)" "j < 1024" "\<not> present (pv d j)" "pn e = i" "present e"
    and "i < n" "i \<notin> set fl"
  shows "dir_inv (install pv d j i e) d n fl"
  using assms by (auto simp: dir_inv_def install_apply)

lemma lookup_install:
  assumes "dir_inv pv d n (i # fl)" "j < 1024" "\<not> present (pv d j)" "pn e = i" "present e"
    and "j' < 1024" "j' \<noteq> uvpt_ix"
  shows "lookup (install pv d j i e) d j' l = lookup pv d j' l"
proof -
  have "i \<noteq> d" using assms(1) by (auto simp: dir_inv_def)
  moreover have "present (pv d j') \<Longrightarrow> pn (pv d j') \<noteq> i \<and> pn (pv d j') \<noteq> d"
    using dir_inv_table [OF assms(1,6)] dir_inv_neq [OF assms(1,6,7)] by auto
  ultimately show ?thesis
    using assms(3-5) by (auto simp: lookup_def install_apply)
qed

section \<open>findPte\<close>

lemma slot_PDX: "toPhy d + KERNBASE + 4 * PDX va = slot d (unat (PDX va))"
  by (simp add: slot_def)

lemma slot_PTX: "PTE_ADDR e + KERNBASE + 4 * PTX va = slot (pn e) (unat (PTX va))"
  by (simp add: slot_def toPhy_pn)

lemma load_slot: "k < 131072 \<Longrightarrow> j < 1024 \<Longrightarrow> load32 m (slot k j) = view m k j"
  by (simp add: view_def)

lemma KERN_ADDR_ok:
  "pn e < unat (nPages s) \<Longrightarrow> KERN_ADDR s (PTE_ADDR e) = Inr (PTE_ADDR e + KERNBASE)"
  using pn_PTE_ADDR [of e] by (auto simp: KERN_ADDR_def word_le_nat_alt pn_def)

lemma fromPhy_pn: "pn e < unat (nPages s) \<Longrightarrow> fromPhy s (PTE_ADDR e) = Inr (pn e)"
  using pn_PTE_ADDR [of e] by (auto simp: fromPhy_def word_le_nat_alt pn_def)

abbreviation dir_ok :: "vmem \<Rightarrow> nat \<Rightarrow> nat list \<Rightarrow> bool" where
  "dir_ok s d fl \<equiv> dir_inv (view (kmem s)) d (unat (nPages s)) fl"

lemma findPte_hit:
  assumes inv: "alloc_inv s fl" "dir_ok s d fl"
    and p: "present (view (kmem s) d (unat (PDX va)))"
  shows "findPte (toPhy d + KERNBASE) va c s
       = Inr (Some (slot (pn (view (kmem s) d (unat (PDX va)))) (unat (PTX va))), s)"
proof -
  have n: "unat (nPages s) \<le> 131072" "d < unat (nPages s)"
    using nPages_unat inv by (auto simp: dir_inv_def)
  have "pn (view (kmem s) d (unat (PDX va))) < unat (nPages s)"
    using dir_inv_table [OF inv(2) PDX_lt p] by simp
  then show ?thesis
    using n p by (simp add: findPte_def Let_def slot_PDX load_slot PDX_lt KERN_ADDR_ok slot_PTX)
qed

lemma findPte_none:
  assumes inv: "alloc_inv s fl" "dir_ok s d fl"
    and p: "\<not> present (view (kmem s) d (unat (PDX va)))"
  shows "findPte (toPhy d + KERNBASE) va False s = Inr (None, s)"
    and "fl = [] \<Longrightarrow> findPte (toPhy d + KERNBASE) va c s = Inr (None, s)"
proof -
  have n: "unat (nPages s) \<le> 131072" "d < unat (nPages s)"
    using nPages_unat inv by (auto simp: dir_inv_def)
  show "findPte (toPhy d + KERNBASE) va False s = Inr (None, s)"
    using n p by (simp add: findPte_def Let_def slot_PDX load_slot PDX_lt)
  show "findPte (toPhy d + KERNBASE) va c s = Inr (None, s)" if "fl = []"
    using n p that inv page_alloc_empty [of s True]
    by (simp add: findPte_def Let_def slot_PDX load_slot PDX_lt)
qed

definition TABLE_FLAGS :: u32 where "TABLE_FLAGS = PTE_P OR PTE_U OR PTE_W"

lemma table_entry:
  assumes "i < 1048576"
  shows "toPhy i OR PTE_P OR PTE_U OR PTE_W = toPhy i OR TABLE_FLAGS"
    "pn (toPhy i OR TABLE_FLAGS) = i" "present (toPhy i OR TABLE_FLAGS)"
  using entry_bits [OF assms, of TABLE_FLAGS]
  by (simp_all add: TABLE_FLAGS_def PTE_P_def PTE_U_def PTE_W_def or.assoc)

lemma findPte_new:
  assumes inv: "alloc_inv s (i # fl)" "dir_ok s d (i # fl)"
    and np: "\<not> present (view (kmem s) d (unat (PDX va)))"
  shows "\<exists>s'. findPte (toPhy d + KERNBASE) va True s = Inr (Some (slot i (unat (PTX va))), s')
     \<and> alloc_inv s' fl \<and> nPages s' = nPages s
     \<and> view (kmem s') = install (view (kmem s)) d (unat (PDX va)) i (toPhy i OR TABLE_FLAGS)
     \<and> pages s' = (pages s)[i := \<lparr>nextFree = None, refCount = 1\<rparr>]
     \<and> hwlog s' = Invlpg va # hwlog s"
proof -
  have n: "unat (nPages s) \<le> 131072" "d < unat (nPages s)" "i < unat (nPages s)"
    using nPages_unat [OF inv(1)] inv(2) alloc_inv_lt [OF inv(1), of i] by (auto simp: dir_inv_def)
  have i: "i < 1048576" "i < 131072" "d < 131072" using n by simp_all
  have fresh: "i < length (pages s)" "i \<notin> set fl" "refCount (pages s ! i) = 0"
    using n(3) alloc_inv_length [OF inv(1)] alloc_inv_distinct [OF inv(1)] alloc_inv_ref0 [OF inv(1)]
    by simp_all
  let ?kv = "toPhy i + KERNBASE"
  let ?s1 = "s\<lparr>freeList := nextFree (pages s ! i), pages := (pages s)[i := (pages s ! i)\<lparr>nextFree := None\<rparr>],
               kmem := mem_clear (kmem s) ?kv PGSIZE\<rparr>"
  have A: "page_alloc True s = Inr (Some i, ?s1)" and a: "alloc_inv ?s1 fl"
    using page_alloc_cons(1) [OF inv(1), of True] page_alloc_cons(2) [OF inv(1)] by simp_all
  let ?s2 = "?s1\<lparr>pages := (pages s)[i := \<lparr>nextFree = None, refCount = 1\<rparr>]\<rparr>"
  have pg: "(pages s ! i)\<lparr>nextFree := None, refCount := 1\<rparr> = \<lparr>nextFree = None, refCount = 1\<rparr>"
    by (cases "pages s ! i") simp
  have B: "incRef i ?s1 = Inr ?s2" and b: "alloc_inv ?s2 fl"
    using incRef_ok [OF a, of i] fresh pg by simp_all
  have C: "toKernV ?s2 i = Inr ?kv" using toKernV_ok [OF b, of i] n by simp
  let ?pde = "slot d (unat (PDX va))" and ?e = "toPhy i OR TABLE_FLAGS"
  let ?m = "store32 (mem_clear (kmem ?s2) ?kv PGSIZE) ?pde ?e"
  let ?s5 = "?s2\<lparr>kmem := ?m, hwlog := Invlpg va # hwlog s\<rparr>"
  have v: "view ?m = install (view (kmem s)) d (unat (PDX va)) i ?e"
    using i by (simp add: view_store view_clear PDX_lt install_def)
  have l: "load32 ?m ?pde = ?e" by simp
  have D: "KERN_ADDR ?s5 (PTE_ADDR ?e) = Inr (PTE_ADDR ?e + KERNBASE)"
    using n table_entry(2) [OF i(1)] by (intro KERN_ADDR_ok) simp
  have E: "PTE_ADDR ?e + KERNBASE + 4 * PTX va = slot i (unat (PTX va))"
    using slot_PTX [of ?e va] table_entry(2) [OF i(1)] by simp
  have "findPte (toPhy d + KERNBASE) va True s = Inr (Some (slot i (unat (PTX va))), ?s5)"
    using np i A B C D E table_entry(1) [OF i(1)]
    by (simp add: findPte_def Let_def slot_PDX load_slot [of d _ "kmem s"] PDX_lt
        invalidateTLB_def)
  moreover have "alloc_inv ?s5 fl" using b by (simp add: alloc_inv_def)
  ultimately show ?thesis using v by (intro exI [of _ ?s5]) simp
qed

section \<open>remove\<close>

text \<open>A page that may be unmapped: allocated, and neither the directory nor one of its tables.\<close>

definition data_page :: "(nat \<Rightarrow> nat \<Rightarrow> u32) \<Rightarrow> nat \<Rightarrow> nat \<Rightarrow> nat list \<Rightarrow> nat \<Rightarrow> bool" where
  "data_page pv d n fl k \<longleftrightarrow> k < n \<and> k \<notin> set fl \<and> k \<noteq> d
     \<and> (\<forall>j<1024. present (pv d j) \<longrightarrow> pn (pv d j) \<noteq> k)"

lemma dir_inv_free_data:
  "dir_inv pv d n fl \<Longrightarrow> data_page pv d n fl k \<Longrightarrow> dir_inv pv d n (k # fl)"
  by (auto simp: dir_inv_def data_page_def)

lemma entry_present:
  "present (entry s d va) \<Longrightarrow> present (view (kmem s) d (unat (PDX va)))
     \<and> entry s d va = view (kmem s) (pn (view (kmem s) d (unat (PDX va)))) (unat (PTX va))"
  by (auto simp: entry_def lookup_def split: if_splits)

lemma findInfo_present:
  assumes inv: "alloc_inv s fl" "dir_ok s d fl" and p: "present (entry s d va)"
    and k: "pn (entry s d va) < unat (nPages s)"
  shows "findInfo (toPhy d + KERNBASE) va s = Inr (Some (pn (entry s d va),
           slot (pn (view (kmem s) d (unat (PDX va)))) (unat (PTX va))), s)"
proof -
  note e = entry_present [OF p]
  have t: "pn (view (kmem s) d (unat (PDX va))) < 131072"
    using dir_inv_table [OF inv(2) PDX_lt conjunct1 [OF e]] nPages_unat [OF inv(1)] by simp
  show ?thesis
    using findPte_hit [OF inv conjunct1 [OF e], of False] e p k t
    by (simp add: findInfo_def load_slot PTX_lt fromPhy_pn)
qed

lemma findInfo_absent:
  assumes inv: "alloc_inv s fl" "dir_ok s d fl" and p: "\<not> present (entry s d va)"
  shows "findInfo (toPhy d + KERNBASE) va s = Inr (None, s)"
proof (cases "present (view (kmem s) d (unat (PDX va)))")
  case True
  have t: "pn (view (kmem s) d (unat (PDX va))) < 131072"
    using dir_inv_table [OF inv(2) PDX_lt True] nPages_unat [OF inv(1)] by simp
  then show ?thesis
    using findPte_hit [OF inv True, of False] p True
    by (simp add: findInfo_def load_slot PTX_lt entry_def lookup_def)
next
  case False
  then show ?thesis using findPte_none(1) [OF inv False] by (simp add: findInfo_def)
qed

lemma remove_absent:
  assumes "alloc_inv s fl" "dir_ok s d fl" "\<not> present (entry s d va)"
  shows "remove (toPhy d + KERNBASE) va s = Inr s"
  using findInfo_absent [OF assms] by (simp add: remove_def)

lemma remove_present:
  assumes inv: "alloc_inv s fl" "dir_ok s d fl" and p: "present (entry s d va)"
    and va: "unat (PDX va) \<noteq> uvpt_ix"
    and k: "k = pn (entry s d va)" "data_page (view (kmem s)) d (unat (nPages s)) fl k"
    and c: "c = refCount (pages s ! k) - 1"
  defines "fl' \<equiv> if c = 0 then k # fl else fl"
  shows "\<exists>s'. remove (toPhy d + KERNBASE) va s = Inr s' \<and> alloc_inv s' fl' \<and> dir_ok s' d fl'
     \<and> nPages s' = nPages s \<and> hwlog s' = Invlpg va # hwlog s
     \<and> view (kmem s') = put (view (kmem s)) (pn (view (kmem s) d (unat (PDX va)))) (unat (PTX va)) 0
     \<and> length (pages s') = length (pages s)
     \<and> (\<forall>i. i \<noteq> k \<longrightarrow> pages s' ! i = pages s ! i) \<and> refCount (pages s' ! k) = c"
proof -
  note e = conjunct1 [OF entry_present [OF p]]
  let ?t = "pn (view (kmem s) d (unat (PDX va)))" and ?l = "unat (PTX va)"
  have t: "?t < 131072"
    using dir_inv_table [OF inv(2) PDX_lt e] nPages_unat [OF inv(1)] by simp
  have kn: "k < unat (nPages s)" "k < length (pages s)" "k \<notin> set fl"
    using k(2) alloc_inv_length [OF inv(1)] by (simp_all add: data_page_def)
  have F: "findInfo (toPhy d + KERNBASE) va s = Inr (Some (k, slot ?t ?l), s)"
    using findInfo_present [OF inv p] kn k(1) by simp
  have L: "present (load32 (kmem s) (slot ?t ?l))"
    using entry_present [OF p] p t by (simp add: load_slot PTX_lt)
  obtain s1 where s1: "decRef k s = Inr s1" "alloc_inv s1 fl'"
      "s1 = s\<lparr>pages := (pages s)[k := \<lparr>nextFree = (if c = 0 then freeList s else None),
         refCount = c\<rparr>], freeList := (if c = 0 then Some k else freeList s)\<rparr>"
    using decRef_ok [OF inv(1) kn(2,3) c] by (auto simp: fl'_def)
  let ?s' = "s1\<lparr>kmem := store32 (kmem s1) (slot ?t ?l) 0, hwlog := Invlpg va # hwlog s1\<rparr>"
  have v: "view (kmem ?s') = put (view (kmem s)) ?t ?l 0"
    using t s1(3) by (simp add: view_store PTX_lt)
  have "dir_inv (view (kmem s)) d (unat (nPages s)) fl'"
    using inv(2) k(2) dir_inv_free_data by (simp add: fl'_def)
  then have "dir_ok ?s' d fl'"
    using dir_inv_put [where pv = "view (kmem s)" and d = d and j = "unat (PDX va)"]
      PDX_lt va e s1(3) v by simp
  moreover have "remove (toPhy d + KERNBASE) va s = Inr ?s'"
    using F L s1(1) by (simp add: remove_def invalidateTLB_def)
  ultimately show ?thesis
    using s1(2,3) v kn by (intro exI [of _ ?s']) simp
qed

section \<open>insert\<close>

text \<open>
  \<open>keeps s s' d\<close>: the directory \<open>d\<close> maps the same pages in both states, outside the window at
  \<open>UVPT\<close> through which the tables themselves are visible.
\<close>

definition keeps :: "vmem \<Rightarrow> vmem \<Rightarrow> nat \<Rightarrow> bool" where
  "keeps s s' d \<longleftrightarrow> nPages s' = nPages s \<and>
     (\<forall>j<1024. j \<noteq> uvpt_ix \<longrightarrow> (\<forall>l. lookup (view (kmem s')) d j l = lookup (view (kmem s)) d j l))"

lemma keeps_entry: "keeps s s' d \<Longrightarrow> unat (PDX va) \<noteq> uvpt_ix \<Longrightarrow> entry s' d va = entry s d va"
  by (simp add: keeps_def entry_def PDX_lt)

text \<open>
  What \<open>findPte(.., create = true)\<close> delivers when it does not run out of memory: the address of
  the entry for \<open>va\<close> in a table that now exists, at the price of at most the first free page.
\<close>

lemma findPte_create:
  assumes inv: "alloc_inv s fl" "dir_ok s d fl"
    and room: "present (view (kmem s) d (unat (PDX va))) \<or> fl \<noteq> []"
  shows "\<exists>s' fl'. findPte (toPhy d + KERNBASE) va True s
       = Inr (Some (slot (pn (view (kmem s') d (unat (PDX va)))) (unat (PTX va))), s')
     \<and> alloc_inv s' fl' \<and> dir_ok s' d fl' \<and> keeps s s' d
     \<and> present (view (kmem s') d (unat (PDX va)))
     \<and> (if present (view (kmem s) d (unat (PDX va))) then s' = s \<and> fl' = fl
         else fl = hd fl # fl' \<and> pages s' = (pages s)[hd fl := \<lparr>nextFree = None, refCount = 1\<rparr>]
            \<and> view (kmem s') d (unat (PDX va)) = toPhy (hd fl) OR TABLE_FLAGS
            \<and> (\<forall>j. j \<noteq> unat (PDX va) \<longrightarrow> view (kmem s') d j = view (kmem s) d j))"
proof (cases "present (view (kmem s) d (unat (PDX va)))")
  case True
  then show ?thesis
    using findPte_hit [OF inv True, of True] inv
    by (intro exI [of _ s] exI [of _ fl]) (simp add: keeps_def)
next
  case False
  then obtain i fl' where fl: "fl = i # fl'" using room by (cases fl) auto
  have i: "i < unat (nPages s)" "i < 1048576" "i \<notin> set fl'"
    using fl alloc_inv_lt [OF inv(1), of i] nPages_unat [OF inv(1)] alloc_inv_distinct [OF inv(1)]
    by auto
  let ?e = "toPhy i OR TABLE_FLAGS"
  have e: "pn ?e = i" "present ?e" using table_entry(2,3) [OF i(2)] by simp_all
  obtain s' where s': "findPte (toPhy d + KERNBASE) va True s = Inr (Some (slot i (unat (PTX va))), s')"
      "alloc_inv s' fl'" "nPages s' = nPages s"
      "view (kmem s') = install (view (kmem s)) d (unat (PDX va)) i ?e"
      "pages s' = (pages s)[i := \<lparr>nextFree = None, refCount = 1\<rparr>]"
    using findPte_new [OF inv(1) [unfolded fl] inv(2) [unfolded fl] False] by auto
  have t: "view (kmem s') d (unat (PDX va)) = ?e" by (simp add: s'(4) install_apply)
  have "i \<noteq> d" using inv(2) fl by (auto simp: dir_inv_def)
  then have o: "\<forall>j. j \<noteq> unat (PDX va) \<longrightarrow> view (kmem s') d j = view (kmem s) d j"
    by (simp add: s'(4) install_apply)
  have "dir_ok s' d fl'"
    unfolding s'(3,4) by (rule dir_inv_install) (use inv fl False e i PDX_lt in simp_all)
  moreover have "keeps s s' d"
    unfolding keeps_def s'(3,4)
    using lookup_install [OF inv(2) [unfolded fl] PDX_lt False e] by simp
  ultimately show ?thesis
    using s'(1,2,5) t e o fl False by (intro exI [of _ s'] exI [of _ fl']) simp
qed

text \<open>
  \<open>updated s s' fl' d va e\<close>: from \<open>s\<close> to \<open>s'\<close> the entry for \<open>va\<close> became \<open>e\<close> and no other mapping
  of the directory changed; the state is well formed with free list \<open>fl'\<close>, and the stale
  translation of \<open>va\<close> was invalidated last.
\<close>

definition updated ::
  "vmem \<Rightarrow> vmem \<Rightarrow> nat list \<Rightarrow> nat \<Rightarrow> u32 \<Rightarrow> u32 \<Rightarrow> bool" where
  "updated s s' fl' d va e \<longleftrightarrow> alloc_inv s' fl' \<and> dir_ok s' d fl' \<and> nPages s' = nPages s
     \<and> entry s' d va = e
     \<and> (\<forall>va'. unat (PDX va') \<noteq> uvpt_ix \<longrightarrow> (PDX va', PTX va') \<noteq> (PDX va, PTX va) \<longrightarrow>
          entry s' d va' = entry s d va')
     \<and> hd (hwlog s') = Invlpg va"

lemma updated_store:
  assumes inv: "alloc_inv s1 fl'" "dir_ok s1 d fl'" and va: "unat (PDX va) \<noteq> uvpt_ix"
    and t: "present (view (kmem s1) d (unat (PDX va)))" and n: "nPages s1 = nPages s"
    and same: "\<And>va'. unat (PDX va') \<noteq> uvpt_ix \<Longrightarrow> (PDX va', PTX va') \<noteq> (PDX va, PTX va) \<Longrightarrow>
                 entry s1 d va' = entry s d va'"
  defines "p \<equiv> slot (pn (view (kmem s1) d (unat (PDX va)))) (unat (PTX va))"
  shows "updated s (invalidateTLB va (s1\<lparr>kmem := store32 (kmem s1) p e\<rparr>)) fl' d va e"
proof -
  let ?j = "unat (PDX va)" and ?l = "unat (PTX va)" and ?pv = "view (kmem s1)"
  have "pn (?pv d ?j) < 131072"
    using dir_inv_table [OF inv(2) PDX_lt t] nPages_unat [OF inv(1)] by simp
  then have v: "view (store32 (kmem s1) p e) = put ?pv (pn (?pv d ?j)) ?l e"
    unfolding p_def by (simp add: view_store PTX_lt)
  have look: "lookup (put ?pv (pn (?pv d ?j)) ?l e) d (unat (PDX va')) (unat (PTX va'))
      = (if PDX va = PDX va' \<and> PTX va = PTX va' then e else entry s1 d va')"
    if "unat (PDX va') \<noteq> uvpt_ix" for va'
    using lookup_put [OF inv(2) PDX_lt va t PDX_lt that]
    by (simp add: entry_def word_unat_eq_iff)
  have "dir_inv (put ?pv (pn (?pv d ?j)) ?l e) d (unat (nPages s1)) fl'"
    by (rule dir_inv_put [OF inv(2) PDX_lt va t])
  then show ?thesis
    using inv(1) look [OF va] look same va n
    by (auto simp: updated_def invalidateTLB_def entry_def v)
qed

lemma insert_fresh:
  assumes inv: "alloc_inv s fl" "dir_ok s d fl" and va: "unat (PDX va) \<noteq> uvpt_ix"
    and room: "present (view (kmem s) d (unat (PDX va))) \<or> fl \<noteq> []"
    and pp: "pp < unat (nPages s)" "pp \<notin> set fl"
    and absent: "\<not> present (entry s d va)"
  shows "\<exists>s' fl'. insert_page (toPhy d + KERNBASE) pp va perm s = Inr (ok, s')
     \<and> updated s s' fl' d va (toPhy pp OR perm OR PTE_P)
     \<and> fl' = (if present (view (kmem s) d (unat (PDX va))) then fl else tl fl)
     \<and> (\<forall>k. k \<notin> set fl \<longrightarrow> refCount (pages s' ! k) = refCount (pages s ! k) + (if k = pp then 1 else 0))"
proof -
  let ?j = "unat (PDX va)" and ?l = "unat (PTX va)"
  obtain s1 fl' where s1: "findPte (toPhy d + KERNBASE) va True s
        = Inr (Some (slot (pn (view (kmem s1) d ?j)) ?l), s1)"
      "alloc_inv s1 fl'" "dir_ok s1 d fl'" "keeps s s1 d" "present (view (kmem s1) d ?j)"
    and cs: "if present (view (kmem s) d ?j) then s1 = s \<and> fl' = fl
         else fl = hd fl # fl' \<and> pages s1 = (pages s)[hd fl := \<lparr>nextFree = None, refCount = 1\<rparr>]
            \<and> view (kmem s1) d ?j = toPhy (hd fl) OR TABLE_FLAGS
            \<and> (\<forall>j. j \<noteq> ?j \<longrightarrow> view (kmem s1) d j = view (kmem s) d j)"
    using findPte_create [OF inv room] by blast
  have fl': "fl' = (if present (view (kmem s) d ?j) then fl else tl fl)"
    using cs by (metis list.sel(3))
  have sub: "set fl' \<subseteq> set fl" using fl' by (auto dest: list.set_sel(2) split: if_splits) (cases fl; auto)
  have n1: "nPages s1 = nPages s" using s1(4) by (simp add: keeps_def)
  have len: "pp < length (pages s1)" using pp(1) n1 alloc_inv_length [OF s1(2)] by simp
  have refs: "refCount (pages s1 ! k) = refCount (pages s ! k)" if "k \<notin> set fl" for k
    using cs that by (cases "present (view (kmem s) d ?j)") (auto, metis list.set_intros(1) nth_list_update_neq)
  let ?s2 = "s1\<lparr>pages := (pages s1)[pp := (pages s1 ! pp)\<lparr>refCount := refCount (pages s1 ! pp) + 1\<rparr>]\<rparr>"
  have s2: "incRef pp s1 = Inr ?s2" "alloc_inv ?s2 fl'"
    using incRef_ok [OF s1(2) len] pp sub by auto
  have "entry s1 d va = entry s d va" by (rule keeps_entry [OF s1(4) va])
  moreover have t: "pn (view (kmem s1) d ?j) < 131072"
    using dir_inv_table [OF s1(3) PDX_lt s1(5)] nPages_unat [OF s1(2)] by simp
  ultimately have np: "\<not> present (load32 (kmem s1) (slot (pn (view (kmem s1) d ?j)) ?l))"
    using absent s1(5) by (simp add: entry_def lookup_def load_slot PTX_lt)
  let ?p = "slot (pn (view (kmem s1) d ?j)) ?l"
  let ?s' = "invalidateTLB va (?s2\<lparr>kmem := store32 (kmem ?s2) ?p (toPhy pp OR perm OR PTE_P)\<rparr>)"
  have "insert_page (toPhy d + KERNBASE) pp va perm s = Inr (ok, ?s')"
    using s1(1) s2(1) np by (simp add: insert_page_def)
  moreover have "updated s ?s' fl' d va (toPhy pp OR perm OR PTE_P)"
    using updated_store [of ?s2 fl' d va s] s2(2) s1(3,5) va n1 keeps_entry [OF s1(4)]
    by (simp add: entry_def)
  moreover have "refCount (pages ?s' ! k) = refCount (pages s ! k) + (if k = pp then 1 else 0)"
    if "k \<notin> set fl" for k
    using refs [OF that] len by (cases "k = pp") (auto simp: invalidateTLB_def)
  ultimately show ?thesis using fl' by blast
qed

lemma insert_over:
  assumes inv: "alloc_inv s fl" "dir_ok s d fl" and va: "unat (PDX va) \<noteq> uvpt_ix"
    and pp: "pp < unat (nPages s)" "pp \<notin> set fl"
    and mapped: "present (entry s d va)" and old: "old = pn (entry s d va)"
    and data: "data_page (view (kmem s)) d (unat (nPages s)) fl old"
    and counted: "refCount (pages s ! old) \<noteq> 0"
  shows "\<exists>s' fl'. insert_page (toPhy d + KERNBASE) pp va perm s = Inr (ok, s')
     \<and> updated s s' fl' d va (toPhy pp OR perm OR PTE_P)
     \<and> fl' = (if old \<noteq> pp \<and> refCount (pages s ! old) = 1 then old # fl else fl)
     \<and> (\<forall>k. refCount (pages s' ! k) = refCount (pages s ! k)
           + (if k = pp then 1 else 0) - (if k = old then 1 else 0))"
proof -
  let ?j = "unat (PDX va)" and ?l = "unat (PTX va)" and ?pv = "view (kmem s)"
  have tp: "present (?pv d ?j)" using entry_present [OF mapped] by simp
  let ?t = "pn (?pv d ?j)"
  have t: "?t < 131072" "?t \<noteq> d"
    using dir_inv_table [OF inv(2) PDX_lt tp] nPages_unat [OF inv(1)]
      dir_inv_neq [OF inv(2) PDX_lt va tp] by simp_all
  have len: "pp < length (pages s)" "old < length (pages s)"
    using pp(1) data alloc_inv_length [OF inv(1)] by (simp_all add: data_page_def)
  let ?s2 = "s\<lparr>pages := (pages s)[pp := (pages s ! pp)\<lparr>refCount := refCount (pages s ! pp) + 1\<rparr>]\<rparr>"
  have s2: "incRef pp s = Inr ?s2" "alloc_inv ?s2 fl"
    using incRef_ok [OF inv(1) len(1) pp(2)] by simp_all
  define c where "c = refCount (pages ?s2 ! old) - 1"
  have c0: "c = 0 \<longleftrightarrow> old \<noteq> pp \<and> refCount (pages s ! old) = 1"
    using len counted by (cases "old = pp") (auto simp: c_def)
  define fl' where "fl' = (if c = 0 then old # fl else fl)"
  have e2: "entry ?s2 d va = entry s d va" by (simp add: entry_def)
  obtain s3 where s3: "remove (toPhy d + KERNBASE) va ?s2 = Inr s3" "alloc_inv s3 fl'"
      "dir_ok s3 d fl'" "nPages s3 = nPages s" "view (kmem s3) = put ?pv ?t ?l 0"
      "length (pages s3) = length (pages s)"
      "\<forall>i. i \<noteq> old \<longrightarrow> pages s3 ! i = pages ?s2 ! i" "refCount (pages s3 ! old) = c"
    using remove_present [of ?s2 fl d va old c] inv(2) s2(2) va mapped old data e2 c_def
    by (auto simp: fl'_def)
  have v3: "view (kmem s3) d ?j = ?pv d ?j" using t(2) by (simp add: s3(5) put_apply)
  have same: "entry s3 d va' = entry s d va'"
    if "unat (PDX va') \<noteq> uvpt_ix" "(PDX va', PTX va') \<noteq> (PDX va, PTX va)" for va'
    using lookup_put [OF inv(2) PDX_lt va tp PDX_lt that(1)] that(2)
    by (auto simp: entry_def s3(5) word_unat_eq_iff)
  let ?s' = "invalidateTLB va (s3\<lparr>kmem := store32 (kmem s3) (slot ?t ?l) (toPhy pp OR perm OR PTE_P)\<rparr>)"
  have "load32 (kmem s) (slot ?t ?l) = entry s d va"
    using entry_present [OF mapped] t(1) by (simp add: load_slot PTX_lt)
  then have "insert_page (toPhy d + KERNBASE) pp va perm s = Inr (ok, ?s')"
    using findPte_hit [OF inv tp, of True] s2(1) s3(1) mapped by (simp add: insert_page_def)
  moreover have "updated s ?s' fl' d va (toPhy pp OR perm OR PTE_P)"
    using updated_store [of s3 fl' d va s] s3(2-4) va tp v3 same by simp
  moreover have "refCount (pages ?s' ! k) = refCount (pages s ! k)
       + (if k = pp then 1 else 0) - (if k = old then 1 else 0)" for k
    using s3(7,8) len by (cases "k = old"; cases "k = pp") (auto simp: invalidateTLB_def c_def)
  ultimately show ?thesis using c0 fl'_def by (intro exI [of _ ?s'] exI [of _ fl']) simp
qed

lemma findInfo_updated:
  assumes ins: "updated s s' fl' d va (toPhy pp OR perm OR PTE_P)"
    and pp: "pp < unat (nPages s)" and perm: "unat perm < 4096"
  shows "\<exists>p. findInfo (toPhy d + KERNBASE) va s' = Inr (Some (pp, p), s')
     \<and> load32 (kmem s') p = toPhy pp OR perm OR PTE_P"
proof -
  have inv: "alloc_inv s' fl'" "dir_ok s' d fl'" "nPages s' = nPages s"
      "entry s' d va = toPhy pp OR perm OR PTE_P"
    using ins unfolding updated_def by blast+
  have ppn: "pp < 1048576" using pp nPages_unat [OF inv(1)] inv(3) by simp
  have "unat (perm OR PTE_P) < 4096"
  proof -
    have "perm AND mask 12 = perm" by (rule unat_inj32) (use perm in \<open>simp add: unat_and_mask\<close>)
    then have "(perm OR PTE_P) AND mask 12 = perm OR PTE_P"
      by (simp add: bit.conj_disj_distrib2 PTE_P_def mask_eq_exp_minus_1)
    then show ?thesis using unat_and_mask [of "perm OR PTE_P" 12] by simp
  qed
  then have e: "pn (entry s' d va) = pp" "present (entry s' d va)"
    using entry_bits [OF ppn, of "perm OR PTE_P"] inv(4)
    by (simp_all add: or.assoc bit.conj_disj_distrib2 PTE_P_def)
  let ?t = "pn (view (kmem s') d (unat (PDX va)))"
  note m = entry_present [OF e(2)]
  have "?t < 131072"
    using dir_inv_table [OF inv(2) PDX_lt conjunct1 [OF m]] nPages_unat [OF inv(1)] by simp
  then show ?thesis
    using findInfo_present [OF inv(1,2) e(2)] e(1) pp inv(3,4) m
    by (simp add: load_slot PTX_lt)
qed

section \<open>staticMap\<close>

text \<open>
  The number of the table that covers \<open>va\<close> does not leave the range of ordinary slots while the
  loop runs, and the free list covers the tables that are still missing between \<open>va\<close> and the
  hi table \<open>hi\<close>.
\<close>

definition room_for :: "vmem \<Rightarrow> nat \<Rightarrow> nat list \<Rightarrow> u32 \<Rightarrow> nat \<Rightarrow> bool" where
  "room_for s d fl va hi \<longleftrightarrow> hi + (if present (view (kmem s) d (unat (PDX va))) then 0 else 1)
     \<le> length fl + unat (PDX va)"

lemma staticMap_step_ok:
  assumes inv: "alloc_inv s fl" "dir_ok s d fl" and va: "unat (PDX (va + off)) \<noteq> uvpt_ix"
    and room: "room_for s d fl (va + off) hi" "unat (PDX (va + off)) \<le> hi"
  shows "\<exists>s' fl'. staticMap_step (toPhy d + KERNBASE) va pa perm off s = Inr s'
     \<and> updated s s' fl' d (va + off) ((pa + off) OR PTE_P OR perm)
     \<and> present (view (kmem s') d (unat (PDX (va + off))))
     \<and> (\<forall>j. j \<noteq> unat (PDX (va + off)) \<longrightarrow> view (kmem s') d j = view (kmem s) d j)
     \<and> hi \<le> length fl' + unat (PDX (va + off))"
proof -
  let ?va = "va + off" and ?j = "unat (PDX (va + off))" and ?l = "unat (PTX (va + off))"
  have r: "present (view (kmem s) d ?j) \<or> fl \<noteq> []"
    using room by (auto simp: room_for_def split: if_splits)
  obtain s1 fl' where s1: "findPte (toPhy d + KERNBASE) ?va True s
        = Inr (Some (slot (pn (view (kmem s1) d ?j)) ?l), s1)"
      "alloc_inv s1 fl'" "dir_ok s1 d fl'" "keeps s s1 d" "present (view (kmem s1) d ?j)"
    and cs: "if present (view (kmem s) d ?j) then s1 = s \<and> fl' = fl
         else fl = hd fl # fl' \<and> pages s1 = (pages s)[hd fl := \<lparr>nextFree = None, refCount = 1\<rparr>]
            \<and> view (kmem s1) d ?j = toPhy (hd fl) OR TABLE_FLAGS
            \<and> (\<forall>j. j \<noteq> ?j \<longrightarrow> view (kmem s1) d j = view (kmem s) d j)"
    using findPte_create [OF inv r] by blast
  let ?e = "(pa + off) OR PTE_P OR perm" and ?t = "pn (view (kmem s1) d ?j)"
  have t: "?t < 131072" "?t \<noteq> d"
    using dir_inv_table [OF s1(3) PDX_lt s1(5)] nPages_unat [OF s1(2)]
      dir_inv_neq [OF s1(3) PDX_lt va s1(5)] by simp_all
  let ?s' = "invalidateTLB ?va (s1\<lparr>kmem := store32 (kmem s1) (slot ?t ?l) ?e\<rparr>)"
  have up: "updated s ?s' fl' d ?va ?e"
    using updated_store [OF s1(2,3) va s1(5), of s ?e] s1(4) keeps_entry [OF s1(4)]
    by (simp add: keeps_def)
  have v: "view (kmem ?s') d j = view (kmem s1) d j" for j
    using t by (simp add: invalidateTLB_def view_store PTX_lt put_def)
  have o: "view (kmem s1) d j = view (kmem s) d j" if "j \<noteq> ?j" for j
    using cs that by (auto split: if_splits)
  have len: "hi \<le> length fl' + ?j"
    using cs room(1) by (cases "present (view (kmem s) d ?j)")
      (auto simp: room_for_def dest: arg_cong [where f = length])
  have "staticMap_step (toPhy d + KERNBASE) va pa perm off s = Inr ?s'"
    using s1(1) by (simp add: staticMap_step_def)
  then show ?thesis using up v o s1(5) len by (intro exI [of _ ?s'] exI [of _ fl']) auto
qed

lemma room_next:
  assumes pd: "present (view (kmem s') d (unat (PDX va)))" and hi: "hi \<le> length fl' + unat (PDX va)"
    and nowrap: "unat va + 4096 < 4294967296"
  shows "room_for s' d fl' (va + PGSIZE) hi"
proof -
  have "unat (va + PGSIZE) = unat va + 4096"
    using nowrap by (simp add: PGSIZE_def unat_word_ariths)
  then have "unat (PDX (va + PGSIZE)) = (unat va + 4096) div 4194304"
    by (simp add: unat_PDX)
  moreover have "(unat va + 4096) div 4194304 = unat va div 4194304
      \<or> (unat va + 4096) div 4194304 = unat va div 4194304 + 1"
    using div_le_mono [of "unat va" "unat va + 4096" 4194304]
      div_le_mono [of "unat va + 4096" "unat va + 4194304" 4194304] by auto
  ultimately consider "PDX (va + PGSIZE) = PDX va" | "unat (PDX (va + PGSIZE)) = unat (PDX va) + 1"
    by (auto simp: word_unat_eq_iff unat_PDX)
  then show ?thesis using pd hi by cases (auto simp: room_for_def)
qed

definition page_off :: "nat \<Rightarrow> u32" where "page_off i = of_nat (4096 * i)"

lemma unat_page_off: "i < 1048576 \<Longrightarrow> unat (page_off i) = 4096 * i"
  unfolding page_off_def by (rule unat_of_nat32) simp

lemma page_off_Suc: "page_off i + PGSIZE = page_off (Suc i)"
  by (simp add: page_off_def PGSIZE_def)

text \<open>
  The pages of \<open>[va, va + 4096 * n)\<close> as the loop visits them: none is in the recursive window,
  the last page table touched is number \<open>hi\<close>, and the range does not reach the top of memory.
\<close>

definition span :: "u32 \<Rightarrow> nat \<Rightarrow> nat \<Rightarrow> nat \<Rightarrow> bool" where
  "span va i n hi \<longleftrightarrow> i + n < 1048576 \<and> unat va + 4096 * (i + n) \<le> 4294967296 \<and>
     (\<forall>k. i \<le> k \<and> k < i + n \<longrightarrow> unat (PDX (va + page_off k)) \<noteq> uvpt_ix
        \<and> unat (PDX (va + page_off k)) \<le> hi)"

lemma span_Suc: "span va i (Suc n) hi \<Longrightarrow> span va (Suc i) n hi"
  by (auto simp: span_def)

text \<open>
  What the loop achieves over pages \<open>i\<close> to \<open>i + n\<close>: page \<open>k\<close> of the range maps page \<open>k\<close> of
  the physical range, every other page keeps its mapping.
\<close>

definition mapped_range :: "vmem \<Rightarrow> vmem \<Rightarrow> nat \<Rightarrow> u32 \<Rightarrow> u32 \<Rightarrow> u32 \<Rightarrow> nat \<Rightarrow> nat \<Rightarrow> bool" where
  "mapped_range s s' d va pa perm i n \<longleftrightarrow>
     (\<forall>k. i \<le> k \<and> k < i + n \<longrightarrow> entry s' d (va + page_off k) = (pa + page_off k) OR PTE_P OR perm)
   \<and> (\<forall>va'. unat (PDX va') \<noteq> uvpt_ix \<longrightarrow>
        (\<forall>k. i \<le> k \<and> k < i + n \<longrightarrow> (PDX va', PTX va') \<noteq> (PDX (va + page_off k), PTX (va + page_off k)))
        \<longrightarrow> entry s' d va' = entry s d va')"

lemma page_distinct:
  assumes "unat va + 4096 * k < 4294967296" "unat va + 4096 * k' < 4294967296" "k \<noteq> k'"
  shows "(PDX (va + page_off k), PTX (va + page_off k)) \<noteq> (PDX (va + page_off k'), PTX (va + page_off k'))"
proof
  have u: "unat (va + page_off x) = unat va + 4096 * x" if "unat va + 4096 * x < 4294967296" for x
    using that by (subst unat_add_no_wrap) (simp_all add: unat_page_off)
  have split: "unat a div 4096 = unat (PDX a) * 1024 + unat (PTX a)" for a :: u32
  proof -
    have "unat a div 4194304 = unat a div 4096 div 1024" by (simp add: div_mult2_eq [symmetric])
    then show ?thesis by (simp add: unat_PDX unat_PTX)
  qed
  assume "(PDX (va + page_off k), PTX (va + page_off k)) = (PDX (va + page_off k'), PTX (va + page_off k'))"
  then have "unat (va + page_off k) div 4096 = unat (va + page_off k') div 4096"
    using split by simp
  then have "unat va div 4096 + k = unat va div 4096 + k'"
    unfolding u [OF assms(1)] u [OF assms(2)] by simp
  then show False using assms(3) by simp
qed

lemma mapped_range_Suc:
  assumes up: "updated s s1 fl1 d (va + page_off i) ((pa + page_off i) OR PTE_P OR perm)"
    and rest: "mapped_range s1 s' d va pa perm (Suc i) n"
    and i: "unat va + 4096 * (i + Suc n) \<le> 4294967296" "unat (PDX (va + page_off i)) \<noteq> uvpt_ix"
  shows "mapped_range s s' d va pa perm i (Suc n)"
  unfolding mapped_range_def
proof (intro conjI allI impI)
  fix k assume k: "i \<le> k \<and> k < i + Suc n"
  show "entry s' d (va + page_off k) = (pa + page_off k) OR PTE_P OR perm"
  proof (cases "k = i")
    case True
    have "entry s' d (va + page_off i) = entry s1 d (va + page_off i)"
      using rest i page_distinct [of va i] unfolding mapped_range_def by auto
    then show ?thesis using True up unfolding updated_def by simp
  next
    case False
    then show ?thesis using k rest unfolding mapped_range_def by auto
  qed
next
  fix va' assume va': "unat (PDX va') \<noteq> uvpt_ix"
    and other: "\<forall>k. i \<le> k \<and> k < i + Suc n \<longrightarrow>
      (PDX va', PTX va') \<noteq> (PDX (va + page_off k), PTX (va + page_off k))"
  then have "entry s' d va' = entry s1 d va'"
    using rest unfolding mapped_range_def by auto
  also have "\<dots> = entry s d va'"
    using up va' other unfolding updated_def by auto
  finally show "entry s' d va' = entry s d va'" .
qed

lemma staticMap_loop_ok:
  assumes "alloc_inv s fl" "dir_ok s d fl" "span va i n hi"
    and "4096 * (i + n) < unat sz + 4096" "unat sz \<le> 4096 * (i + n)"
    and "n \<noteq> 0 \<Longrightarrow> room_for s d fl (va + page_off i) hi"
  shows "\<exists>s' fl'. staticMap_loop (toPhy d + KERNBASE) va sz pa perm (page_off i) s = Some (Inr s')
     \<and> alloc_inv s' fl' \<and> dir_ok s' d fl' \<and> nPages s' = nPages s
     \<and> mapped_range s s' d va pa perm i n"
  using assms
proof (induction n arbitrary: i s fl)
  case 0
  then have "\<not> page_off i < sz"
    by (simp add: word_less_nat_alt unat_page_off span_def)
  then show ?case
    using 0 by (auto simp: staticMap_loop.simps mapped_range_def)
next
  case (Suc n)
  let ?va = "va + page_off i"
  have i: "unat va + 4096 * (i + Suc n) \<le> 4294967296"
      "unat (PDX ?va) \<noteq> uvpt_ix" "unat (PDX ?va) \<le> hi"
    using Suc.prems(3) by (auto simp: span_def)
  have off: "unat (page_off i) = 4096 * i" using i(1) by (intro unat_page_off) simp
  have lt: "page_off i < sz" using Suc.prems(4,5) off by (simp add: word_less_nat_alt)
  obtain s1 fl1 where s1: "staticMap_step (toPhy d + KERNBASE) va pa perm (page_off i) s = Inr s1"
      "updated s s1 fl1 d ?va ((pa + page_off i) OR PTE_P OR perm)"
      "present (view (kmem s1) d (unat (PDX ?va)))" "hi \<le> length fl1 + unat (PDX ?va)"
    using staticMap_step_ok [OF Suc.prems(1,2) i(2) _ i(3)] Suc.prems(6) by blast
  have u1: "alloc_inv s1 fl1" "dir_ok s1 d fl1" "nPages s1 = nPages s"
    using s1(2) unfolding updated_def by blast+
  have "unat ?va = unat va + 4096 * i"
    using i(1) off by (subst unat_add_no_wrap) simp_all
  then have "room_for s1 d fl1 (?va + PGSIZE) hi" if "n \<noteq> 0"
    using i(1) that by (intro room_next s1(3,4)) simp
  then have room: "room_for s1 d fl1 (va + page_off (Suc i)) hi" if "n \<noteq> 0"
    using that by (simp add: page_off_Suc [symmetric] add.assoc)
  obtain s' fl' where s': "staticMap_loop (toPhy d + KERNBASE) va sz pa perm (page_off (Suc i)) s1
        = Some (Inr s')" "alloc_inv s' fl'" "dir_ok s' d fl'" "nPages s' = nPages s1"
      "mapped_range s1 s' d va pa perm (Suc i) n"
    using Suc.IH [OF u1(1,2) span_Suc [OF Suc.prems(3)] _ _ room] Suc.prems(4,5) by auto
  have "mapped_range s s' d va pa perm i (Suc n)"
    by (rule mapped_range_Suc [OF s1(2) s'(5) i(1,2)])
  moreover have "staticMap_loop (toPhy d + KERNBASE) va sz pa perm (page_off i) s = Some (Inr s')"
    using lt s1(1) s'(1) by (simp add: staticMap_loop.simps [of _ _ _ _ _ "page_off i"] page_off_Suc)
  ultimately show ?case using s'(2-4) u1(3) by auto
qed

text \<open>\<open>staticMap\<close> on a range of \<open>n\<close> pages, the last of which \<open>sz\<close> may cover in part.\<close>

lemma staticMap_ok:
  assumes "alloc_inv s fl" "dir_ok s d fl" "span va 0 n hi"
    and "4096 * n < unat sz + 4096" "unat sz \<le> 4096 * n"
    and "n \<noteq> 0 \<Longrightarrow> room_for s d fl va hi"
  shows "\<exists>s' fl'. staticMap (toPhy d + KERNBASE) va sz pa perm s = Some (Inr s')
     \<and> alloc_inv s' fl' \<and> dir_ok s' d fl' \<and> nPages s' = nPages s
     \<and> mapped_range s s' d va pa perm 0 n"
  using staticMap_loop_ok [OF assms(1-3), of sz pa perm] assms(4-6)
  by (simp add: staticMap_def page_off_def)

section \<open>userCheck\<close>

text \<open>The test that \<open>userCheck\<close> applies to one address.\<close>

definition accepts :: "vmem \<Rightarrow> nat \<Rightarrow> u32 \<Rightarrow> u32 \<Rightarrow> bool" where
  "accepts s d perm va \<longleftrightarrow> va < ULIM \<and> present (view (kmem s) d (unat (PDX va)))
     \<and> entry s d va AND (perm OR PTE_P) \<noteq> 0"

lemma userCheck_step:
  assumes inv: "alloc_inv s fl" "dir_ok s d fl"
  shows "userCheck_loop (toPhy d + KERNBASE) va_end (perm OR PTE_P) va s =
     (if va < va_end then
        if accepts s d perm va
        then userCheck_loop (toPhy d + KERNBASE) va_end (perm OR PTE_P) (va + PGSIZE) s
        else Some (Inr False)
      else Some (Inr True))"
proof (cases "present (view (kmem s) d (unat (PDX va)))")
  case True
  let ?t = "pn (view (kmem s) d (unat (PDX va)))"
  have "?t < 131072"
    using dir_inv_table [OF inv(2) PDX_lt True] nPages_unat [OF inv(1)] by simp
  then have "load32 (kmem s) (slot ?t (unat (PTX va))) = entry s d va"
    using True by (simp add: load_slot PTX_lt entry_def lookup_def)
  then show ?thesis
    using findPte_hit [OF inv True, of False] True
    by (subst userCheck_loop.simps) (auto simp: accepts_def not_le)
next
  case False
  then show ?thesis
    using findPte_none(1) [OF inv False]
    by (subst userCheck_loop.simps) (auto simp: accepts_def)
qed

lemma ULIM_unat: "unat ULIM = 3749707776"
  by (simp add: mmu_consts)

lemma userCheck_loop_result:
  assumes inv: "alloc_inv s fl" "dir_ok s d fl"
  shows "userCheck_loop (toPhy d + KERNBASE) va_end (perm OR PTE_P) va s
       = Some (Inr (\<forall>k. unat va + 4096 * k < unat va_end \<longrightarrow> accepts s d perm (va + page_off k)))"
proof (induction "4294967296 - unat va" arbitrary: va rule: less_induct)
  case less
  let ?P = "\<lambda>va. \<forall>k. unat va + 4096 * k < unat va_end \<longrightarrow> accepts s d perm (va + page_off k)"
  show ?case
  proof (cases "va < va_end \<and> accepts s d perm va")
    case True
    then have lim: "unat va < 3749707776"
      using ULIM_unat by (simp add: accepts_def word_less_nat_alt)
    then have u: "unat (va + PGSIZE) = unat va + 4096"
      by (simp add: PGSIZE_def unat_word_ariths)
    have IH: "userCheck_loop (toPhy d + KERNBASE) va_end (perm OR PTE_P) (va + PGSIZE) s
        = Some (Inr (?P (va + PGSIZE)))"
      using u lim by (intro less) simp
    have "?P va \<longleftrightarrow> ?P (va + PGSIZE)"
    proof
      assume p: "?P va"
      show "?P (va + PGSIZE)"
      proof (intro allI impI)
        fix k assume "unat (va + PGSIZE) + 4096 * k < unat va_end"
        then have "accepts s d perm (va + page_off (Suc k))" using p u by simp
        then show "accepts s d perm (va + PGSIZE + page_off k)"
          by (simp add: page_off_Suc [symmetric] algebra_simps)
      qed
    next
      assume p: "?P (va + PGSIZE)"
      show "?P va"
      proof (intro allI impI)
        fix k assume k: "unat va + 4096 * k < unat va_end"
        show "accepts s d perm (va + page_off k)"
        proof (cases k)
          case 0
          then show ?thesis using True by (simp add: page_off_def)
        next
          case (Suc k')
          then have "accepts s d perm (va + PGSIZE + page_off k')" using p u k by simp
          then show ?thesis using Suc by (simp add: page_off_Suc [symmetric] algebra_simps)
        qed
      qed
    qed
    then show ?thesis using userCheck_step [OF inv, of va_end perm va] True IH by simp
  next
    case False
    have "va < va_end \<Longrightarrow> \<not> ?P va"
      using False by (auto simp: word_less_nat_alt page_off_def intro!: exI [of _ 0])
    moreover have "\<not> va < va_end \<Longrightarrow> ?P va" by (simp add: word_less_nat_alt)
    ultimately show ?thesis using userCheck_step [OF inv, of va_end perm va] False by auto
  qed
qed

lemma userCheck_result:
  assumes "alloc_inv s fl" "dir_ok s d fl"
  shows "userCheck (toPhy d + KERNBASE) va sz perm s = Some (Inr
     (\<forall>k. unat va + 4096 * k < unat (va + sz) \<longrightarrow> accepts s d perm (va + page_off k)))"
  unfolding userCheck_def by (rule userCheck_loop_result [OF assms])

section \<open>mmioMap\<close>

lemma mmio_span:
  assumes "MMIOBASE \<le> va" "unat va + 4096 * n \<le> unat MMIOLIM"
  shows "span va 0 n 894"
proof -
  have l: "3749707776 \<le> unat va" "unat va + 4096 * n \<le> 3753902080"
    using assms by (simp_all add: mmu_consts word_le_nat_alt)
  have "unat (PDX (va + page_off k)) = 894" if "k < n" for k
  proof -
    have "unat (va + page_off k) = unat va + 4096 * k"
      using l that by (subst unat_add_no_wrap) (simp_all add: unat_page_off)
    then have "unat (PDX (va + page_off k)) = (unat va + 4096 * k) div 4194304"
      by (simp add: unat_PDX)
    also have "\<dots> = 894"
      by (rule div_nat_eqI) (use l that in simp_all)
    finally show ?thesis .
  qed
  then show ?thesis using l by (simp add: span_def uvpt_ix_def unat_PDX mmu_consts)
qed

lemma ROUNDUP_pages:
  assumes n: "unat sz \<le> 4096 * n" "4096 * n < unat sz + 4096" "4096 * n \<le> 0x400000"
  shows "ROUNDUP sz PGSIZE = page_off n"
proof (rule unat_inj32)
  have "unat sz \<le> 4194304" using n by linarith
  then have "unat (ROUNDUP sz PGSIZE) = (unat sz + 4096 - 1) div 4096 * 4096"
    by (subst unat_ROUNDUP) (simp_all add: PGSIZE_def)
  also have "(unat sz + 4096 - 1) div 4096 = n"
    by (rule div_nat_eqI) (use n in simp_all)
  finally show "unat (ROUNDUP sz PGSIZE) = unat (page_off n)"
    using n by (simp add: unat_page_off mult.commute)
qed

section \<open>Properties\<close>

lemma view_zero [simp]: "view (\<lambda>_. 0) = (\<lambda>_ _. 0)"
  by (simp add: fun_eq_iff view_def load32_def)

lemma small_dir: "dir_ok small_vm 1 [3, 4, 5, 6, 7]"
  by (simp add: dir_inv_def small_vm_def)

lemma small_entry [simp]: "entry small_vm d va = 0"
  by (simp add: entry_def lookup_def small_vm_def)

lemma small_fields [simp]:
  "nPages small_vm = 8" "kmem small_vm = (\<lambda>_. 0)" "length (pages small_vm) = 8"
  "refCount (pages small_vm ! 2) = 0" "mmioNext small_vm = MMIOBASE"
  "kernelPageDir small_vm = toPhy 1 + KERNBASE" "hwlog small_vm = []"
  by (simp_all add: small_vm_def toPhy_def KERNBASE_def)

lemma PDX_8MB [simp]: "unat (PDX 0x800000) = 2" "unat (PTX 0x800000) = 0" "uvpt_ix = 893"
  by (simp_all add: uvpt_ix_def unat_PDX unat_PTX mmu_consts)

text \<open>
  C1: Mapping a page at an unmapped address. With a free page in reserve for a missing table,
  \<open>insert\<close> succeeds; \<open>findInfo\<close> then finds exactly that page with the requested permissions, the
  page has one reference more, no other address outside the \<open>UVPT\<close> window changes its mapping,
  and allocator and directory stay well formed. A table is taken from the pool only if needed.
\<close>

theorem insert_maps_fresh:
  assumes "alloc_inv s fl" "dir_ok s d fl" "unat (PDX va) \<noteq> uvpt_ix"
    and "present (view (kmem s) d (unat (PDX va))) \<or> fl \<noteq> []"
    and "pp < unat (nPages s)" "pp \<notin> set fl" "unat perm < 4096"
    and "\<not> present (entry s d va)"
  shows "\<exists>s' fl' p. insert_page (toPhy d + KERNBASE) pp va perm s = Inr (ok, s')
     \<and> updated s s' fl' d va (toPhy pp OR perm OR PTE_P)
     \<and> findInfo (toPhy d + KERNBASE) va s' = Inr (Some (pp, p), s')
     \<and> load32 (kmem s') p = toPhy pp OR perm OR PTE_P
     \<and> refCount (pages s' ! pp) = refCount (pages s ! pp) + 1
     \<and> fl' = (if present (view (kmem s) d (unat (PDX va))) then fl else tl fl)"
proof -
  obtain s' fl' where s': "insert_page (toPhy d + KERNBASE) pp va perm s = Inr (ok, s')"
      "updated s s' fl' d va (toPhy pp OR perm OR PTE_P)"
      "fl' = (if present (view (kmem s) d (unat (PDX va))) then fl else tl fl)"
      "refCount (pages s' ! pp) = refCount (pages s ! pp) + 1"
    using insert_fresh [OF assms(1-6,8), of perm] assms(6) by auto
  obtain p where "findInfo (toPhy d + KERNBASE) va s' = Inr (Some (pp, p), s')"
      "load32 (kmem s') p = toPhy pp OR perm OR PTE_P"
    using findInfo_updated [OF s'(2) assms(5,7)] by blast
  then show ?thesis using s' by blast
qed

theorem insert_maps_fresh_witness:
  "\<exists>s' p. insert_page (toPhy 1 + KERNBASE) 2 0x800000 PTE_W small_vm = Inr (ok, s')
     \<and> findInfo (toPhy 1 + KERNBASE) 0x800000 s' = Inr (Some (2, p), s')
     \<and> updated small_vm s' [4, 5, 6, 7] 1 0x800000 (toPhy 2 OR PTE_W OR PTE_P)"
  using insert_maps_fresh [OF small_vm_inv small_dir, of "0x800000" 2 PTE_W]
  by (auto simp: PTE_W_def)

text \<open>The same machine with page 2 mapped at 8 MB through a table in page 0.\<close>

definition mapped_vm :: vmem where
  "mapped_vm = small_vm\<lparr>kmem := store32 (store32 (\<lambda>_. 0) (slot 1 2) 7) (slot 0 0) 0x2003,
     pages := (pages small_vm)[2 := \<lparr>nextFree = None, refCount = 1\<rparr>]\<rparr>"

lemma mapped_view [simp]: "view (kmem mapped_vm) = put (put (\<lambda>_ _. 0) 1 2 7) 0 0 0x2003"
  by (simp add: mapped_vm_def view_store)

lemma mapped_fields [simp]:
  "nPages mapped_vm = 8" "refCount (pages mapped_vm ! 2) = 1" "length (pages mapped_vm) = 8"
  by (simp_all add: mapped_vm_def small_vm_def)

lemma mapped_inv: "alloc_inv mapped_vm [3, 4, 5, 6, 7]"
  by (simp add: alloc_inv_def mapped_vm_def small_vm_def All_less_Suc)

lemma pn_examples [simp]: "pn 7 = 0" "pn 0x2003 = 2" "present 7" "present 0x2003"
  by (simp_all add: pn_def unat_PTE_ADDR unat_PGNUM PTE_P_def)

lemma mapped_dir: "dir_ok mapped_vm 1 [3, 4, 5, 6, 7]"
  by (auto simp: dir_inv_def put_apply)

lemma mapped_entry [simp]: "entry mapped_vm 1 0x800000 = 0x2003"
  by (simp add: entry_def lookup_def put_apply)

lemma mapped_hyps:
  "2 = pn (entry mapped_vm 1 0x800000)" "present (entry mapped_vm 1 0x800000)"
  "data_page (view (kmem mapped_vm)) 1 (unat (nPages mapped_vm)) [3, 4, 5, 6, 7] 2"
  using mapped_entry pn_examples by (auto simp: data_page_def put_apply)

text \<open>
  C3: Unmapping. \<open>remove\<close> on a mapped address clears the entry (\<open>findInfo\<close> then finds nothing),
  takes one reference off the page and frees it exactly when that was the last one, invalidates
  the stale translation, and touches neither another mapping nor another page's record.
\<close>

theorem remove_unmaps:
  assumes inv: "alloc_inv s fl" "dir_ok s d fl" and va: "unat (PDX va) \<noteq> uvpt_ix"
    and p: "present (entry s d va)"
    and k: "k = pn (entry s d va)" "data_page (view (kmem s)) d (unat (nPages s)) fl k"
  shows "\<exists>s'. remove (toPhy d + KERNBASE) va s = Inr s'
     \<and> updated s s' (if refCount (pages s ! k) = 1 then k # fl else fl) d va 0
     \<and> findInfo (toPhy d + KERNBASE) va s' = Inr (None, s')
     \<and> refCount (pages s' ! k) = refCount (pages s ! k) - 1
     \<and> (\<forall>i. i \<noteq> k \<longrightarrow> pages s' ! i = pages s ! i)"
proof -
  let ?fl = "if refCount (pages s ! k) = 1 then k # fl else fl"
  have c: "(refCount (pages s ! k) - 1 = 0) = (refCount (pages s ! k) = 1)"
    by auto
  obtain s' where s': "remove (toPhy d + KERNBASE) va s = Inr s'"
      "alloc_inv s' ?fl" "dir_ok s' d ?fl" "nPages s' = nPages s" "hwlog s' = Invlpg va # hwlog s"
      "view (kmem s') = put (view (kmem s)) (pn (view (kmem s) d (unat (PDX va)))) (unat (PTX va)) 0"
      "\<forall>i. i \<noteq> k \<longrightarrow> pages s' ! i = pages s ! i" "refCount (pages s' ! k) = refCount (pages s ! k) - 1"
    using remove_present [OF inv p va k refl] unfolding c by blast
  have look: "entry s' d va' = (if PDX va = PDX va' \<and> PTX va = PTX va' then 0 else entry s d va')"
    if "unat (PDX va') \<noteq> uvpt_ix" for va'
    using lookup_put [OF inv(2) PDX_lt va _ PDX_lt that] entry_present [OF p]
    by (simp add: entry_def s'(6) word_unat_eq_iff)
  then have up: "updated s s' ?fl d va 0"
    using s'(2-5) va by (auto simp: updated_def)
  have "findInfo (toPhy d + KERNBASE) va s' = Inr (None, s')"
    using findInfo_absent [OF s'(2,3), of va] look [OF va] by simp
  then show ?thesis using s'(1,7,8) up by blast
qed


theorem remove_unmaps_witness:
  "\<exists>s'. remove (toPhy 1 + KERNBASE) 0x800000 mapped_vm = Inr s'
     \<and> updated mapped_vm s' [2, 3, 4, 5, 6, 7] 1 0x800000 0
     \<and> findInfo (toPhy 1 + KERNBASE) 0x800000 s' = Inr (None, s')"
proof -
  have "unat (PDX 0x800000) \<noteq> uvpt_ix" by simp
  from remove_unmaps [OF mapped_inv mapped_dir this mapped_hyps(2,1,3)] show ?thesis
    unfolding mapped_fields(2) by auto
qed

text \<open>
  C2: Mapping over an existing mapping. \<open>insert\<close> replaces it: \<open>findInfo\<close> finds the new page with the
  new permissions, the new page gains a reference before the old one loses its own, so that
  inserting the page that is already there only changes the permissions and never frees it, and
  the old page is freed exactly when its last reference goes.
\<close>

theorem insert_replaces:
  assumes "alloc_inv s fl" "dir_ok s d fl" "unat (PDX va) \<noteq> uvpt_ix"
    and "pp < unat (nPages s)" "pp \<notin> set fl" "unat perm < 4096"
    and "present (entry s d va)" "old = pn (entry s d va)"
    and "data_page (view (kmem s)) d (unat (nPages s)) fl old" "refCount (pages s ! old) \<noteq> 0"
  shows "\<exists>s' p. insert_page (toPhy d + KERNBASE) pp va perm s = Inr (ok, s')
     \<and> updated s s' (if old \<noteq> pp \<and> refCount (pages s ! old) = 1 then old # fl else fl) d va
         (toPhy pp OR perm OR PTE_P)
     \<and> findInfo (toPhy d + KERNBASE) va s' = Inr (Some (pp, p), s')
     \<and> load32 (kmem s') p = toPhy pp OR perm OR PTE_P
     \<and> (\<forall>k. refCount (pages s' ! k) = refCount (pages s ! k)
           + (if k = pp then 1 else 0) - (if k = old then 1 else 0))"
proof -
  obtain s' where s': "insert_page (toPhy d + KERNBASE) pp va perm s = Inr (ok, s')"
      "updated s s' (if old \<noteq> pp \<and> refCount (pages s ! old) = 1 then old # fl else fl) d va
         (toPhy pp OR perm OR PTE_P)"
      "\<forall>k. refCount (pages s' ! k) = refCount (pages s ! k)
           + (if k = pp then 1 else 0) - (if k = old then 1 else 0)"
    using insert_over [OF assms(1-5,7-10), of perm] by blast
  then show ?thesis using findInfo_updated [OF s'(2) assms(4,6)] by blast
qed

theorem insert_replaces_witness:
  "\<exists>s' p. insert_page (toPhy 1 + KERNBASE) 2 0x800000 PTE_U mapped_vm = Inr (ok, s')
     \<and> findInfo (toPhy 1 + KERNBASE) 0x800000 s' = Inr (Some (2, p), s')
     \<and> updated mapped_vm s' [3, 4, 5, 6, 7] 1 0x800000 (toPhy 2 OR PTE_U OR PTE_P)"
proof -
  have "unat (PDX 0x800000) \<noteq> uvpt_ix" "2 < unat (nPages mapped_vm)" "2 \<notin> set [3, 4, 5, 6, 7 :: nat]"
    "unat PTE_U < 4096" "refCount (pages mapped_vm ! 2) \<noteq> 0" by (simp_all add: PTE_U_def)
  from insert_replaces [OF mapped_inv mapped_dir this(1-4) mapped_hyps(2,1,3) this(5)] show ?thesis
    by auto
qed

text \<open>
  C4: \<open>staticMap\<close> returns for every range that leaves the last page of the address space's size
  counter free, and maps each of its pages to the corresponding physical page with the requested
  permissions, leaving every other mapping as it was, provided the pool can supply the tables.
\<close>

theorem staticMap_maps:
  assumes "alloc_inv s fl" "dir_ok s d fl" "span va 0 n hi"
    and "4096 * n < unat sz + 4096" "unat sz \<le> 4096 * n"
    and "n \<noteq> 0 \<Longrightarrow> room_for s d fl va hi"
  shows "\<exists>s' fl'. staticMap (toPhy d + KERNBASE) va sz pa perm s = Some (Inr s')
     \<and> alloc_inv s' fl' \<and> dir_ok s' d fl' \<and> nPages s' = nPages s
     \<and> (\<forall>k<n. entry s' d (va + page_off k) = (pa + page_off k) OR PTE_P OR perm)
     \<and> (\<forall>va'. unat (PDX va') \<noteq> uvpt_ix \<longrightarrow>
          (\<forall>k<n. (PDX va', PTX va') \<noteq> (PDX (va + page_off k), PTX (va + page_off k)))
          \<longrightarrow> entry s' d va' = entry s d va')"
proof -
  obtain s' fl' where s': "staticMap (toPhy d + KERNBASE) va sz pa perm s = Some (Inr s')"
      "alloc_inv s' fl'" "dir_ok s' d fl'" "nPages s' = nPages s" "mapped_range s s' d va pa perm 0 n"
    using staticMap_ok [OF assms, of pa perm] by blast
  show ?thesis
    using s' unfolding mapped_range_def by (intro exI [of _ s'] exI [of _ fl']) simp
qed

lemma kernel_window_span: "span 0xFFFF0000 0 16 1023"
proof -
  have "unat (PDX (0xFFFF0000 + page_off k)) = 1023" if "k < 16" for k
  proof -
    have "unat (0xFFFF0000 + page_off k) = 4294901760 + 4096 * k"
      using that by (subst unat_add_no_wrap) (simp_all add: unat_page_off)
    then have "unat (PDX (0xFFFF0000 + page_off k)) = (4294901760 + 4096 * k) div 4194304"
      by (simp add: unat_PDX)
    also have "\<dots> = 1023" by (rule div_nat_eqI) (use that in simp_all)
    finally show ?thesis .
  qed
  then show ?thesis by (simp add: span_def)
qed

theorem staticMap_maps_witness:
  "\<exists>s'. staticMap (toPhy 1 + KERNBASE) 0xFFFF0000 0xFFFF 0x1FFF0000 PTE_W small_vm = Some (Inr s')
     \<and> entry s' 1 (0xFFFF0000 + page_off 15) = (0x1FFF0000 + page_off 15) OR PTE_P OR PTE_W"
proof -
  have "room_for small_vm 1 [3, 4, 5, 6, 7] 0xFFFF0000 1023"
    by (simp add: room_for_def unat_PDX)
  then show ?thesis
    using staticMap_maps [OF small_vm_inv small_dir kernel_window_span, of "0xFFFF" "0x1FFF0000" PTE_W]
    by auto
qed


text \<open>
  C6: What the system-call pointer check decides. On a well-formed directory \<open>userCheck\<close> always
  returns, and it accepts a range exactly when every address \<open>va + 4096 * k\<close> below the (32-bit)
  end \<open>va + size\<close> lies below \<open>ULIM\<close> and has an entry that shares at least one bit with
  \<open>perm | PTE_P\<close>.
\<close>

theorem userCheck_exact:
  assumes "alloc_inv s fl" "dir_ok s d fl"
  shows "userCheck (toPhy d + KERNBASE) va sz perm s = Some (Inr
     (\<forall>k. unat va + 4096 * k < unat (va + sz) \<longrightarrow>
        va + page_off k < ULIM \<and> present (view (kmem s) d (unat (PDX (va + page_off k))))
        \<and> entry s d (va + page_off k) AND (perm OR PTE_P) \<noteq> 0))"
  using userCheck_result [OF assms] by (simp add: accepts_def)

theorem userCheck_exact_witness:
  "userCheck (toPhy 1 + KERNBASE) 0x800000 0x2000 PTE_U mapped_vm = Some (Inr False)"
proof -
  have e: "entry mapped_vm 1 0x801000 = 0"
    by (simp add: entry_def lookup_def put_apply unat_PTX unat_PDX)
  have "\<not> (\<forall>k. unat (0x800000 :: u32) + 4096 * k < unat (0x800000 + 0x2000 :: u32) \<longrightarrow>
        0x800000 + page_off k < ULIM
        \<and> present (view (kmem mapped_vm) 1 (unat (PDX (0x800000 + page_off k))))
        \<and> entry mapped_vm 1 (0x800000 + page_off k) AND (PTE_U OR PTE_P) \<noteq> 0)"
    using e by (auto intro!: exI [of _ 1] simp: page_off_def)
  then show ?thesis
    using userCheck_exact [OF mapped_inv mapped_dir, of "0x800000" "0x2000" PTE_U] by simp
qed

text \<open>
  C7: The limits of that check. Whatever the page tables hold, a range whose end wraps around past
  the top of the address space is accepted without looking at a single entry. And for a range of
  at most one page's length only the entry of its first address is consulted, where being present
  is enough: a kernel-only page is accepted whatever \<open>perm\<close> asks for, as is the page that the rest
  of the range reaches into.
\<close>

theorem userCheck_gaps:
  "(unat (va + sz) \<le> unat va \<longrightarrow> userCheck pageDir va sz perm s = Some (Inr True))
   \<and> (alloc_inv s fl \<and> dir_ok s d fl \<and> sz \<le> PGSIZE \<and> va < ULIM \<and> present (entry s d va)
      \<longrightarrow> userCheck (toPhy d + KERNBASE) va sz perm s = Some (Inr True))"
proof (intro conjI impI)
  show "userCheck pageDir va sz perm s = Some (Inr True)" if "unat (va + sz) \<le> unat va"
    using that by (simp add: userCheck_def userCheck_loop.simps [of _ _ _ va] word_less_nat_alt)
  assume "alloc_inv s fl \<and> dir_ok s d fl \<and> sz \<le> PGSIZE \<and> va < ULIM \<and> present (entry s d va)"
  then have inv: "alloc_inv s fl" "dir_ok s d fl"
    and *: "sz \<le> PGSIZE" "va < ULIM" "present (entry s d va)" by simp_all
  have "unat va < 3749707776" "unat sz \<le> 4096"
    using * ULIM_unat by (simp_all add: word_less_nat_alt word_le_nat_alt PGSIZE_def)
  then have "unat (va + sz) \<le> unat va + 4096" by (subst unat_add_no_wrap) simp_all
  moreover have "accepts s d perm va"
    using * entry_present [OF *(3)] by (auto simp: accepts_def bit.conj_disj_distrib or_eq_0_iff)
  ultimately have "accepts s d perm (va + page_off k)" if "unat va + 4096 * k < unat (va + sz)" for k
    using that by (cases k) (auto simp: page_off_def)
  then show "userCheck (toPhy d + KERNBASE) va sz perm s = Some (Inr True)"
    using userCheck_result [OF inv, of va sz perm] by simp
qed

theorem userCheck_gaps_witness:
  "userCheck (toPhy 1 + KERNBASE) 0xE0000000 0x20000000 PTE_U small_vm = Some (Inr True)
   \<and> 0x2003 AND PTE_U = 0 \<and> userCheck (toPhy 1 + KERNBASE) 0x800000 1 PTE_U mapped_vm = Some (Inr True)"
  using userCheck_gaps [of "0xE0000000" "0x20000000" "toPhy 1 + KERNBASE" PTE_U small_vm]
    userCheck_gaps [of "0x800000" 1 0 PTE_U mapped_vm "[3, 4, 5, 6, 7]" 1]
    mapped_inv mapped_dir mapped_hyps(2)
  by (simp add: mmu_consts PGSIZE_def PTE_U_def del: mapped_view mapped_entry)



end
