(* ===== verification/CString.thy ===== *)
theory CString
  imports ByteMem
begin

text \<open>
  Character classes (\<open>include/ctype.h\<close>, \<open>lib/ctype.cc\<close>) and the \<open>str\<close> namespace of
  \<open>lib/string.cc\<close>. Strings are zero-terminated byte sequences in memory, as the code sees them;
  \<open>cstr m p xs\<close> says that the string at \<open>p\<close> is \<open>xs\<close>. The loops run until they meet a terminator, so
  they are partial functions with result \<open>None\<close> where there is none on their way around memory;
  the lemmas show that on strings they return.
\<close>

section \<open>Character classes\<close>

definition bytes :: "string \<Rightarrow> u8 list" where
  "bytes s = map of_char s"

lemma bytes_simps [simp]: "bytes [] = []" "bytes (c # cs) = of_char c # bytes cs"
  by (simp_all add: bytes_def)

definition isDigit :: "int \<Rightarrow> bool" where "isDigit ch \<longleftrightarrow> 48 \<le> ch \<and> ch \<le> 57"
definition isCapital :: "int \<Rightarrow> bool" where "isCapital ch \<longleftrightarrow> 65 \<le> ch \<and> ch \<le> 90"
definition isLittle :: "int \<Rightarrow> bool" where "isLittle ch \<longleftrightarrow> 97 \<le> ch \<and> ch \<le> 122"
definition isSimpleChar :: "int \<Rightarrow> bool" where "isSimpleChar ch \<longleftrightarrow> 0x20 \<le> ch \<and> ch \<le> 0x7e"

definition WHITESPACE :: "u8 list" where "WHITESPACE = [32, 9, 10, 11, 12, 13]"

primrec ws_loop :: "u8 \<Rightarrow> u8 list \<Rightarrow> bool" where
  "ws_loop ch [] = False"
| "ws_loop ch (w # ws) = (if ch = w then True else ws_loop ch ws)"

definition isWhiteSpace :: "u8 \<Rightarrow> bool" where
  "isWhiteSpace ch = ws_loop ch WHITESPACE"

lemma isWhiteSpace_iff: "isWhiteSpace ch \<longleftrightarrow> ch \<in> set WHITESPACE"
  by (simp add: isWhiteSpace_def WHITESPACE_def)

section \<open>The str namespace\<close>

partial_function (option) str_count_loop :: "mem \<Rightarrow> u32 \<Rightarrow> u32 \<Rightarrow> u32 option" where
  "str_count_loop m p len = (if m p \<noteq> 0 then str_count_loop m (p + 1) (len + 1) else Some len)"

definition str_count :: "mem \<Rightarrow> u32 \<Rightarrow> u32 option" where
  "str_count m p = str_count_loop m p 0"

text \<open>
  \<open>while (*src && count--)\<close>: the loop copies at most \<open>count\<close> bytes; the byte at its final \<open>dest\<close>
  then becomes the terminator. The result is the memory (the code returns its \<open>dest\<close> argument).
\<close>

primrec str_copy_loop :: "nat \<Rightarrow> mem \<Rightarrow> u32 \<Rightarrow> u32 \<Rightarrow> mem \<times> u32" where
  "str_copy_loop 0 m dest src = (m, dest)"
| "str_copy_loop (Suc count) m dest src =
     (if m src \<noteq> 0 then str_copy_loop count (m(dest := m src)) (dest + 1) (src + 1) else (m, dest))"

definition str_copy :: "mem \<Rightarrow> u32 \<Rightarrow> u32 \<Rightarrow> u32 \<Rightarrow> mem" where
  "str_copy m dest src count =
     (let (m', dest') = str_copy_loop (unat count) m dest src in m'(dest' := 0))"

definition SIZE_MAX :: u32 where "SIZE_MAX = 0xFFFFFFFF"

definition str_append :: "mem \<Rightarrow> u32 \<Rightarrow> u32 \<Rightarrow> mem option" where
  "str_append m dest src = map_option (\<lambda>len. str_copy m (dest + len) src SIZE_MAX) (str_count m dest)"

partial_function (option) str_cmp :: "mem \<Rightarrow> u32 \<Rightarrow> u32 \<Rightarrow> int option" where
  "str_cmp m lhs rhs =
     (if m lhs \<noteq> 0 \<and> m rhs \<noteq> 0 \<and> m lhs = m rhs then str_cmp m (lhs + 1) (rhs + 1)
      else Some (sint (m lhs) - sint (m rhs)))"

definition lower :: "u8 \<Rightarrow> u8" where
  "lower c = (if isCapital (sint c) then c - 65 + 97 else c)"

partial_function (option) str_cmpCase :: "mem \<Rightarrow> u32 \<Rightarrow> u32 \<Rightarrow> int option" where
  "str_cmpCase m lhs rhs =
     (if m lhs \<noteq> 0 \<and> m rhs \<noteq> 0 then
        let a = lower (m lhs); b = lower (m rhs) in
        if a \<noteq> b then Some (sint a - sint b) else str_cmpCase m (lhs + 1) (rhs + 1)
      else Some (sint (m lhs) - sint (m rhs)))"

text \<open>The result of \<open>find\<close> is a pointer, \<open>None\<close> standing for \<open>nullptr\<close>.\<close>

partial_function (option) str_find :: "mem \<Rightarrow> u32 \<Rightarrow> u8 \<Rightarrow> u32 option option" where
  "str_find m p c =
     (if m p \<noteq> 0 then if m p = c then Some (Some p) else str_find m (p + 1) c else Some None)"

text \<open>
  The two inner loops of \<open>split\<close>: the first blanks delimiters, the second runs to the end of a
  piece. \<open>resultBuf\<close> is a list of pointers, \<open>0\<close> for \<open>NULL\<close>, that does not overlap the strings.
\<close>

partial_function (option) split_skip :: "mem \<Rightarrow> u32 \<Rightarrow> u32 \<Rightarrow> (mem \<times> u32) option" where
  "split_skip m s delims =
     (if m s = 0 then Some (m, s)
      else case str_find m delims (m s) of
        None \<Rightarrow> None
      | Some r \<Rightarrow> if r \<noteq> None then split_skip (m(s := 0)) (s + 1) delims else Some (m, s))"

partial_function (option) split_scan ::
  "mem \<Rightarrow> u32 \<Rightarrow> u32 \<Rightarrow> u32 list \<Rightarrow> nat \<Rightarrow> bool \<Rightarrow> bool \<Rightarrow> (mem \<times> u32 \<times> u32 list \<times> bool) option" where
  "split_scan m s delims buf count ignoreQuo quo =
     (if m s = 0 then Some (m, s, buf, quo)
      else case (if quo then Some None else str_find m delims (m s)) of
        None \<Rightarrow> None
      | Some r \<Rightarrow>
          if r \<noteq> None then Some (m, s, buf, quo)
          else if \<not> ignoreQuo \<and> m s = 34
          then split_scan (m(s := 0)) (s + 1) delims
                 (if \<not> quo then buf[count - 1 := s + 1] else buf) count ignoreQuo (\<not> quo)
          else split_scan m (s + 1) delims buf count ignoreQuo quo)"

partial_function (option) split_loop ::
  "mem \<Rightarrow> u32 \<Rightarrow> u32 \<Rightarrow> u32 list \<Rightarrow> u32 \<Rightarrow> u32 \<Rightarrow> bool \<Rightarrow> bool \<Rightarrow> (mem \<times> u32 list \<times> u32 \<times> bool) option" where
  "split_loop m s delims buf count bufCount ignoreQuo quo =
     (if count < bufCount - 1 then
        case split_skip m s delims of
          None \<Rightarrow> None
        | Some ms \<Rightarrow>
            if (fst ms) (snd ms) = 0 then Some (fst ms, buf, count, quo)
            else case split_scan (fst ms) (snd ms) delims (buf[unat count := snd ms])
                        (unat count + 1) ignoreQuo quo of
              None \<Rightarrow> None
            | Some r \<Rightarrow> split_loop (fst r) (fst (snd r)) delims (fst (snd (snd r))) (count + 1)
                          bufCount ignoreQuo (snd (snd (snd r)))
      else Some (m, buf, count, quo))"

definition str_split ::
  "mem \<Rightarrow> u32 \<Rightarrow> u32 \<Rightarrow> u32 list \<Rightarrow> u32 \<Rightarrow> bool \<Rightarrow> (int \<times> mem \<times> u32 list) option" where
  "str_split m s delims buf bufCount ignoreQuo =
     (if s = 0 then Some (-1, m, buf)
      else case split_loop m s delims buf 0 bufCount ignoreQuo False of
        None \<Rightarrow> None
      | Some r \<Rightarrow> (let (m', buf', count, quo) = r in
          if quo then Some (-1, m', buf')
          else Some (sint count, m', buf'[unat count := 0])))"

text \<open>\<open>ws\<close> is the address of the constant array \<open>WHITESPACE\<close>.\<close>

definition str_splitWs :: "u32 \<Rightarrow> mem \<Rightarrow> u32 \<Rightarrow> u32 list \<Rightarrow> u32 \<Rightarrow> (int \<times> mem \<times> u32 list) option" where
  "str_splitWs ws m s buf bufCount = str_split m s ws buf bufCount True"

section \<open>Strings in memory\<close>

primrec seg :: "mem \<Rightarrow> u32 \<Rightarrow> u8 list \<Rightarrow> bool" where
  "seg m p [] = True"
| "seg m p (x # xs) = (m p = x \<and> x \<noteq> 0 \<and> seg m (p + 1) xs)"

definition cstr :: "mem \<Rightarrow> u32 \<Rightarrow> u8 list \<Rightarrow> bool" where
  "cstr m p xs \<longleftrightarrow> seg m p xs \<and> m (p + of_nat (length xs)) = 0"

lemma cstr_Nil [simp]: "cstr m p [] \<longleftrightarrow> m p = 0"
  by (simp add: cstr_def)

lemma cstr_Cons [simp]: "cstr m p (x # xs) \<longleftrightarrow> m p = x \<and> x \<noteq> 0 \<and> cstr m (p + 1) xs"
  by (auto simp: cstr_def add.assoc)

lemma seg_append: "seg m p (xs @ ys) \<longleftrightarrow> seg m p xs \<and> seg m (p + of_nat (length xs)) ys"
  by (induction xs arbitrary: p) (auto simp: add.assoc)

lemma cstr_append: "cstr m p (xs @ ys) \<longleftrightarrow> seg m p xs \<and> cstr m (p + of_nat (length xs)) ys"
  by (auto simp: cstr_def seg_append add.assoc)

lemma seg_nth: "seg m p xs \<Longrightarrow> i < length xs \<Longrightarrow> m (p + of_nat i) = xs ! i \<and> xs ! i \<noteq> 0"
proof (induction xs arbitrary: p i)
  case (Cons x xs)
  then show ?case using Cons.IH [of "p + 1"] by (cases i) (auto simp: add.assoc)
qed simp

lemma seg_cong:
  "(\<And>i. i < length xs \<Longrightarrow> m (p + of_nat i) = m' (p + of_nat i)) \<Longrightarrow> seg m p xs = seg m' p xs"
proof (induction xs arbitrary: p)
  case (Cons x xs)
  have "seg m (p + 1) xs = seg m' (p + 1) xs"
    using Cons.prems [of "Suc _"] by (intro Cons.IH) (simp add: add.assoc)
  then show ?case using Cons.prems [of 0] by simp
qed simp

lemma cstr_cong:
  "(\<And>i. i \<le> length xs \<Longrightarrow> m (p + of_nat i) = m' (p + of_nat i)) \<Longrightarrow> cstr m p xs = cstr m' p xs"
  unfolding cstr_def using seg_cong [of xs m p m'] by simp

text \<open>A string has no repeated address: its terminator would be met before wrapping around.\<close>

lemma cstr_length: "cstr m p xs \<Longrightarrow> length xs < 4294967296"
proof (rule ccontr)
  assume c: "cstr m p xs" and "\<not> length xs < 4294967296"
  then have "length xs - 4294967296 < length xs" "4294967296 \<le> length xs" by simp_all
  have "(of_nat (length xs - 4294967296) :: u32) = of_nat (length xs)"
    using \<open>4294967296 \<le> length xs\<close> by (subst of_nat_diff) simp_all
  moreover have "m (p + of_nat (length xs - 4294967296)) \<noteq> 0"
    using seg_nth [of m p xs "length xs - 4294967296"] c \<open>length xs - 4294967296 < length xs\<close>
    unfolding cstr_def by presburger
  ultimately show False using c unfolding cstr_def by presburger
qed

lemma cstr_nonzero: "cstr m p xs \<Longrightarrow> 0 \<notin> set xs"
  unfolding cstr_def by (metis in_set_conv_nth seg_nth)

lemma cstr_unique: "cstr m p xs \<Longrightarrow> cstr m p ys \<Longrightarrow> xs = ys"
proof (induction xs arbitrary: p ys)
  case Nil
  then show ?case by (cases ys) auto
next
  case (Cons x xs)
  then show ?case by (cases ys) auto
qed


section \<open>Counting, finding and comparing\<close>

lemma str_count_loop_ok: "cstr m p xs \<Longrightarrow> str_count_loop m p len = Some (len + of_nat (length xs))"
  by (induction xs arbitrary: p len) (auto simp: str_count_loop.simps [of m] add.assoc)

lemma str_count_ok: "cstr m p xs \<Longrightarrow> str_count m p = Some (of_nat (length xs))"
  by (simp add: str_count_def str_count_loop_ok)

lemma str_find_ok:
  "cstr m p xs \<Longrightarrow> str_find m p c
     = Some (if c \<in> set xs then Some (p + of_nat (length (takeWhile (\<lambda>x. x \<noteq> c) xs))) else None)"
  by (induction xs arbitrary: p) (auto simp: str_find.simps [of m] add.assoc)

lemma str_find_in: "cstr m p xs \<Longrightarrow> \<exists>r. str_find m p c = Some r \<and> (r \<noteq> None \<longleftrightarrow> c \<in> set xs)"
  by (simp add: str_find_ok)

text \<open>Comparison as the code does it, on lists: the first difference, the terminator being a zero.\<close>

fun cmp_spec :: "u8 list \<Rightarrow> u8 list \<Rightarrow> int" where
  "cmp_spec (x # xs) (y # ys) = (if x = y then cmp_spec xs ys else sint x - sint y)"
| "cmp_spec [] ys = - sint (hd (ys @ [0]))"
| "cmp_spec (x # xs) [] = sint x"

lemma cstr_hd: "cstr m q ys \<Longrightarrow> m q = hd (ys @ [0])"
  by (cases ys) auto

lemma str_cmp_ok: "cstr m p xs \<Longrightarrow> cstr m q ys \<Longrightarrow> str_cmp m p q = Some (cmp_spec xs ys)"
proof (induction xs ys arbitrary: p q rule: cmp_spec.induct)
  case (2 ys)
  then show ?case using cstr_hd [of m q ys] by (simp add: str_cmp.simps [of m])
next
  case (3 x xs)
  then show ?case by (simp add: str_cmp.simps [of m])
qed (simp add: str_cmp.simps [of m])

fun cmpCase_spec :: "u8 list \<Rightarrow> u8 list \<Rightarrow> int" where
  "cmpCase_spec (x # xs) (y # ys) =
     (if lower x = lower y then cmpCase_spec xs ys else sint (lower x) - sint (lower y))"
| "cmpCase_spec [] ys = - sint (hd (ys @ [0]))"
| "cmpCase_spec (x # xs) [] = sint x"

lemma str_cmpCase_ok: "cstr m p xs \<Longrightarrow> cstr m q ys \<Longrightarrow> str_cmpCase m p q = Some (cmpCase_spec xs ys)"
proof (induction xs ys arbitrary: p q rule: cmpCase_spec.induct)
  case (2 ys)
  then show ?case using cstr_hd [of m q ys] by (simp add: str_cmpCase.simps [of m])
next
  case (3 x xs)
  then show ?case by (simp add: str_cmpCase.simps [of m])
qed (simp add: str_cmpCase.simps [of m] Let_def)

lemma cmp_spec_zero: "0 \<notin> set xs \<Longrightarrow> 0 \<notin> set ys \<Longrightarrow> cmp_spec xs ys = 0 \<longleftrightarrow> xs = ys"
proof (induction xs ys rule: cmp_spec.induct)
  case (2 ys)
  then show ?case using sint_eq_iff8 [of 0] by (cases ys) (auto simp del: sint_eq_iff8)
next
  case (3 x xs)
  then show ?case using sint_eq_iff8 [of x 0] by (auto simp del: sint_eq_iff8)
qed auto

lemma cmpCase_spec_zero:
  "0 \<notin> set xs \<Longrightarrow> 0 \<notin> set ys \<Longrightarrow> cmpCase_spec xs ys = 0 \<longleftrightarrow> map lower xs = map lower ys"
proof (induction xs ys rule: cmpCase_spec.induct)
  case (2 ys)
  then show ?case using sint_eq_iff8 [of 0] by (cases ys) (auto simp del: sint_eq_iff8)
next
  case (3 x xs)
  then show ?case using sint_eq_iff8 [of x 0] by (auto simp del: sint_eq_iff8)
qed auto

section \<open>Copying\<close>

text \<open>The bytes \<open>zs\<close> laid over memory from address \<open>d\<close> on.\<close>

definition overlay :: "mem \<Rightarrow> u32 \<Rightarrow> u8 list \<Rightarrow> mem" where
  "overlay m d zs = (\<lambda>a. if unat (a - d) < length zs then zs ! unat (a - d) else m a)"

text \<open>Address ranges that do not meet; both are cyclic intervals of the address space.\<close>

definition apart :: "u32 \<Rightarrow> nat \<Rightarrow> u32 \<Rightarrow> nat \<Rightarrow> bool" where
  "apart d n s k \<longleftrightarrow> (\<forall>a. unat (a - d) < n \<longrightarrow> \<not> unat (a - s) < k)"

lemma dist_self: "unat (d - (d + 1) :: u32) = 4294967295"
  by (simp add: unsigned_minus_1_eq_mask mask_eq_exp_minus_1)

lemma dist_shift:
  "unat (a - (d + 1) :: u32) < k \<Longrightarrow> k \<le> 4294967295 \<Longrightarrow> unat (a - d) < Suc k"
  using dist_Suc [of a d] dist_self [of d] by (cases "a = d") auto

lemma apart_shift:
  assumes "apart d (Suc n) s (Suc k)" "n \<le> 4294967295" "k \<le> 4294967295"
  shows "apart (d + 1) n (s + 1) k"
  using assms dist_shift [of _ d n] dist_shift [of _ s k] unfolding apart_def by blast

lemma overlay_Cons:
  assumes "length zs < 4294967295"
  shows "overlay (m(d := z)) (d + 1) zs = overlay m d (z # zs)"
proof (rule ext)
  fix a
  show "overlay (m(d := z)) (d + 1) zs a = overlay m d (z # zs) a"
  proof (cases "a = d")
    case True
    then show ?thesis using dist_self [of d] assms by (simp add: overlay_def)
  next
    case False
    then have "a - d \<noteq> 0" by simp
    then have "unat (a - d) = Suc (unat (a - (d + 1)))"
      using dist_Suc [of a d] by simp
    then show ?thesis using False by (simp add: overlay_def)
  qed
qed


text \<open>The copy loop with its bound: the first \<open>n\<close> bytes arrive, the rest of memory is untouched.\<close>

lemma str_copy_loop_ok:
  "cstr m src xs \<Longrightarrow> apart dest (Suc (min n (length xs))) src (Suc (length xs)) \<Longrightarrow>
   str_copy_loop n m dest src
     = (overlay m dest (take n xs), dest + of_nat (min n (length xs)))"
proof (induction n arbitrary: m dest src xs)
  case 0
  then show ?case by (simp add: overlay_def)
next
  case (Suc n)
  show ?case
  proof (cases xs)
    case Nil
    then show ?thesis using Suc.prems by (simp add: overlay_def)
  next
    case (Cons x ys)
    have len: "length ys < 4294967295" using cstr_length [OF Suc.prems(1)] Cons by simp
    have away: "\<not> unat (dest - src) < Suc (length xs)"
      using Suc.prems(2) unfolding apart_def by (metis cancel_comm_monoid_add_class.diff_cancel unsigned_0 zero_less_Suc)
    have "src + 1 + of_nat i \<noteq> dest" if "i \<le> length ys" for i
    proof
      assume "src + 1 + of_nat i = dest"
      then have "dest - src = of_nat (Suc i)" by (simp add: algebra_simps)
      then have "unat (dest - src) = Suc i" using that len by (simp only: unat_of_nat32)
      then show False using away that Cons by simp
    qed
    moreover have "cstr m (src + 1) ys" using Suc.prems(1) Cons by simp
    ultimately have "cstr (m(dest := x)) (src + 1) ys"
      using cstr_cong [of ys m "src + 1" "m(dest := x)"] by simp
    moreover have "apart (dest + 1) (Suc (min n (length ys))) (src + 1) (Suc (length ys))"
      using Suc.prems(2) Cons len by (intro apart_shift) simp_all
    ultimately have "str_copy_loop n (m(dest := x)) (dest + 1) (src + 1)
        = (overlay (m(dest := x)) (dest + 1) (take n ys), dest + 1 + of_nat (min n (length ys)))"
      by (rule Suc.IH)
    then show ?thesis
      using Suc.prems(1) Cons len overlay_Cons [of "take n ys" m dest x] by (simp add: add.assoc)
  qed
qed


lemma overlay_snoc:
  assumes "length zs < 4294967296"
  shows "(overlay m d zs)(d + of_nat (length zs) := z) = overlay m d (zs @ [z])"
proof (rule ext)
  fix a
  have "unat (a - d) = length zs \<longleftrightarrow> a = d + of_nat (length zs)"
  proof
    assume "unat (a - d) = length zs"
    then have "a - d = of_nat (length zs)" using assms by (intro unat_inj32) simp
    then show "a = d + of_nat (length zs)" by (simp add: algebra_simps)
  qed (use assms in simp)
  then show "((overlay m d zs)(d + of_nat (length zs) := z)) a = overlay m d (zs @ [z]) a"
    by (auto simp: overlay_def nth_append)
qed

lemma overlay_nth: "i < length zs \<Longrightarrow> i < 4294967296 \<Longrightarrow> overlay m d zs (d + of_nat i) = zs ! i"
  by (simp add: overlay_def)

lemma seg_list:
  "(\<And>i. i < length zs \<Longrightarrow> m (d + of_nat i) = zs ! i) \<Longrightarrow> 0 \<notin> set zs \<Longrightarrow> seg m d zs"
proof (induction zs arbitrary: d)
  case (Cons z zs)
  have "seg m (d + 1) zs"
    using Cons.prems(1) [of "Suc _"] Cons.prems(2) by (intro Cons.IH) (auto simp: add.assoc)
  then show ?case using Cons.prems(1) [of 0] Cons.prems(2) by auto
qed simp

lemma cstr_overlay:
  assumes "0 \<notin> set zs" "length zs < 4294967296"
  shows "cstr (overlay m d (zs @ [0])) d zs"
proof -
  have "overlay m d (zs @ [0]) (d + of_nat i) = (zs @ [0]) ! i" if "i \<le> length zs" for i
    using that assms(2) by (intro overlay_nth) auto
  then show ?thesis
    unfolding cstr_def using assms(1) by (auto intro!: seg_list simp: nth_append)
qed

lemma str_copy_ok:
  assumes "cstr m src xs" "apart dest (Suc (min (unat n) (length xs))) src (Suc (length xs))"
  shows "str_copy m dest src n = overlay m dest (take (unat n) xs @ [0])"
proof -
  have len: "min (unat n) (length xs) < 4294967296" using cstr_length [OF assms(1)] by simp
  show ?thesis
    using str_copy_loop_ok [OF assms] len overlay_snoc [of "take (unat n) xs" m dest 0]
    by (simp add: str_copy_def min.commute)
qed

section \<open>Splitting\<close>

text \<open>
  What \<open>split\<close> computes when quotes are ignored: at most \<open>n\<close> pieces between delimiters. When the
  buffer has room for only one more piece, that piece is the unbroken rest of the string.
\<close>

primrec pieces :: "('a \<Rightarrow> bool) \<Rightarrow> nat \<Rightarrow> 'a list \<Rightarrow> 'a list list" where
  "pieces D 0 xs = []"
| "pieces D (Suc n) xs =
     (let ys = dropWhile D xs in
      if ys = [] then []
      else (if n = 0 then ys else takeWhile (\<lambda>x. \<not> D x) ys) # pieces D n (dropWhile (\<lambda>x. \<not> D x) ys))"

definition blank :: "mem \<Rightarrow> u32 \<Rightarrow> nat \<Rightarrow> mem" where
  "blank m s k = overlay m s (replicate k 0)"

lemma blank_Suc: "k < 4294967295 \<Longrightarrow> blank (m(s := 0)) (s + 1) k = blank m s (Suc k)"
  using overlay_Cons [of "replicate k 0" m s 0] by (simp add: blank_def)

lemma blank_0 [simp]: "blank m s 0 = m"
  by (simp add: blank_def overlay_def)

lemma blank_apply: "blank m s k a = (if unat (a - s) < k then 0 else m a)"
  by (simp add: blank_def overlay_def)

text \<open>The delimiter string is out of reach of the writes.\<close>

lemma cstr_blank:
  "cstr m d ds \<Longrightarrow> apart s k d (Suc (length ds)) \<Longrightarrow> cstr (blank m s k) d ds"
proof (rule iffD1 [OF cstr_cong])
  fix i assume ap: "apart s k d (Suc (length ds))" and i: "i \<le> length ds" and c: "cstr m d ds"
  have "unat (d + of_nat i - d) < Suc (length ds)" using i cstr_length [OF c] by simp
  then have "\<not> unat (d + of_nat i - s) < k" using ap unfolding apart_def by blast
  then show "m (d + of_nat i) = blank m s k (d + of_nat i)" by (simp add: blank_apply)
qed

lemma split_skip_ok:
  "cstr m s xs \<Longrightarrow> cstr m d ds \<Longrightarrow> apart s (length xs) d (Suc (length ds)) \<Longrightarrow>
   split_skip m s d = Some (blank m s (length (takeWhile (\<lambda>x. x \<in> set ds) xs)),
     s + of_nat (length (takeWhile (\<lambda>x. x \<in> set ds) xs)))"
proof (induction xs arbitrary: m s)
  case Nil
  then show ?case by (simp add: split_skip.simps [of m])
next
  case (Cons x xs)
  have len: "length xs < 4294967295" "length ds < 4294967296"
    using cstr_length [OF Cons.prems(1)] cstr_length [OF Cons.prems(2)] by simp_all
  obtain r where r: "str_find m d x = Some r" "r \<noteq> None \<longleftrightarrow> x \<in> set ds"
    using str_find_in [OF Cons.prems(2)] by blast
  show ?case
  proof (cases "x \<in> set ds")
    case False
    then show ?thesis using Cons.prems(1) r by (auto simp: split_skip.simps [of m])
  next
    case True
    have ap: "apart s (Suc (length xs)) d (Suc (length ds))" using Cons.prems(3) by simp
    have b1: "m(s := 0) = blank m s 1" using blank_Suc [of 0 m s] by simp
    have "apart s 1 d (Suc (length ds))" using ap by (auto simp: apart_def)
    then have "cstr (m(s := 0)) d ds" unfolding b1 by (rule cstr_blank [OF Cons.prems(2)])
    moreover have "cstr (m(s := 0)) (s + 1) xs"
    proof (rule iffD1 [OF cstr_cong [of xs m]])
      show "cstr m (s + 1) xs" using Cons.prems(1) by simp
      fix i assume "i \<le> length xs"
      then have "unat (s + 1 + of_nat i - s) \<noteq> 0"
        using len by (simp add: unat_of_nat32 [of "Suc i", simplified])
      then show "m (s + 1 + of_nat i) = (m(s := 0)) (s + 1 + of_nat i)" by auto
    qed
    moreover have "apart (s + 1) (length xs) d (Suc (length ds))"
      using ap dist_shift [of _ s "length xs"] len by (auto simp: apart_def)
    ultimately have "split_skip (m(s := 0)) (s + 1) d
        = Some (blank (m(s := 0)) (s + 1) (length (takeWhile (\<lambda>x. x \<in> set ds) xs)),
            s + 1 + of_nat (length (takeWhile (\<lambda>x. x \<in> set ds) xs)))"
      using Cons.IH by blast
    moreover have "length (takeWhile (\<lambda>x. x \<in> set ds) xs) < 4294967295"
      using length_takeWhile_le [of "\<lambda>x. x \<in> set ds" xs] len by simp
    ultimately show ?thesis
      using Cons.prems(1) r True blank_Suc by (auto simp: split_skip.simps [of m] add.assoc)
  qed
qed

lemma split_scan_ok:
  "cstr m s xs \<Longrightarrow> cstr m d ds \<Longrightarrow>
   split_scan m s d buf c True False
     = Some (m, s + of_nat (length (takeWhile (\<lambda>x. x \<notin> set ds) xs)), buf, False)"
proof (induction xs arbitrary: s)
  case Nil
  then show ?case by (simp add: split_scan.simps [of m])
next
  case (Cons x xs)
  obtain r where r: "str_find m d x = Some r" "r \<noteq> None \<longleftrightarrow> x \<in> set ds"
    using str_find_in [OF Cons.prems(2)] by blast
  then show ?case using Cons by (auto simp: split_scan.simps [of m] add.assoc)
qed


lemma dist_add:
  assumes "unat (a - (s + of_nat k) :: u32) < l" "k + l \<le> 4294967296"
  shows "unat (a - s) = k + unat (a - (s + of_nat k))"
proof -
  have "a - s = (a - (s + of_nat k)) + of_nat k" by simp
  then show ?thesis using assms by (simp only: unat_add_of_nat)
qed

lemma dist_before:
  assumes "i < k" "k + l \<le> 4294967296"
  shows "\<not> unat ((s :: u32) + of_nat i - (s + of_nat k)) < l"
proof
  assume "unat (s + of_nat i - (s + of_nat k)) < l"
  from dist_add [OF this assms(2)] have "k \<le> unat ((of_nat i :: u32))" by simp
  then show False using assms by simp
qed

lemma split_loop_ok:
  fixes ds :: "u8 list"
  defines "D \<equiv> \<lambda>x. x \<in> set ds"
  shows "\<lbrakk>cstr m s xs; cstr m d ds; apart s (length xs) d (Suc (length ds));
     unat count + n = unat (bufCount - 1); unat count + n \<le> length buf\<rbrakk> \<Longrightarrow>
   \<exists>m' buf'. split_loop m s d buf count bufCount True False
       = Some (m', buf', count + of_nat (length (pieces D n xs)), False)
     \<and> length buf' = length buf \<and> take (unat count) buf' = take (unat count) buf
     \<and> (\<forall>i<length (pieces D n xs). cstr m' (buf' ! (unat count + i)) (pieces D n xs ! i)
          \<and> unat (buf' ! (unat count + i) - s) < length xs)
     \<and> (\<forall>a. \<not> unat (a - s) < length xs \<longrightarrow> m' a = m a)
     \<and> (if n = 0 then m' = m else xs = [] \<or> D (hd xs) \<longrightarrow> m' s = 0)"
proof (induction n arbitrary: m s xs buf count)
  case 0
  then have "\<not> count < bufCount - 1" by (simp add: word_less_nat_alt)
  then show ?case by (simp add: split_loop.simps [of _ _ _ _ count])
next
  case (Suc n)
  let ?a = "length (takeWhile D xs)" and ?ys = "dropWhile D xs"
  let ?m1 = "blank m s ?a" and ?s1 = "s + of_nat ?a"
  have lt: "count < bufCount - 1" using Suc.prems(4) by (simp add: word_less_nat_alt)
  have split1: "xs = takeWhile D xs @ ?ys" by simp
  have lx: "length xs = ?a + length ?ys" using split1 by (metis length_append)
  have len: "length xs < 4294967296" by (rule cstr_length [OF Suc.prems(1)])
  have c1: "cstr ?m1 ?s1 ?ys"
  proof (rule iffD1 [OF cstr_cong])
    show "cstr m ?s1 ?ys" using Suc.prems(1) split1 cstr_append by metis
    fix i assume i: "i \<le> length ?ys"
    have "?s1 + of_nat i - s = of_nat (?a + i)" by simp
    then have "unat (?s1 + of_nat i - s) = ?a + i" using i lx len by (simp only: unat_of_nat32)
    then show "m (?s1 + of_nat i) = ?m1 (?s1 + of_nat i)" by (simp add: blank_apply)
  qed
  have skip: "split_skip m s d = Some (?m1, ?s1)"
    using split_skip_ok [OF Suc.prems(1-3)] by (simp add: D_def)
  have frame1: "?m1 a = m a" if "\<not> unat (a - s) < length xs" for a
    using that lx by (simp add: blank_apply)
  have m1s: "?m1 s = 0" if "xs = [] \<or> D (hd xs)"
    using that Suc.prems(1) by (cases xs) (auto simp: blank_apply)
  show ?case
  proof (cases "?ys = []")
    case True
    have "?m1 ?s1 = 0" using c1 unfolding True by simp
    then have "split_loop m s d buf count bufCount True False = Some (?m1, buf, count, False)"
      using lt skip by (simp add: split_loop.simps [of m])
    moreover have "xs = [] \<longrightarrow> m s = 0" using Suc.prems(1) by auto
    ultimately show ?thesis using True frame1 m1s by (simp add: Let_def)
  next
    case False
    let ?b = "length (takeWhile (\<lambda>x. \<not> D x) ?ys)" and ?zs = "dropWhile (\<lambda>x. \<not> D x) ?ys"
    let ?s2 = "?s1 + of_nat ?b" and ?buf1 = "buf[unat count := ?s1]"
    have split2: "?ys = takeWhile (\<lambda>x. \<not> D x) ?ys @ ?zs" by simp
    have ly: "length ?ys = ?b + length ?zs" using split2 by (metis length_append)
    have cd: "cstr ?m1 d ds"
      using Suc.prems(3) lx by (intro cstr_blank [OF Suc.prems(2)]) (auto simp: apart_def)
    have scan: "split_scan ?m1 ?s1 d ?buf1 (unat count + 1) True False = Some (?m1, ?s2, ?buf1, False)"
      using split_scan_ok [OF c1 cd] by (simp add: D_def)
    have c2: "seg ?m1 ?s1 (takeWhile (\<lambda>x. \<not> D x) ?ys)" "cstr ?m1 ?s2 ?zs"
      using c1 split2 cstr_append by metis+
    have s2: "?s2 = s + of_nat (?a + ?b)" by (simp add: add.assoc)
    have inside: "unat (a - s) < length xs" if "unat (a - ?s2) < length ?zs" for a
      using dist_add [OF that [unfolded s2]] that lx ly len s2 by simp
    have "apart ?s2 (length ?zs) d (Suc (length ds))"
      using Suc.prems(3) inside by (auto simp: apart_def)
    moreover have c': "unat (count + 1) = unat count + 1"
      using lt by (simp add: unat_word_ariths word_less_nat_alt)
        (metis Suc_leI lt mod_less order_le_less_trans unat_lt_2p32 word_less_nat_alt)
    ultimately obtain m' buf' where IH: "split_loop ?m1 ?s2 d ?buf1 (count + 1) bufCount True False
          = Some (m', buf', count + 1 + of_nat (length (pieces D n ?zs)), False)"
        "length buf' = length ?buf1" "take (unat (count + 1)) buf' = take (unat (count + 1)) ?buf1"
        "\<forall>i<length (pieces D n ?zs). cstr m' (buf' ! (unat (count + 1) + i)) (pieces D n ?zs ! i)
            \<and> unat (buf' ! (unat (count + 1) + i) - ?s2) < length ?zs"
        "\<forall>a. \<not> unat (a - ?s2) < length ?zs \<longrightarrow> m' a = ?m1 a"
        "if n = 0 then m' = ?m1 else ?zs = [] \<or> D (hd ?zs) \<longrightarrow> m' ?s2 = 0"
      using Suc.IH [OF c2(2) cd, of "count + 1" ?buf1] Suc.prems(4,5) by auto
    have zs: "?zs = [] \<or> D (hd ?zs)" using hd_dropWhile [of "\<lambda>x. \<not> D x" ?ys] by auto
    have c_lt: "unat count < length buf" using Suc.prems(5) by simp
    have tk: "take (Suc (unat count)) buf' = take (Suc (unat count)) ?buf1" using IH(3) c' by simp
    have "buf' ! unat count = take (Suc (unat count)) buf' ! unat count" by simp
    then have p0: "buf' ! unat count = ?s1" using c_lt by (simp add: tk)
    have "take (unat count) buf' = take (unat count) (take (Suc (unat count)) buf')" by simp
    then have p1: "take (unat count) buf' = take (unat count) buf"
      by (simp add: tk take_update_cancel)
    let ?t = "if n = 0 then ?ys else takeWhile (\<lambda>x. \<not> D x) ?ys"
    have before: "m' (s + of_nat i) = ?m1 (s + of_nat i)" if "i < ?a + ?b" for i
      using IH(5) dist_before [OF that, of "length ?zs" s] lx ly len s2 by simp
    have t0: "cstr m' ?s1 ?t"
    proof (cases "n = 0")
      case True
      then show ?thesis using IH(6) c1 by simp
    next
      case False
      have "seg m' ?s1 (takeWhile (\<lambda>x. \<not> D x) ?ys)"
        using before [of "?a + _"] by (intro iffD1 [OF seg_cong c2(1)]) (simp add: add.assoc)
      moreover have "m' ?s2 = 0" using IH(6) zs False by (meson)
      ultimately show ?thesis using False by (simp add: cstr_def)
    qed
    have pc: "pieces D (Suc n) xs = ?t # pieces D n ?zs" using False by (simp add: Let_def)
    have "m' s = 0" if "D (hd xs)"
    proof -
      have "0 < ?a" using that False by (cases xs) auto
      then show ?thesis using before [of 0] m1s that by simp
    qed
    moreover have "cstr m' (buf' ! (unat count + i)) (pieces D (Suc n) xs ! i)"
      if "i < length (pieces D (Suc n) xs)" for i
      using that p0 t0 IH(4) c' unfolding pc by (cases i) simp_all
    moreover have "unat (buf' ! (unat count + i) - s) < length xs"
      if i: "i < length (pieces D (Suc n) xs)" for i
    proof (cases i)
      case 0
      have "?a < length xs" using lx False by simp
      then have "unat (?s1 - s) < length xs" using len by (simp add: unat_of_nat32)
      then show ?thesis using 0 p0 by simp
    next
      case (Suc j)
      then have "unat (buf' ! (unat count + i) - ?s2) < length ?zs" using i IH(4) c' unfolding pc by simp
      then show ?thesis by (rule inside)
    qed
    moreover have "m' a = m a" if "\<not> unat (a - s) < length xs" for a
      using IH(5) inside frame1 that by metis
    moreover have "split_loop m s d buf count bufCount True False
        = Some (m', buf', count + of_nat (length (pieces D (Suc n) xs)), False)"
    proof -
      have "?m1 ?s1 \<noteq> 0" using c1 False by (cases ?ys) auto
      then show ?thesis
        using lt skip scan IH(1) unfolding pc by (simp add: split_loop.simps [of m])
    qed
    ultimately show ?thesis
      using IH(2) p1 False by (intro exI [of _ m'] exI [of _ buf']) auto
  qed
qed


section \<open>Properties\<close>

text \<open>
  \<open>str::copy\<close> on a string that does not overlap its destination: the destination receives the
  first \<open>n\<close> bytes of the string (all of it, if shorter) and a terminator after them, so up to
  \<open>n + 1\<close> bytes are written; no other byte of memory changes.
\<close>

lemma str_copy_bounded:
  assumes "cstr m src xs" "apart dest (Suc (min (unat n) (length xs))) src (Suc (length xs))"
  shows "cstr (str_copy m dest src n) dest (take (unat n) xs)
     \<and> (\<forall>a. \<not> unat (a - dest) < Suc (min (unat n) (length xs)) \<longrightarrow> str_copy m dest src n a = m a)"
proof -
  have "0 \<notin> set (take (unat n) xs)" using cstr_nonzero [OF assms(1)] by (meson in_set_takeD)
  moreover have "length (take (unat n) xs) < 4294967296" using cstr_length [OF assms(1)] by simp
  ultimately have "cstr (overlay m dest (take (unat n) xs @ [0])) dest (take (unat n) xs)"
    by (rule cstr_overlay)
  then show ?thesis
    unfolding str_copy_ok [OF assms] by (simp add: overlay_def min.commute)
qed

lemma apartI:
  assumes "unat d + n \<le> 4294967296" "unat s + k \<le> 4294967296"
    and "unat d + n \<le> unat s \<or> unat s + k \<le> unat d"
  shows "apart d n s k"
proof -
  have in_range: "unat a = unat p + unat (a - p)" if "unat (a - p) < l" "unat p + l \<le> 4294967296"
    for a p :: u32 and l
    using unat_add_no_wrap [of p "a - p"] that by simp
  show ?thesis
    unfolding apart_def
  proof (intro allI impI notI)
    fix a assume a: "unat (a - d) < n" "unat (a - s) < k"
    then show False
      using in_range [OF a(1) assms(1)] in_range [OF a(2) assms(2)] assms(3) by linarith
  qed
qed

definition demo_mem :: mem where
  "demo_mem = overlay (overlay (overlay (\<lambda>_. 0) 0x100 (bytes '' mem  show -v '')) 0x200 WHITESPACE)
     0x300 (bytes ''Mem'')"

lemma demo_line: "cstr demo_mem 0x100 (bytes '' mem  show -v '')"
  by (simp add: demo_mem_def overlay_def WHITESPACE_def)

lemma demo_ws: "cstr demo_mem 0x200 WHITESPACE"
  by (simp add: demo_mem_def overlay_def WHITESPACE_def)

lemma demo_name: "cstr demo_mem 0x300 (bytes ''Mem'')" "cstr demo_mem 0x301 (bytes ''em'')"
  by (simp_all add: demo_mem_def overlay_def WHITESPACE_def)

lemma str_copy_bounded_witness:
  "cstr (str_copy demo_mem 0x400 0x300 2) 0x400 (bytes ''Me'')"
  using str_copy_bounded [OF demo_name(1), of "0x400" 2]
  by (simp add: apartI del: cstr_Cons)

text \<open>
  \<open>str::append\<close> concatenates: when the destination has room beyond its terminator and the source
  lies apart from that room, the result is the string \<open>xs @ ys\<close> at the destination.
\<close>

theorem str_append_concat:
  assumes "cstr m dest xs" "cstr m src ys" "length xs + length ys < 4294967295"
    and "apart (dest + of_nat (length xs)) (Suc (length ys)) src (Suc (length ys))"
  shows "\<exists>m'. str_append m dest src = Some m' \<and> cstr m' dest (xs @ ys)"
proof -
  let ?e = "dest + of_nat (length xs)"
  have mn: "min (unat SIZE_MAX) (length ys) = length ys" "take (unat SIZE_MAX) ys = ys"
    using assms(3) by (simp_all add: SIZE_MAX_def)
  have cp: "str_copy m ?e src SIZE_MAX = overlay m ?e (ys @ [0])"
    using str_copy_ok [OF assms(2), of ?e SIZE_MAX] assms(4) mn by simp
  have "cstr (overlay m ?e (ys @ [0])) ?e ys"
    using assms(3) by (intro cstr_overlay cstr_nonzero [OF assms(2)]) simp
  moreover have "seg (overlay m ?e (ys @ [0])) dest xs"
  proof (rule iffD1 [OF seg_cong])
    show "seg m dest xs" using assms(1) by (simp add: cstr_def)
    fix i assume "i < length xs"
    then show "m (dest + of_nat i) = overlay m ?e (ys @ [0]) (dest + of_nat i)"
      using dist_before [of i "length xs" "Suc (length ys)" dest] assms(3) by (simp add: overlay_def)
  qed
  ultimately show ?thesis
    using str_count_ok [OF assms(1)] cp by (simp add: str_append_def cstr_append)
qed

theorem str_append_concat_witness:
  "\<exists>m'. str_append demo_mem 0x200 0x300 = Some m' \<and> cstr m' 0x200 (WHITESPACE @ bytes ''Mem'')"
  using str_append_concat [OF demo_ws demo_name(1)] by (simp add: WHITESPACE_def apartI)

text \<open>
  C16: The comparison routines return on every pair of strings, and return zero exactly for equal
  strings: \<open>str::cmp\<close> byte for byte, \<open>str::cmpCase\<close> after mapping capitals to small letters.
\<close>

theorem str_compare_zero:
  assumes "cstr m p xs" "cstr m q ys"
  shows "\<exists>r r'. str_cmp m p q = Some r \<and> (r = 0 \<longleftrightarrow> xs = ys)
     \<and> str_cmpCase m p q = Some r' \<and> (r' = 0 \<longleftrightarrow> map lower xs = map lower ys)"
  using str_cmp_ok [OF assms] str_cmpCase_ok [OF assms]
    cmp_spec_zero [OF cstr_nonzero [OF assms(1)] cstr_nonzero [OF assms(2)]]
    cmpCase_spec_zero [OF cstr_nonzero [OF assms(1)] cstr_nonzero [OF assms(2)]] by auto

theorem str_compare_zero_witness:
  "\<exists>r. str_cmp demo_mem 0x300 0x301 = Some r \<and> r \<noteq> 0"
  using str_compare_zero [OF demo_name] by auto

lemma splitWs_ok:
  assumes "cstr m s xs" "s \<noteq> 0" "cstr m ws WHITESPACE" "apart s (length xs) ws (Suc (length WHITESPACE))"
    and "unat bufCount = n + 1" "length buf = n + 1" "n < 2147483648"
  defines "ps \<equiv> pieces isWhiteSpace n xs"
  shows "\<exists>m' buf'. str_splitWs ws m s buf bufCount = Some (int (length ps), m', buf')
     \<and> buf' ! length ps = 0 \<and> length ps \<le> n \<and> length buf' = n + 1
     \<and> (\<forall>i<length ps. cstr m' (buf' ! i) (ps ! i) \<and> unat (buf' ! i - s) < length xs)
     \<and> (\<forall>a. \<not> unat (a - s) < length xs \<longrightarrow> m' a = m a)"
proof -
  have le: "length (pieces D k zs) \<le> k" for D k and zs :: "u8 list"
    by (induction k arbitrary: zs) (auto simp: Let_def)
  have D: "(\<lambda>x. x \<in> set WHITESPACE) = isWhiteSpace" by (auto simp: isWhiteSpace_iff)
  have bc: "unat (0 :: u32) + n = unat (bufCount - 1)"
    using assms(5) by (subst unat_minus_one) auto
  obtain m' buf' where r: "split_loop m s ws buf 0 bufCount True False
        = Some (m', buf', of_nat (length ps), False)" "length buf' = length buf"
      "\<forall>i<length ps. cstr m' (buf' ! i) (ps ! i) \<and> unat (buf' ! i - s) < length xs" "\<forall>a. \<not> unat (a - s) < length xs \<longrightarrow> m' a = m a"
    using split_loop_ok [OF assms(1,3,4) bc, of buf] assms(6) unfolding D ps_def by auto
  have lp: "length ps \<le> n" unfolding ps_def by (rule le)
  have "sint (of_nat (length ps) :: u32) = int (length ps)"
    using lp assms(7) by (simp add: signed_of_nat signed_take_bit_int_eq_self)
  then show ?thesis
    using assms(2) r lp assms(6,7)
    by (intro exI [of _ m'] exI [of _ "buf'[length ps := 0]"]) (auto simp: str_splitWs_def str_split_def)
qed

text \<open>
  C15: \<open>str::splitWs\<close> on a line \<open>xs\<close> with a result buffer of \<open>n + 1\<close> entries returns the number of
  pieces, the buffer then holds pointers to exactly the pieces of the line in order, followed by a
  null pointer, each now a string of its own; the last one that fits is the unbroken rest of the
  line. Nothing outside the line is written.
\<close>

theorem splitWs_pieces:
  assumes "cstr m s xs" "s \<noteq> 0" "cstr m ws WHITESPACE" "apart s (length xs) ws (Suc (length WHITESPACE))"
    and "unat bufCount = n + 1" "length buf = n + 1" "n < 2147483648"
  defines "ps \<equiv> pieces isWhiteSpace n xs"
  shows "\<exists>m' buf'. str_splitWs ws m s buf bufCount = Some (int (length ps), m', buf')
     \<and> buf' ! length ps = 0 \<and> length ps \<le> n
     \<and> (\<forall>i<length ps. cstr m' (buf' ! i) (ps ! i))
     \<and> (\<forall>a. \<not> unat (a - s) < length xs \<longrightarrow> m' a = m a)"
  unfolding ps_def using splitWs_ok [OF assms(1-7)] by blast

theorem splitWs_pieces_witness:
  "\<exists>m' buf'. str_splitWs 0x200 demo_mem 0x100 (replicate 3 0) 3 = Some (2, m', buf')
     \<and> cstr m' (buf' ! 0) (bytes ''mem'') \<and> cstr m' (buf' ! 1) (bytes ''show -v '') \<and> buf' ! 2 = 0"
proof -
  have p: "pieces isWhiteSpace (Suc (Suc 0)) (bytes '' mem  show -v '') = [bytes ''mem'', bytes ''show -v '']"
    by (simp add: isWhiteSpace_iff WHITESPACE_def)
  have h: "(0x100 :: u32) \<noteq> 0" "unat (3 :: u32) = Suc (Suc 0) + 1"
      "length (replicate 3 (0 :: u32)) = Suc (Suc 0) + 1" "Suc (Suc 0) < 2147483648"
      "apart 0x100 (length (bytes '' mem  show -v '')) 0x200 (Suc (length WHITESPACE))"
    by (simp_all add: WHITESPACE_def apartI)
  from splitWs_pieces [OF demo_line h(1) demo_ws h(5,2,3,4)] obtain m' buf' where
    r: "str_splitWs 0x200 demo_mem 0x100 (replicate 3 0) 3
          = Some (int (length [bytes ''mem'', bytes ''show -v '']), m', buf')"
      "buf' ! length [bytes ''mem'', bytes ''show -v ''] = 0"
    and c: "\<forall>i<length [bytes ''mem'', bytes ''show -v '']. cstr m' (buf' ! i) ([bytes ''mem'', bytes ''show -v ''] ! i)"
    unfolding p by blast
  have "cstr m' (buf' ! 0) (bytes ''mem'')" "cstr m' (buf' ! 1) (bytes ''show -v '')"
    using c [rule_format, of 0] c [rule_format, of 1] by (simp_all del: cstr_Cons bytes_simps)
  moreover have "buf' ! 2 = 0" using r(2) by (simp only: list.size) (simp add: numeral_2_eq_2)
  moreover have "int (length [bytes ''mem'', bytes ''show -v '']) = 2" by simp
  ultimately show ?thesis using r(1) by metis
qed

end
