(* ===== verification/PrintFmt.thy ===== *)
theory PrintFmt
  imports CString Results
begin

text \<open>
  Formatted output: \<open>lib/printfmt.cc\<close> with the colour macros of \<open>include/color.h\<close>. The output
  callback \<open>PutCharFunc\<close> is a state transformer \<open>put c s\<close>; format strings and arguments are read
  from memory, the argument list being a pointer that \<open>va_arg\<close> advances by the size of what it
  reads, as the i386 calling convention lays it out. A coloured character is the \<open>int\<close> handed to
  \<open>putChar\<close>.
\<close>

section \<open>Colours\<close>

definition COLOR_CHAR :: "u32 \<Rightarrow> u32 \<Rightarrow> u32 \<Rightarrow> u32" where
  "COLOR_CHAR c fore back = (c AND 0xff) OR push_bit 8 fore OR push_bit 12 back"

definition FORE_COLOR :: "u32 \<Rightarrow> u32" where "FORE_COLOR ch = drop_bit 8 ch AND 0xf"
definition BACK_COLOR :: "u32 \<Rightarrow> u32" where "BACK_COLOR ch = drop_bit 12 ch AND 0xf"

definition DEF_FORE :: u32 where "DEF_FORE = 7"
definition DEF_BACK :: u32 where "DEF_BACK = 0"
definition LIGHT_RED :: u32 where "LIGHT_RED = 12"

section \<open>Numbers\<close>

definition digit :: "bool \<Rightarrow> nat \<Rightarrow> u8" where
  "digit capital i = (if capital then bytes ''0123456789ABCDEF'' ! i else bytes ''0123456789abcdef'' ! i)"

text \<open>The padding loop \<open>while (--width > 0)\<close>, as the number of its iterations.\<close>

primrec put_times :: "(u32 \<Rightarrow> 's \<Rightarrow> 's) \<Rightarrow> u32 \<Rightarrow> nat \<Rightarrow> 's \<Rightarrow> 's" where
  "put_times put c 0 s = s"
| "put_times put c (Suc n) s = put_times put c n (put c s)"

partial_function (option) printNumber ::
  "(u32 \<Rightarrow> 's \<Rightarrow> 's) \<Rightarrow> u64 \<Rightarrow> u32 \<Rightarrow> int \<Rightarrow> u32 \<Rightarrow> bool \<Rightarrow> u32 \<Rightarrow> u32 \<Rightarrow> 's \<Rightarrow> 's option" where
  "printNumber put num base width paddingChar capital fore back s =
     Option.bind
       (if ucast base \<le> num
        then printNumber put (num div ucast base) base (width - 1) paddingChar capital fore back s
        else Some (put_times put (COLOR_CHAR paddingChar fore back) (nat (width - 1)) s))
       (\<lambda>s'. Some (put (COLOR_CHAR (ucast (digit capital (unat (num mod ucast base)))) fore back) s'))"

section \<open>Argument lists\<close>

definition load64 :: "mem \<Rightarrow> u32 \<Rightarrow> u64" where
  "load64 m a = ucast (load32 m a) OR push_bit 32 (ucast (load32 m (a + 4)))"

definition getUIntVa :: "mem \<Rightarrow> u32 \<Rightarrow> nat \<Rightarrow> u64 \<times> u32" where
  "getUIntVa m ap longFlag =
     (if longFlag = 0 then (ucast (load32 m ap), ap + 4)
      else if longFlag = 1 then (ucast (load32 m ap), ap + 4)
      else (load64 m ap, ap + 8))"

definition getIntVa :: "mem \<Rightarrow> u32 \<Rightarrow> nat \<Rightarrow> u64 \<times> u32" where
  "getIntVa m ap longFlag =
     (if longFlag = 0 then (scast (load32 m ap), ap + 4)
      else if longFlag = 1 then (scast (load32 m ap), ap + 4)
      else (load64 m ap, ap + 8))"

section \<open>Strings\<close>

primrec put_list :: "(u32 \<Rightarrow> 's \<Rightarrow> 's) \<Rightarrow> u32 \<Rightarrow> u32 \<Rightarrow> u8 list \<Rightarrow> 's \<Rightarrow> 's" where
  "put_list put fore back [] s = s"
| "put_list put fore back (c # cs) s = put_list put fore back cs (put (COLOR_CHAR (scast c) fore back) s)"

partial_function (option) put_str :: "(u32 \<Rightarrow> 's \<Rightarrow> 's) \<Rightarrow> mem \<Rightarrow> u32 \<Rightarrow> u32 \<Rightarrow> u32 \<Rightarrow> 's \<Rightarrow> 's option" where
  "put_str put m str fore back s =
     (if m str \<noteq> 0 then put_str put m (str + 1) fore back (put (COLOR_CHAR (scast (m str)) fore back) s)
      else Some s)"

text \<open>\<open>for (width -= len; width > 0; width--)\<close>: the difference is taken modulo 2^32.\<close>

definition put_padding :: "(u32 \<Rightarrow> 's \<Rightarrow> 's) \<Rightarrow> int \<Rightarrow> u32 \<Rightarrow> u8 \<Rightarrow> u32 \<Rightarrow> u32 \<Rightarrow> 's \<Rightarrow> 's" where
  "put_padding put width len paddingChar fore back s =
     put_times put (COLOR_CHAR (scast paddingChar) fore back) (nat (sint (word_of_int width - len :: u32))) s"

definition NULL_FMT :: "u8 list" where "NULL_FMT = bytes ''(null)''"

section \<open>Directives\<close>

partial_function (option) width_loop :: "mem \<Rightarrow> u8 \<Rightarrow> u32 \<Rightarrow> int \<Rightarrow> (int \<times> u32) option" where
  "width_loop m ch fmt width =
     (let width = 10 * width + (sint ch - 48); ch = m fmt in
      if \<not> isDigit (sint ch) then Some (width, fmt) else width_loop m ch (fmt + 1) width)"

text \<open>The flags after a percent sign, up to the conversion character.\<close>

partial_function (option) flags_loop ::
  "mem \<Rightarrow> u32 \<Rightarrow> u8 \<Rightarrow> int \<Rightarrow> nat \<Rightarrow> (u8 \<times> u32 \<times> u8 \<times> int \<times> nat) option" where
  "flags_loop m fmt paddingChar width longFlag =
     (let ch = m fmt; fmt = fmt + 1 in
      if ch = 48 then flags_loop m fmt 48 width longFlag
      else if isDigit (sint ch) then
        case width_loop m ch fmt 0 of None \<Rightarrow> None
        | Some r \<Rightarrow> flags_loop m (snd r) paddingChar (fst r) longFlag
      else if ch = 108 then flags_loop m fmt paddingChar width (longFlag + 1)
      else Some (ch, fmt, paddingChar, width, longFlag))"

text \<open>The conversion itself: new argument pointer, colours and output state.\<close>

definition convert ::
  "(u32 \<Rightarrow> 's \<Rightarrow> 's) \<Rightarrow> mem \<Rightarrow> u8 \<Rightarrow> u8 \<Rightarrow> int \<Rightarrow> nat \<Rightarrow> u32 \<Rightarrow> u32 \<Rightarrow> u32 \<Rightarrow> 's \<Rightarrow>
     (u32 \<times> u32 \<times> u32 \<times> 's) option" where
  "convert put m ch paddingChar width longFlag ap fore back s =
     (let pad = scast paddingChar;
          number = (\<lambda>num base width pad capital ap s.
            map_option (\<lambda>s. (ap, fore, back, s)) (printNumber put num base width pad capital fore back s))
      in
      if ch = 117 then \<comment> \<open>u\<close>
        (let (num, ap) = getUIntVa m ap longFlag in number num 10 width pad False ap s)
      else if ch = 100 then \<comment> \<open>d\<close>
        (let (num, ap) = getIntVa m ap longFlag in
         if sint num < 0 then number (- num) 10 width pad False ap (put (COLOR_CHAR 45 fore back) s)
         else number num 10 width pad False ap s)
      else if ch = 88 \<or> ch = 120 then \<comment> \<open>X, x\<close>
        (let (num, ap) = getUIntVa m ap longFlag in number num 16 width pad (ch = 88) ap s)
      else if ch = 79 \<or> ch = 111 then \<comment> \<open>O, o\<close>
        (let (num, ap) = getUIntVa m ap longFlag in number num 8 width pad (ch = 79) ap s)
      else if ch = 115 then \<comment> \<open>s\<close>
        (let str = load32 m ap; ap = ap + 4 in
         if str = 0 then Some (ap, fore, back, put_list put fore back NULL_FMT
              (put_padding put width (of_nat (length NULL_FMT)) paddingChar fore back s))
         else case str_count m str of None \<Rightarrow> None
         | Some len \<Rightarrow> map_option (\<lambda>s. (ap, fore, back, s))
             (put_str put m str fore back (put_padding put width len paddingChar fore back s)))
      else if ch = 112 \<or> ch = 80 then \<comment> \<open>p, P\<close>
        number (ucast (load32 m ap)) 16 8 48 (ch = 80) (ap + 4) s
      else if ch = 114 then \<comment> \<open>r\<close>
        (let result = load32 m ap; ap = ap + 4; num = scast result :: u64;
             str = bytes (describe_result result);
             s = put_list put fore back str
               (put_padding put width (of_nat (length str)) paddingChar fore back s) in
         if num \<noteq> 0 then
           map_option (\<lambda>s. (ap, fore, back, put (COLOR_CHAR 93 fore back) s))
             (printNumber put num 10 0 0 False fore back (put_list put fore back (bytes '' [E'' @ [0]) s))
         else Some (ap, fore, back, s))
      else if ch = 99 then Some (ap + 4, fore, back, put (COLOR_CHAR (load32 m ap) fore back) s) \<comment> \<open>c\<close>
      else if ch = 60 then Some (ap + 4, load32 m ap, back, s) \<comment> \<open>foreground\<close>
      else if ch = 62 then Some (ap + 4, fore, load32 m ap, s) \<comment> \<open>background\<close>
      else if ch = 37 then Some (ap, fore, back, put (COLOR_CHAR (scast ch) fore back) s)
      else Some (ap, fore, back, put (COLOR_CHAR (scast ch) fore back) (put (COLOR_CHAR 37 fore back) s)))"

partial_function (option) printFmt_loop ::
  "(u32 \<Rightarrow> 's \<Rightarrow> 's) \<Rightarrow> mem \<Rightarrow> u32 \<Rightarrow> u32 \<Rightarrow> u32 \<Rightarrow> u32 \<Rightarrow> 's \<Rightarrow> 's option" where
  "printFmt_loop put m fmt ap fore back s =
     (let ch = m fmt; fmt = fmt + 1 in
      if ch \<noteq> 37 then
        if ch = 0 then Some s
        else printFmt_loop put m fmt ap fore back (put (COLOR_CHAR (scast ch) fore back) s)
      else case flags_loop m fmt 32 (-1) 0 of None \<Rightarrow> None
      | Some f \<Rightarrow>
          (case convert put m (fst f) (fst (snd (snd f))) (fst (snd (snd (snd f))))
             (snd (snd (snd (snd f)))) ap fore back s of None \<Rightarrow> None
           | Some r \<Rightarrow> printFmt_loop put m (fst (snd f)) (fst r) (fst (snd r)) (fst (snd (snd r)))
               (snd (snd (snd r)))))"

definition printFmtVa ::
  "(u32 \<Rightarrow> 's \<Rightarrow> 's) \<Rightarrow> mem \<Rightarrow> u32 \<Rightarrow> u32 \<Rightarrow> u32 \<Rightarrow> u32 \<Rightarrow> 's \<Rightarrow> 's option" where
  "printFmtVa put m fmt ap defFore defBack s = printFmt_loop put m fmt ap defFore defBack s"


section \<open>Characters emitted\<close>

text \<open>
  What a routine emits does not depend on the state of the sink: it is computed once with the
  sink that collects characters in a list, and every other sink is fed those characters.
\<close>

abbreviation collect :: "u32 \<Rightarrow> u32 list \<Rightarrow> u32 list" where
  "collect c cs \<equiv> cs @ [c]"

definition feed :: "(u32 \<Rightarrow> 's \<Rightarrow> 's) \<Rightarrow> u32 list \<Rightarrow> 's \<Rightarrow> 's" where
  "feed put cs s = fold put cs s"

lemma feed_simps [simp]:
  "feed put [] s = s" "feed put (c # cs) s = feed put cs (put c s)"
  "feed put (cs @ ds) s = feed put ds (feed put cs s)"
  by (simp_all add: feed_def)

lemma feed_collect: "feed collect cs ds = ds @ cs"
  by (induction cs arbitrary: ds) simp_all

lemma put_times_feed: "put_times put c n s = feed put (replicate n c) s"
  by (induction n arbitrary: s) simp_all

definition colored :: "u32 \<Rightarrow> u32 \<Rightarrow> u8 list \<Rightarrow> u32 list" where
  "colored fore back cs = map (\<lambda>c. COLOR_CHAR (scast c) fore back) cs"

lemma colored_simps [simp]:
  "colored fore back [] = []" "colored fore back (c # cs) = COLOR_CHAR (scast c) fore back # colored fore back cs"
  "colored fore back (xs @ ys) = colored fore back xs @ colored fore back ys"
  by (simp_all add: colored_def)

lemma put_list_feed: "put_list put fore back cs s = feed put (colored fore back cs) s"
  by (induction cs arbitrary: s) simp_all

lemma put_str_feed: "cstr m p cs \<Longrightarrow> put_str put m p fore back s = Some (feed put (colored fore back cs) s)"
  by (induction cs arbitrary: p s) (simp_all add: put_str.simps [of put m])

section \<open>Numbers\<close>

text \<open>The digits of \<open>n\<close> in base \<open>b\<close>, most significant first.\<close>

fun digits :: "nat \<Rightarrow> nat \<Rightarrow> nat list" where
  "digits b n = (if n < b \<or> b < 2 then [n mod b] else digits b (n div b) @ [n mod b])"

declare digits.simps [simp del]

lemma digits_small [simp]: "n < b \<Longrightarrow> digits b n = [n]"
  by (simp add: digits.simps)

lemma digits_step: "2 \<le> b \<Longrightarrow> b \<le> n \<Longrightarrow> digits b n = digits b (n div b) @ [n mod b]"
  by (simp add: digits.simps [of b n])

lemma digits_lt: "2 \<le> b \<Longrightarrow> d \<in> set (digits b n) \<Longrightarrow> d < b"
proof (induction b n rule: digits.induct)
  case (1 b n)
  then show ?case by (cases "n < b") (auto simp: digits_step not_less)
qed

lemma digits_nonempty: "digits b n \<noteq> []"
  by (simp add: digits.simps [of b n])

definition horner :: "nat \<Rightarrow> nat list \<Rightarrow> nat" where
  "horner b ds = foldl (\<lambda>acc d. acc * b + d) 0 ds"

lemma horner_digits: "2 \<le> b \<Longrightarrow> horner b (digits b n) = n"
proof (induction b n rule: digits.induct)
  case (1 b n)
  then show ?case by (cases "n < b") (simp_all add: digits_step horner_def not_less)
qed

definition number_chars :: "nat \<Rightarrow> int \<Rightarrow> u32 \<Rightarrow> bool \<Rightarrow> u32 \<Rightarrow> u32 \<Rightarrow> nat \<Rightarrow> u32 list" where
  "number_chars base width pad capital fore back n =
     replicate (nat (width - int (length (digits base n)))) (COLOR_CHAR pad fore back)
       @ map (\<lambda>d. COLOR_CHAR (ucast (digit capital d)) fore back) (digits base n)"

lemma printNumber_feed:
  assumes "2 \<le> base"
  shows "printNumber put num base width pad capital fore back s
    = Some (feed put (number_chars (unat base) width pad capital fore back (unat num)) s)"
proof (induction "unat num" arbitrary: num width rule: less_induct)
  case less
  have b: "2 \<le> unat base" using assms by (simp add: word_le_nat_alt)
  have ub: "unat (ucast base :: u64) = unat base"
    using unat_lt_2p32 [of base] by (simp add: unsigned_ucast_eq take_bit_nat_eq_self)
  show ?case
  proof (cases "ucast base \<le> num")
    case False
    then have "unat num < unat base" by (simp add: word_le_nat_alt ub not_le)
    then show ?thesis
      using False by (simp add: printNumber.simps [of put num] number_chars_def put_times_feed
        unat_mod ub)
  next
    case True
    then have le: "unat base \<le> unat num" by (simp add: word_le_nat_alt ub)
    have dv: "unat (num div ucast base) = unat num div unat base" by (simp add: unat_div ub)
    have "unat (num div ucast base) < unat num" using le b unfolding dv by (intro div_less_dividend) auto
    from less [OF this, of "width - 1"] show ?thesis
      using True le b by (simp add: printNumber.simps [of put num] number_chars_def dv digits_step
        unat_mod ub algebra_simps)
  qed
qed


section \<open>Sinks do not matter\<close>

lemma put_str_cstr:
  assumes "put_str put m p f b s = Some s'"
  shows "\<exists>cs. cstr m p cs"
  using assms
proof (induction put m p f b s s' rule: put_str.raw_induct [rotated, consumes 1])
  case (1 loop put m p f b s s')
  show ?case
  proof (cases "m p = 0")
    case False
    then have "\<exists>cs. cstr m (p + 1) cs" using 1 by auto
    then obtain cs where "cstr m p (m p # cs)" using False by auto
    then show ?thesis ..
  qed (auto intro: exI [of _ "[]"])
qed

lemma put_str_sink:
  "put_str put m p fore back s = map_option (\<lambda>cs. feed put cs s) (put_str collect m p fore back [])"
proof (cases "\<exists>cs. cstr m p cs")
  case True
  then show ?thesis by (auto simp: put_str_feed feed_collect)
next
  case False
  then have "put_str put m p fore back s = None" "put_str collect m p fore back [] = None"
    using put_str_cstr by (metis not_None_eq)+
  then show ?thesis by simp
qed

lemma number_bases:
  "printNumber put num 10 width pad capital fore back s
     = Some (feed put (number_chars 10 width pad capital fore back (unat num)) s)"
  "printNumber put num 16 width pad capital fore back s
     = Some (feed put (number_chars 16 width pad capital fore back (unat num)) s)"
  "printNumber put num 8 width pad capital fore back s
     = Some (feed put (number_chars 8 width pad capital fore back (unat num)) s)"
  using printNumber_feed [of 10] printNumber_feed [of 16] printNumber_feed [of 8] by simp_all

lemma put_padding_feed:
  "put_padding put width len pad fore back s
     = feed put (replicate (nat (sint (word_of_int width - len :: u32))) (COLOR_CHAR (scast pad) fore back)) s"
  by (simp add: put_padding_def put_times_feed)

lemmas emit_simps = put_list_feed put_padding_feed number_bases put_times_feed feed_collect

lemma convert_sink:
  "convert put m ch pad width lf ap fore back s
     = map_option (\<lambda>(ap', f', b', cs). (ap', f', b', feed put cs s))
         (convert collect m ch pad width lf ap fore back [])"
  unfolding convert_def Let_def
  by (cases "str_count m (load32 m ap)"; cases "getUIntVa m ap lf"; cases "getIntVa m ap lf")
    (simp_all add: number_bases emit_simps option.map_comp comp_def
      put_str_sink [of put] put_str_sink [of collect _ _ _ _ "replicate _ _"] cong: if_cong option.case_cong)


lemma printFmt_loop_sink:
  assumes "printFmt_loop put m fmt ap f b s = Some s'"
  shows "\<exists>cs. s' = feed put cs s \<and> (\<forall>put' t. printFmt_loop put' m fmt ap f b t = Some (feed put' cs t))"
  using assms
proof (induction put m fmt ap f b s s' rule: printFmt_loop.raw_induct [rotated, consumes 1])
  case (1 loop put m fmt ap f b s s')
  let ?ch = "m fmt"
  show ?case
  proof (cases "?ch = 37")
    case False
    show ?thesis
    proof (cases "?ch = 0")
      case True
      then have "s' = feed put [] s" using 1(2) by simp
      moreover have "printFmt_loop put' m fmt ap f b t = Some (feed put' [] t)" for put' and t :: 'b
        using True by (simp add: printFmt_loop.simps [of put'])
      ultimately show ?thesis by blast
    next
      case nz: False
      let ?c = "COLOR_CHAR (scast ?ch) f b"
      have "loop put m (fmt + 1) ap f b (put ?c s) = Some s'"
        using 1(2) False nz by (simp add: Let_def)
      from 1(1) [OF this] obtain cs where cs: "s' = feed put cs (put ?c s)"
          "\<forall>put' t. printFmt_loop put' m (fmt + 1) ap f b t = Some (feed put' cs (t :: 'b))"
        by auto
      have "printFmt_loop put' m fmt ap f b t = Some (feed put' (?c # cs) t)" for put' and t :: 'b
        using False nz cs(2) by (simp add: printFmt_loop.simps [of put' m fmt])
      moreover have "s' = feed put (?c # cs) s" using cs(1) by simp
      ultimately show ?thesis by blast
    qed
  next
    case True
    obtain ch fm pad w lf where fl: "flags_loop m (fmt + 1) 32 (-1) 0 = Some (ch, fm, pad, w, lf)"
      using 1(2) True by (auto simp: Let_def split: option.splits)
    obtain ap' f' b' s1 where cv: "convert put m ch pad w lf ap f b s = Some (ap', f', b', s1)"
      using 1(2) True fl by (auto simp: Let_def split: option.splits)
    obtain ds where ds: "convert collect m ch pad w lf ap f b [] = Some (ap', f', b', ds)"
        "s1 = feed put ds s"
      using cv convert_sink [of put m ch pad w lf ap f b s] by auto
    have "loop put m fm ap' f' b' s1 = Some s'"
      using 1(2) True fl cv by (simp add: Let_def)
    from 1(1) [OF this] obtain cs where cs: "s' = feed put cs s1"
        "\<forall>put' t. printFmt_loop put' m fm ap' f' b' t = Some (feed put' cs (t :: 'b))"
      by auto
    have "printFmt_loop put' m fmt ap f b t = Some (feed put' (ds @ cs) t)" for put' and t :: 'b
      using True fl ds(1) cs(2) convert_sink [of put' m ch pad w lf ap f b t]
      by (simp add: printFmt_loop.simps [of put' m fmt] Let_def)
    moreover have "s' = feed put (ds @ cs) s" using cs(1) ds(2) by simp
    ultimately show ?thesis by blast
  qed
qed

text \<open>The characters a call of \<open>printFmtVa\<close> emits.\<close>

definition rendered :: "mem \<Rightarrow> u32 \<Rightarrow> u32 \<Rightarrow> u32 \<Rightarrow> u32 \<Rightarrow> u32 list option" where
  "rendered m fmt ap f b = printFmtVa collect m fmt ap f b []"

lemma printFmtVa_feed: "printFmtVa put m fmt ap f b s = map_option (\<lambda>cs. feed put cs s) (rendered m fmt ap f b)"
proof (cases "printFmtVa put m fmt ap f b s")
  case None
  have "rendered m fmt ap f b = None"
  proof (cases "rendered m fmt ap f b")
    case (Some r)
    then show ?thesis
      using printFmt_loop_sink [of collect m fmt ap f b "[]" r] None
      unfolding rendered_def printFmtVa_def by (metis option.distinct(1))
  qed
  then show ?thesis using None by simp
next
  case (Some s')
  then obtain cs where cs: "s' = feed put cs s"
      "\<forall>put' t. printFmt_loop put' m fmt ap f b t = Some (feed put' cs (t :: u32 list))"
    using printFmt_loop_sink [of put m fmt ap f b s s', where ?'b = "u32 list"]
    unfolding printFmtVa_def by auto
  then have "rendered m fmt ap f b = Some cs"
    unfolding rendered_def printFmtVa_def by (simp add: feed_collect)
  then show ?thesis using Some cs(1) by simp
qed


section \<open>Formats that end\<close>

lemma printFmt_lit:
  "seg m fmt lit \<Longrightarrow> 37 \<notin> set lit \<Longrightarrow>
   printFmt_loop put m fmt ap f b s
     = printFmt_loop put m (fmt + of_nat (length lit)) ap f b (feed put (colored f b lit) s)"
proof (induction lit arbitrary: fmt s)
  case (Cons c lit)
  then show ?case by (simp add: printFmt_loop.simps [of put m fmt] add.assoc)
qed simp

lemma exists_cstr:
  assumes "m a = 0"
  shows "\<exists>xs. cstr m p xs"
proof (induction "unat (a - p)" arbitrary: p)
  case 0
  then have "a = p" by (simp add: unat_eq_zero)
  then have "cstr m p []" using assms by simp
  then show ?case ..
next
  case (Suc n)
  then have "a \<noteq> p" by auto
  then have "n = unat (a - (p + 1))" using Suc(2) dist_Suc [of a p] by simp
  then obtain xs where "cstr m (p + 1) xs" using Suc(1) by blast
  then have "cstr m p (if m p = 0 then [] else m p # xs)" by simp
  then show ?case ..
qed

text \<open>
  A format whose directives all reach their conversion character before the string ends. After a
  lone percent sign at the end the code would consume the terminator and read on.
\<close>

fun wf_fmt :: "u8 list \<Rightarrow> bool" and wf_dir :: "u8 list \<Rightarrow> bool" where
  "wf_fmt [] = True"
| "wf_fmt (c # cs) = (if c = 37 then wf_dir cs else wf_fmt cs)"
| "wf_dir [] = False"
| "wf_dir (c # cs) = (if isDigit (sint c) \<or> c = 108 then wf_dir cs else wf_fmt cs)"

lemma width_loop_ok:
  "cstr m fmt xs \<Longrightarrow> wf_dir xs \<Longrightarrow>
   \<exists>w fm ys. width_loop m ch fmt width = Some (w, fm) \<and> cstr m fm ys \<and> wf_dir ys \<and> length ys \<le> length xs"
proof (induction xs arbitrary: ch fmt width)
  case (Cons x xs)
  show ?case
  proof (cases "isDigit (sint x)")
    case True
    have h: "cstr m (fmt + 1) xs" "wf_dir xs" "m fmt = x" using Cons.prems True by auto
    obtain w fm ys where "width_loop m x (fmt + 1) (10 * width + (sint ch - 48)) = Some (w, fm)"
        "cstr m fm ys" "wf_dir ys" "length ys \<le> length xs"
      using Cons.IH [OF h(1,2)] by blast
    then show ?thesis
      using True h(3) by (auto simp: width_loop.simps [of m ch] Let_def intro!: exI [of _ ys])
  next
    case False
    have "m fmt = x" using Cons.prems by simp
    then show ?thesis
      using Cons.prems False
      by (intro exI [of _ "10 * width + (sint ch - 48)"] exI [of _ fmt] exI [of _ "x # xs"])
        (simp add: width_loop.simps [of m ch])
  qed
qed simp

lemma flags_loop_ok:
  "cstr m fmt xs \<Longrightarrow> wf_dir xs \<Longrightarrow>
   \<exists>ch fm p w l ys. flags_loop m fmt pad width lf = Some (ch, fm, p, w, l)
     \<and> cstr m fm ys \<and> wf_fmt ys \<and> length ys < length xs"
proof (induction "length xs" arbitrary: xs fmt pad width lf rule: less_induct)
  case less
  then obtain x xs' where xs: "xs = x # xs'" by (cases xs) auto
  have h: "m fmt = x" "cstr m (fmt + 1) xs'" using less.prems(1) xs by simp_all
  show ?case
  proof (cases "isDigit (sint x) \<or> x = 108")
    case False
    then have "x \<noteq> 48" by (auto simp: isDigit_def)
    then show ?thesis
      using False h less.prems(2) xs by (auto simp: flags_loop.simps [of m fmt] Let_def intro!: exI [of _ xs'])
  next
    case dig: True
    then have wf: "wf_dir xs'" using less.prems(2) xs by auto
    show ?thesis
    proof (cases "isDigit (sint x) \<and> x \<noteq> 48")
      case True
      obtain w fm ys where w: "width_loop m x (fmt + 1) 0 = Some (w, fm)" "cstr m fm ys" "wf_dir ys"
          "length ys \<le> length xs'"
        using width_loop_ok [OF h(2) wf] by blast
      have "length ys < length xs" using w(4) xs by simp
      from less.hyps [OF this w(2,3), of pad w lf] show ?thesis
        using True h(1) w(1,4) xs by (force simp: flags_loop.simps [of m fmt] Let_def)
    next
      case False
      have len: "length xs' < length xs" using xs by simp
      show ?thesis
        using less.hyps [OF len h(2) wf, of 48 width lf] less.hyps [OF len h(2) wf, of pad width "lf + 1"]
          False dig h(1) xs
        by (cases "x = 48") (force simp: flags_loop.simps [of m fmt] Let_def isDigit_def)+
    qed
  qed
qed

lemma convert_total: "m a = 0 \<Longrightarrow> \<exists>r. convert put m ch pad width lf ap f b s = Some r"
proof -
  assume "m a = 0"
  then obtain xs where xs: "cstr m (load32 m ap) xs" using exists_cstr by blast
  show ?thesis
    unfolding convert_def
    by (cases "getUIntVa m ap lf"; cases "getIntVa m ap lf")
      (simp add: Let_def number_bases str_count_ok [OF xs] put_str_feed [OF xs])
qed

lemma printFmt_loop_total:
  "cstr m fmt xs \<Longrightarrow> wf_fmt xs \<Longrightarrow> \<exists>s'. printFmt_loop put m fmt ap f b s = Some s'"
proof (induction "length xs" arbitrary: xs fmt ap f b s rule: less_induct)
  case less
  show ?case
  proof (cases xs)
    case Nil
    then show ?thesis using less.prems(1) by (simp add: printFmt_loop.simps [of put m fmt])
  next
    case (Cons x xs')
    then have h: "m fmt = x" "x \<noteq> 0" "cstr m (fmt + 1) xs'" using less.prems(1) by simp_all
    show ?thesis
    proof (cases "x = 37")
      case False
      then have "wf_fmt xs'" using less.prems(2) Cons by simp
      then show ?thesis
        using less.hyps [OF _ h(3)] Cons False h(1,2) by (simp add: printFmt_loop.simps [of put m fmt])
    next
      case True
      then have "wf_dir xs'" using less.prems(2) Cons by simp
      then obtain ch fm p w l ys where fl: "flags_loop m (fmt + 1) 32 (-1) 0 = Some (ch, fm, p, w, l)"
          "cstr m fm ys" "wf_fmt ys" "length ys < length xs'"
        using flags_loop_ok [OF h(3), of 32 "-1" 0] by blast
      have "m (fmt + of_nat (length xs)) = 0" using less.prems(1) by (simp add: cstr_def)
      then obtain ap' f' b' s' where "convert put m ch p w l ap f b s = Some (ap', f', b', s')"
        using convert_total [of m] by (metis prod_cases4)
      moreover have "\<exists>s''. printFmt_loop put m fm ap' f' b' s' = Some s''"
        using less.hyps [OF _ fl(2,3)] fl(4) Cons by simp
      ultimately show ?thesis
        using True h(1) fl(1) by (simp add: printFmt_loop.simps [of put m fmt] Let_def)
    qed
  qed
qed


section \<open>Output sinks\<close>

text \<open>
  What the callers of \<open>printFmtVa\<close> rely on in a \<open>putChar\<close>: characters handed to it are appended
  to what has been seen so far. \<open>good\<close> is the sink's invariant and \<open>shown c\<close> what \<open>c\<close> contributes.
\<close>

locale char_sink =
  fixes put :: "u32 \<Rightarrow> 's \<Rightarrow> 's" and good :: "'s \<Rightarrow> bool" and seen :: "'s \<Rightarrow> 'c list"
    and shown :: "u32 \<Rightarrow> 'c list"
  assumes good_put: "good s \<Longrightarrow> good (put c s)"
    and seen_put: "good s \<Longrightarrow> seen (put c s) = seen s @ shown c"
begin

lemma feed_good: "good s \<Longrightarrow> good (feed put cs s)"
  by (induction cs arbitrary: s) (simp_all add: good_put)

lemma feed_seen: "good s \<Longrightarrow> seen (feed put cs s) = seen s @ concat (map shown cs)"
  by (induction cs arbitrary: s) (simp_all add: good_put seen_put)

lemma print_seen:
  "good s \<Longrightarrow> printFmtVa put m fmt ap f b s = Some s' \<Longrightarrow>
   \<exists>cs. rendered m fmt ap f b = Some cs \<and> good s' \<and> seen s' = seen s @ concat (map shown cs)"
  by (auto simp: printFmtVa_feed feed_good feed_seen)

end

section \<open>Properties\<close>

lemma digits_hd: "2 \<le> b \<Longrightarrow> n \<noteq> 0 \<Longrightarrow> hd (digits b n) \<noteq> 0"
proof (induction b n rule: digits.induct)
  case (1 b n)
  then show ?case
    by (cases "n < b") (simp_all add: digits_step digits_nonempty not_less div_eq_0_iff)
qed

text \<open>
  C12: \<open>printNumber\<close> in base 2 to 16 terminates for every 64-bit number and emits its digits in that
  base, most significant first, without leading zeros, preceded by just as many padding characters
  as the field width exceeds the number of digits.
\<close>

theorem printNumber_field:
  assumes "2 \<le> base" "base \<le> 16"
  shows "\<exists>ds. printNumber put num base width pad capital fore back s
       = Some (feed put (replicate (nat (width - int (length ds))) (COLOR_CHAR pad fore back)
           @ map (\<lambda>d. COLOR_CHAR (ucast (digit capital d)) fore back) ds) s)
     \<and> horner (unat base) ds = unat num \<and> (\<forall>d\<in>set ds. d < unat base) \<and> (hd ds = 0 \<longrightarrow> ds = [0])"
proof -
  have b: "2 \<le> unat base" using assms(1) by (simp add: word_le_nat_alt)
  have "hd (digits (unat base) (unat num)) = 0 \<Longrightarrow> digits (unat base) (unat num) = [0]"
    using digits_hd [OF b, of "unat num"] b by (cases "unat num = 0") auto
  then show ?thesis
    using printNumber_feed [OF assms(1)] horner_digits [OF b] digits_lt [OF b]
    unfolding number_chars_def by (intro exI [of _ "digits (unat base) (unat num)"]) auto
qed

theorem printNumber_field_witness:
  "\<exists>ds. printNumber collect 0x2A 16 4 48 True 7 0 [] =
       Some (replicate (nat (4 - int (length ds))) (COLOR_CHAR 48 7 0)
         @ map (\<lambda>d. COLOR_CHAR (ucast (digit True d)) 7 0) ds) \<and> horner 16 ds = 42"
  using printNumber_field [of 16 collect "0x2A" 4 48 True 7 0 "[]"] by (auto simp: feed_collect)

text \<open>
  C10: \<open>printFmtVa\<close> returns on every format whose directives are complete, whatever the arguments are,
  and what it emits depends on format and arguments alone: every \<open>putChar\<close> callback is called on the
  same characters in the same order.
\<close>

theorem printFmt_returns:
  assumes "cstr m fmt xs" "wf_fmt xs"
  shows "\<exists>cs. rendered m fmt ap f b = Some cs \<and> (\<forall>put s. printFmtVa put m fmt ap f b s = Some (fold put cs s))"
proof -
  obtain cs where "rendered m fmt ap f b = Some cs"
    using printFmt_loop_total [OF assms, of collect ap f b "[]"] unfolding rendered_def printFmtVa_def by blast
  then show ?thesis using printFmtVa_feed [of _ m fmt ap f b] by (auto simp: feed_def)
qed

definition demo_fmt :: mem where
  "demo_fmt = overlay (store32 (\<lambda>_. 0) 0x500 0xFFFFFFD6) 0x100 (bytes ''n=%d!'')"

lemma demo_fmt_cstr: "cstr demo_fmt 0x100 (bytes ''n='' @ [37, 100] @ bytes ''!'')"
  by (simp add: demo_fmt_def overlay_def store32_other)

lemma demo_fmt_arg: "load32 demo_fmt 0x500 = 0xFFFFFFD6"
  by (simp add: demo_fmt_def load32_def overlay_def store32_def mask_eq_exp_minus_1)

theorem printFmt_returns_witness:
  "\<exists>cs. rendered demo_fmt 0x100 0x500 7 0 = Some cs"
  using printFmt_returns [OF demo_fmt_cstr, of "0x500" 7 0] by (auto simp: isDigit_def)



end
