(* ===== verification/Strtol.thy ===== *)
theory Strtol
  imports PrintFmt
begin

text \<open>
  \<open>str::toLong\<close> of \<open>lib/strtol.cc\<close>. The accumulator is a \<open>long long\<close>, the result a 32-bit \<open>long\<close>;
  both wrap around, so that the result is the value of the digits modulo \<open>2^32\<close>. A character read
  into the \<open>int\<close> variable \<open>c\<close> is sign-extended.
\<close>

section \<open>The routine\<close>

partial_function (option) tl_skip :: "mem \<Rightarrow> u32 \<Rightarrow> (int \<times> u32) option" where
  "tl_skip m str = (let c = m str; str = str + 1 in
     if isWhiteSpace c then tl_skip m str else Some (sint c, str))"

definition digit_val :: "int \<Rightarrow> int option" where
  "digit_val c = (if isDigit c then Some (c - 48)
     else if isCapital c then Some (c - (65 - 10))
     else if isLittle c then Some (c - (97 - 10)) else None)"

partial_function (option) tl_digits :: "mem \<Rightarrow> u32 \<Rightarrow> int \<Rightarrow> int \<Rightarrow> u64 \<Rightarrow> u64 option" where
  "tl_digits m str c base acc =
     (case digit_val c of None \<Rightarrow> Some acc
      | Some v \<Rightarrow> if base \<le> v then Some acc
          else tl_digits m (str + 1) (sint (m str)) base (acc * of_int base + of_int v))"

text \<open>After the sign: the prefix, the base in effect and the digits.\<close>

definition tl_number :: "mem \<Rightarrow> u32 \<Rightarrow> int \<Rightarrow> int \<Rightarrow> u64 option" where
  "tl_number m str c base =
     (if (base = 0 \<or> base = 16) \<and> c = 48 \<and> (m str = 120 \<or> m str = 88)
      then tl_digits m (str + 2) (sint (m (str + 1))) 16 0
      else if base = 0 then (if c = 48 then tl_digits m str c 8 0 else tl_digits m str c 10 0)
      else tl_digits m str c base 0)"

definition toLong :: "mem \<Rightarrow> u32 \<Rightarrow> int \<Rightarrow> u32 option" where
  "toLong m ptr base =
     Option.bind (tl_skip m ptr) (\<lambda>(c, str).
       let neg = (c = 45);
           (c, str) = (if c = 45 \<or> c = 43 then (sint (m str), str + 1) else (c, str)) in
       map_option (\<lambda>acc. ucast (if neg then - acc else acc)) (tl_number m str c base))"

section \<open>The value of a numeral\<close>

definition is_digit :: "int \<Rightarrow> u8 \<Rightarrow> bool" where
  "is_digit base c \<longleftrightarrow> (\<exists>v. digit_val (sint c) = Some v \<and> v < base)"

definition numeral_value :: "int \<Rightarrow> u8 list \<Rightarrow> int" where
  "numeral_value base ds = foldl (\<lambda>a c. a * base + the (digit_val (sint c))) 0 ds"

definition prefix_of :: "int \<Rightarrow> u8 list \<Rightarrow> int \<times> u8 list" where
  "prefix_of base xs =
     (if (base = 0 \<or> base = 16) \<and> length xs \<ge> 2 \<and> xs ! 0 = 48 \<and> xs ! 1 \<in> {120, 88} then (16, drop 2 xs)
      else if base = 0 then (if xs \<noteq> [] \<and> xs ! 0 = 48 then 8 else 10, xs)
      else (base, xs))"

lemma tl_skip_ok:
  "cstr m p (ws @ ys) \<Longrightarrow> \<forall>c\<in>set ws. isWhiteSpace c \<Longrightarrow> \<not> isWhiteSpace (hd (ys @ [0])) \<Longrightarrow>
   tl_skip m p = Some (sint (hd (ys @ [0])), p + of_nat (length ws) + 1)"
proof (induction ws arbitrary: p)
  case Nil
  then show ?case by (cases ys) (auto simp: tl_skip.simps [of m])
next
  case (Cons w ws)
  then show ?case by (simp add: tl_skip.simps [of m p] add.assoc)
qed

lemma digit_val_0 [simp]: "digit_val 0 = None"
  by (simp add: digit_val_def isDigit_def isCapital_def isLittle_def)

lemma is_digit_0 [simp]: "\<not> is_digit base 0"
  by (simp add: is_digit_def)

lemma tl_digits_ok:
  "cstr m p (ds @ post) \<Longrightarrow> \<forall>c\<in>set ds. is_digit base c \<Longrightarrow> \<not> is_digit base (hd (post @ [0])) \<Longrightarrow>
   tl_digits m (p + 1) (sint (hd (ds @ post @ [0]))) base acc
     = Some (foldl (\<lambda>a c. a * of_int base + of_int (the (digit_val (sint c)))) acc ds)"
proof (induction ds arbitrary: p acc)
  case Nil
  then show ?case
    by (auto simp: tl_digits.simps [of m "p + 1"] is_digit_def not_less split: option.split)
next
  case (Cons d ds)
  then obtain v where v: "digit_val (sint d) = Some v" "v < base" by (auto simp: is_digit_def)
  have c: "cstr m (p + 1) (ds @ post)" using Cons.prems(1) by simp
  have "m (p + 1) = hd (ds @ post @ [0])" using cstr_hd [OF c] by simp
  then show ?case
    using Cons.IH [OF c] Cons.prems(2,3) v by (simp add: tl_digits.simps [of m "p + 1"] not_le)
qed

lemma foldl_of_int:
  "foldl (\<lambda>a c. a * of_int base + of_int (f c)) (of_int k) ds
     = (of_int (foldl (\<lambda>a c. a * base + f c) k ds) :: 'a::len word)"
  by (induction ds arbitrary: k) (simp_all flip: of_int_mult of_int_add)

lemma ucast_of_int: "(ucast (of_int k :: u64) :: u32) = of_int k"
  by (rule bit_word_eqI) (simp add: bit_simps)


lemma sint_small_eq: "k < 128 \<Longrightarrow> sint (x :: u8) = int k \<longleftrightarrow> x = of_nat k"
proof -
  assume "k < 128"
  then have "sint (of_nat k :: u8) = int k" by (simp add: signed_of_nat signed_take_bit_int_eq_self)
  then show ?thesis using sint_eq_iff8 [of x "of_nat k"] by simp
qed

lemma sint_chars:
  "sint (x :: u8) = 45 \<longleftrightarrow> x = 45" "sint x = 43 \<longleftrightarrow> x = 43" "sint x = 48 \<longleftrightarrow> x = 48"
  using sint_small_eq [of 45 x] sint_small_eq [of 43 x] sint_small_eq [of 48 x] by simp_all

lemma tl_number_ok:
  assumes body: "cstr m q body" and px: "prefix_of base body = (b, ds @ post)"
    and ds: "\<forall>c\<in>set ds. is_digit b c" "\<not> is_digit b (hd (post @ [0]))"
  shows "tl_number m (q + 1) (sint (m q)) base = Some (of_int (numeral_value b ds))"
proof -
  have mq: "m q = hd (body @ [0])" using cstr_hd [OF body] .
  have dig: "tl_digits m (r + 1) (sint (m r)) b 0 = Some (of_int (numeral_value b ds))"
    if "cstr m r (ds @ post)" for r
    using tl_digits_ok [OF that ds, of 0] cstr_hd [OF that]
      foldl_of_int [of b "\<lambda>c. the (digit_val (sint c))" 0 ds] by (simp add: numeral_value_def)
  show ?thesis
  proof (cases "(base = 0 \<or> base = 16) \<and> length body \<ge> 2 \<and> body ! 0 = 48 \<and> body ! 1 \<in> {120, 88}")
    case True
    then obtain x y zs where b: "body = x # y # zs"
      by (cases body; cases "tl body") auto
    then have "b = 16" "zs = ds @ post" using px True by (auto simp: prefix_of_def)
    then show ?thesis
      using True b body dig [of "q + 2"] by (auto simp: tl_number_def sint_chars add.assoc)
  next
    case False
    then have px': "ds @ post = body" "b = (if base = 0 then if body \<noteq> [] \<and> body ! 0 = 48 then 8 else 10 else base)"
      using px unfolding prefix_of_def if_not_P [OF False] by (auto split: if_splits)
    have np: "\<not> ((base = 0 \<or> base = 16) \<and> m q = 48 \<and> (m (q + 1) = 120 \<or> m (q + 1) = 88))"
      using False body cstr_hd [of m "q + 1" "tl body"] by (cases body; cases "tl body") auto
    have eq: "m q = 48 \<longleftrightarrow> body \<noteq> [] \<and> body ! 0 = 48" using body by (cases body) auto
    have "tl_number m (q + 1) (sint (m q)) base = tl_digits m (q + 1) (sint (m q)) b 0"
      unfolding tl_number_def sint_chars if_not_P [OF np] px'(2) eq [symmetric] by simp
    then show ?thesis using dig [of q] body px'(1) by simp
  qed
qed

lemma toLong_ok:
  assumes c: "cstr m p (ws @ sg @ body)"
    and ws: "\<forall>c\<in>set ws. isWhiteSpace c" "\<not> isWhiteSpace (hd (sg @ body @ [0]))"
    and sg: "sg \<in> {[], [43], [45]}" "sg = [] \<longrightarrow> hd (body @ [0]) \<notin> {43, 45}"
    and px: "prefix_of base body = (b, ds @ post)"
    and ds: "\<forall>c\<in>set ds. is_digit b c" "\<not> is_digit b (hd (post @ [0]))"
  shows "toLong m p base = Some (of_int (if sg = [45] then - numeral_value b ds else numeral_value b ds))"
proof -
  let ?q = "p + of_nat (length ws)"
  have skip: "tl_skip m p = Some (sint (hd (sg @ body @ [0])), ?q + 1)"
    using tl_skip_ok [OF c ws(1)] ws(2) by simp
  have body: "cstr m (?q + of_nat (length sg)) body" using c by (simp add: cstr_append)
  note num = tl_number_ok [OF body px ds] and hd = cstr_hd [OF body]
  have u: "(ucast (- of_int k :: u64) :: u32) = - of_int k" for k
    using ucast_of_int [of "- k"] by simp
  consider "sg = []" | "sg = [43]" | "sg = [45]" using sg(1) by blast
  then show ?thesis
  proof cases
    case 1
    then show ?thesis
      using skip num hd sg(2) by (simp add: toLong_def sint_chars ucast_of_int)
  next
    case 2
    then show ?thesis using skip num by (simp add: toLong_def ucast_of_int add.assoc)
  next
    case 3
    then show ?thesis using skip num by (simp add: toLong_def u add.assoc)
  qed
qed


lemma digit_table:
  "list_all (\<lambda>d. digit_val (sint (digit c d)) = Some (int d) \<and> \<not> isWhiteSpace (digit c d)
     \<and> digit c d \<noteq> 43 \<and> digit c d \<noteq> 45 \<and> (digit c d = 48 \<longleftrightarrow> d = 0) \<and> digit c d \<noteq> 0) [0..<16]"
proof -
  have "[0..<16] = [0, 1, 2, 3, 4, 5, 6, 7, 8, 9, 10, 11, 12, 13, 14, 15]" by code_simp
  then show ?thesis
    by (cases c) (simp_all add: digit_def digit_val_def isDigit_def isCapital_def
      isLittle_def isWhiteSpace_iff WHITESPACE_def)
qed

lemma digit_char: "d < 16 \<Longrightarrow> digit_val (sint (digit capital d)) = Some (int d)
   \<and> \<not> isWhiteSpace (digit capital d) \<and> digit capital d \<notin> {43, 45}
   \<and> (digit capital d = 48 \<longleftrightarrow> d = 0) \<and> digit capital d \<noteq> 0"
  using digit_table [of capital] by (simp add: list_all_iff del: upt_Suc)

lemma digit_val_digit: "d < 16 \<Longrightarrow> digit_val (sint (digit capital d)) = Some (int d)"
  by (simp add: digit_char)

lemma numeral_value_digits:
  "\<forall>d\<in>set ds. d < 16 \<Longrightarrow> numeral_value (int b) (map (digit capital) ds) = int (horner b ds)"
proof -
  have "\<forall>d\<in>set ds. d < 16 \<Longrightarrow>
      foldl (\<lambda>a c. a * int b + the (digit_val (sint c))) (int k) (map (digit capital) ds)
        = int (foldl (\<lambda>a d. a * b + d) k ds)" for k
  proof (induction ds arbitrary: k)
    case (Cons d ds)
    then have "int k * int b + the (digit_val (sint (digit capital d))) = int (k * b + d)"
      by (simp add: digit_val_digit)
    then show ?case using Cons.IH [of "k * b + d"] Cons.prems by simp
  qed simp
  from this [of 0] show "\<forall>d\<in>set ds. d < 16 \<Longrightarrow> ?thesis" by (simp add: numeral_value_def horner_def)
qed

lemma COLOR_CHAR_plain: "COLOR_CHAR (ucast (x :: u8)) 0 0 = ucast x"
proof -
  have "ucast x AND (mask 8 :: u32) = ucast x"
    using bit_imp_le_length [of x] by (auto intro!: bit_word_eqI simp: bit_simps)
  then show ?thesis by (simp add: COLOR_CHAR_def mask_eq_exp_minus_1)
qed

lemma ucast_down_up: "ucast (ucast (x :: u8) :: u32) = x"
  by (rule bit_word_eqI) (auto simp: bit_simps)

section \<open>Properties\<close>

text \<open>
  C13: The value of a numeral. On a string of white space, an optional sign, an optional prefix and
  digits (a \<open>0x\<close> prefix is accepted in base 16 and selects it in base 0, where a leading zero selects
  base 8 and anything else base 10), \<open>toLong\<close> returns the signed value of the longest run of digits
  of the base in effect, modulo \<open>2^32\<close>; whatever follows is ignored, and no digits give zero.
\<close>

theorem toLong_numeral:
  assumes c: "cstr m p (ws @ sg @ body)"
    and ws: "\<forall>c\<in>set ws. isWhiteSpace c" "\<not> isWhiteSpace (hd (sg @ body @ [0]))"
    and sg: "sg \<in> {[], [43], [45]}" "sg = [] \<longrightarrow> hd (body @ [0]) \<notin> {43, 45}"
    and px: "prefix_of base body = (b, ds @ post)"
    and ds: "\<forall>c\<in>set ds. is_digit b c" "\<not> is_digit b (hd (post @ [0]))"
  shows "toLong m p base = Some (of_int (if sg = [45] then - numeral_value b ds else numeral_value b ds))"
  using assms by (rule toLong_ok)

definition num_mem :: mem where
  "num_mem = overlay (\<lambda>_. 0) 0x100 (bytes '' -0x1fg'')"

lemma num_mem_cstr: "cstr num_mem 0x100 ([32] @ [45] @ bytes ''0x1fg'')"
  by (simp add: num_mem_def overlay_def)

theorem toLong_numeral_witness: "toLong num_mem 0x100 0 = Some (- 31)"
proof -
  have s: "sint (49 :: u8) = 49" "sint (102 :: u8) = 102" "sint (103 :: u8) = 103"
    by simp_all
  have px: "prefix_of 0 (bytes ''0x1fg'') = (16, bytes ''1f'' @ bytes ''g'')"
    by (simp add: prefix_of_def)
  have "\<forall>c\<in>set (bytes ''1f''). is_digit 16 c" "\<not> is_digit 16 (hd (bytes ''g'' @ [0]))"
    by (simp_all add: is_digit_def digit_val_def isDigit_def isCapital_def isLittle_def)
  moreover have "numeral_value 16 (bytes ''1f'') = 31"
    by (simp add: numeral_value_def digit_val_def isDigit_def isCapital_def isLittle_def)
  ultimately show ?thesis
    using toLong_numeral [OF num_mem_cstr _ _ _ _ px] by (simp add: isWhiteSpace_iff WHITESPACE_def)
qed

text \<open>
  C14: Printing and reading agree. The digits that \<open>printNumber\<close> emits for a number in base 2 to 16,
  stored as a string, are read back by \<open>toLong\<close> in the same base as that number, modulo \<open>2^32\<close>.
\<close>

theorem print_toLong_roundtrip:
  assumes b: "2 \<le> base" "base \<le> 16" and c: "cstr m p cs"
    and pr: "printNumber collect num base 0 pad capital 0 0 [] = Some (map ucast cs)"
  shows "toLong m p (int (unat base)) = Some (of_nat (unat num))"
proof -
  let ?ds = "digits (unat base) (unat num)"
  have bn: "2 \<le> unat base" "unat base \<le> 16" using b by (simp_all add: word_le_nat_alt)
  have lt: "\<forall>d\<in>set ?ds. d < unat base" "\<forall>d\<in>set ?ds. d < 16" using digits_lt [OF bn(1)] bn(2) by fastforce+
  have "map ucast cs = map (\<lambda>d. ucast (digit capital d) :: u32) ?ds"
    using pr by (simp add: printNumber_feed [OF b(1)] feed_collect number_chars_def COLOR_CHAR_plain)
  then have "map ucast (map ucast cs :: u32 list) = (map ucast (map (\<lambda>d. ucast (digit capital d) :: u32) ?ds) :: u8 list)"
    by (rule arg_cong)
  then have cs: "cs = map (digit capital) ?ds" by (simp add: comp_def ucast_down_up)
  have h: "hd ?ds < 16" "cs \<noteq> []" "hd cs = digit capital (hd ?ds)"
    using lt(2) digits_nonempty [of "unat base" "unat num"] by (auto simp: cs hd_map)
  have "\<not> (2 \<le> length cs \<and> cs ! 0 = 48)"
  proof
    assume a: "2 \<le> length cs \<and> cs ! 0 = 48"
    then have "hd ?ds = 0" using h digit_char [OF h(1)] by (metis hd_conv_nth)
    then have "unat num = 0" using digits_hd [OF bn(1)] by blast
    then show False using a bn(1) by (simp add: cs)
  qed
  then have px: "prefix_of (int (unat base)) cs = (int (unat base), cs @ [])"
  proof -
    have "int (unat base) \<noteq> 0" using bn(1) by linarith
    then show ?thesis using \<open>\<not> (2 \<le> length cs \<and> cs ! 0 = 48)\<close>
      unfolding prefix_of_def by (auto simp del: of_nat_unat)
  qed
  have "toLong m p (int (unat base)) = Some (of_int (if ([] :: u8 list) = [45] then
      - numeral_value (int (unat base)) cs else numeral_value (int (unat base)) cs))"
    using c digit_char [OF h(1), of capital] h(2,3) lt digit_val_digit
    by (intro toLong_ok [where ws = "[]" and sg = "[]" and post = "[]", OF _ _ _ _ _ px])
      (auto simp: is_digit_def cs simp del: of_nat_unat)
  then show ?thesis
    using numeral_value_digits [OF lt(2)] horner_digits [OF bn(1)] by (simp add: cs del: of_nat_unat)
qed


theorem print_toLong_roundtrip_witness: "toLong (overlay (\<lambda>_. 0) 0x100 (bytes ''2a'')) 0x100 16 = Some 42"
proof -
  have d: "digits 16 42 = [2, 10]" by (simp add: digits_step)
  have "printNumber collect 42 16 0 32 False 0 0 [] = Some (map ucast (bytes ''2a''))"
    by (simp add: printNumber_feed feed_collect number_chars_def d COLOR_CHAR_plain digit_def)
  moreover have "cstr (overlay (\<lambda>_. 0) 0x100 (bytes ''2a'')) 0x100 (bytes ''2a'')"
    by (simp add: overlay_def)
  ultimately show ?thesis
    using print_toLong_roundtrip [of 16 "overlay (\<lambda>_. 0) 0x100 (bytes ''2a'')" "0x100" "bytes ''2a''" 42 32 False]
    by simp
qed

end
