(* ===== verification/Keyboard.thy ===== *)
theory Keyboard
  imports CString
begin

text \<open>
  The PS/2 keyboard driver \<open>kernel/pckbd.c\<close>: decoding of scan codes with the modifier state, and
  the 512-byte ring buffer between the (polled) interrupt routine and \<open>kbdGetNextChar\<close>. The two
  controller ports are read once per poll; a poll is the pair of their values, and when the list
  of polls is used up the controller reports that no data is waiting.
\<close>

section \<open>Tables\<close>

definition KEY_DEL :: int where "KEY_DEL = 0xE9"

definition KBS_DIB :: u8 where "KBS_DIB = 0x01"
definition KBS_TERR :: u8 where "KBS_TERR = 0x20"

definition SHIFT :: u32 where "SHIFT = 1"
definition CTL :: u32 where "CTL = 2"
definition ALT :: u32 where "ALT = 4"
definition CAPSLOCK :: u32 where "CAPSLOCK = 8"
definition NUMLOCK :: u32 where "NUMLOCK = 16"
definition SCROLLLOCK :: u32 where "SCROLLLOCK = 32"
definition E0ESC :: u32 where "E0ESC = 64"

text \<open>An array of 256 bytes with an initializer list and designated initializers.\<close>

definition table :: "u8 list \<Rightarrow> (nat \<times> u8) list \<Rightarrow> u8 list" where
  "table xs upds = foldl (\<lambda>t (i, v). t[i := v]) (xs @ replicate (256 - length xs) 0) upds"

definition shiftcode :: "u8 list" where
  "shiftcode = table [] [(0x1D, 2), (0x2A, 1), (0x36, 1), (0x38, 4), (0x9D, 2), (0xB8, 4)]"

definition togglecode :: "u8 list" where
  "togglecode = table [] [(0x3A, 8), (0x45, 16), (0x46, 32)]"

definition special_keys :: "(nat \<times> u8) list" where
  "special_keys = [(0xC8, 0xE2), (0xC9, 0xE6), (0xCB, 0xE4), (0xCD, 0xE5), (0xCF, 0xE1), (0xD0, 0xE3),
     (0xD1, 0xE7), (0xD2, 0xE8), (0xD3, 0xE9)]"

definition normalmap :: "u8 list" where
  "normalmap = table
     ([0, 0x1B] @ bytes ''123456'' @ bytes ''7890-='' @ [8, 9] @ bytes ''qwertyui'' @ bytes ''op[]'' @ [10, 0]
      @ bytes ''as'' @ bytes ''dfghjkl;'' @ [39, 96, 0, 92] @ bytes ''zxcv'' @ bytes ''bnm,./'' @ [0] @ bytes ''*''
      @ [0] @ bytes '' '' @ replicate 13 0 @ bytes ''7'' @ bytes ''89-456+1'' @ bytes ''230.'' @ replicate 4 0)
     ((0xC7, 0xE0) # (0x9C, 10) # (0xB5, 47) # special_keys)"

definition shiftmap :: "u8 list" where
  "shiftmap = table
     ([0, 27] @ bytes ''!@#$%^'' @ bytes ''&*()_+'' @ [8, 9] @ bytes ''QWERTYUI'' @ bytes ''OP{}'' @ [10, 0]
      @ bytes ''AS'' @ bytes ''DFGHJKL:'' @ [34] @ bytes ''~'' @ [0] @ bytes ''|ZXCV'' @ bytes ''BNM<>?'' @ [0]
      @ bytes ''*'' @ [0] @ bytes '' '' @ replicate 13 0 @ bytes ''7'' @ bytes ''89-456+1'' @ bytes ''230.'' @ replicate 4 0)
     ((0xC7, 0xE0) # (0x9C, 10) # (0xB5, 47) # special_keys)"

definition C :: "u8 \<Rightarrow> u8" where "C x = x - 64"

definition ctlmap :: "u8 list" where
  "ctlmap = table
     (replicate 16 0 @ map C (bytes ''QWERTYUI'') @ map C (bytes ''OP'') @ [0, 0, 13, 0] @ map C (bytes ''AS'')
      @ map C (bytes ''DFGHJKL'') @ [0, 0, 0, 0, C 92] @ map C (bytes ''ZXCV'') @ map C (bytes ''BNM'')
      @ [0, 0, C 47, 0, 0])
     ((0x97, 0xE0) # (0xB5, C 47) # special_keys)"

definition charcode :: "u8 list list" where
  "charcode = [normalmap, shiftmap, ctlmap, ctlmap]"

section \<open>The driver\<close>

record kbd =
  shift :: u32
  buffer :: "u8 list"
  readPos :: u32
  writePos :: u32
  reboots :: nat

definition KBD_BUF_SIZE :: u32 where "KBD_BUF_SIZE = 512"

definition applyCaps :: "u32 \<Rightarrow> int \<Rightarrow> int" where
  "applyCaps sh c = (if sh AND CAPSLOCK \<noteq> 0 then
     if isLittle c then c + (65 - 97) else if isCapital c then c + (97 - 65) else c
   else c)"

text \<open>
  One call of \<open>_kbdProcessData\<close> on the given port values. \<open>reboots\<close> counts the writes to port
  \<open>0x92\<close>, after which the machine resets; the message before it, like those of \<open>kbdInit\<close>, is left out.
\<close>

definition kbdProcessData :: "u8 \<Rightarrow> u8 \<Rightarrow> kbd \<Rightarrow> int \<times> kbd" where
  "kbdProcessData stat dat k =
     (if stat AND KBS_DIB = 0 then (-1, k)
      else if stat AND KBS_TERR \<noteq> 0 then (-1, k)
      else if dat = 0xE0 then (0, k\<lparr>shift := shift k OR E0ESC\<rparr>)
      else if dat AND 0x80 \<noteq> 0 then
        (let d = (if shift k AND E0ESC \<noteq> 0 then dat else dat AND 0x7F) in
         (0, k\<lparr>shift := shift k AND NOT (ucast (shiftcode ! unat d) OR E0ESC)\<rparr>))
      else
        (let d = (if shift k AND E0ESC \<noteq> 0 then dat OR 0x80 else dat);
             sh = (if shift k AND E0ESC \<noteq> 0 then shift k AND NOT E0ESC else shift k);
             sh = sh OR ucast (shiftcode ! unat d);
             sh = sh XOR ucast (togglecode ! unat d);
             c = applyCaps sh (uint (charcode ! unat (sh AND (CTL OR SHIFT)) ! unat d));
             k = k\<lparr>shift := sh\<rparr> in
         (c, if NOT sh AND (CTL OR ALT) = 0 \<and> c = KEY_DEL then k\<lparr>reboots := reboots k + 1\<rparr> else k)))"

definition kbd_put :: "u8 \<Rightarrow> kbd \<Rightarrow> kbd" where
  "kbd_put c k = k\<lparr>buffer := (buffer k)[unat (writePos k) := c],
     writePos := (writePos k + 1) mod KBD_BUF_SIZE\<rparr>"

fun kbdIntr :: "(u8 \<times> u8) list \<Rightarrow> kbd \<Rightarrow> kbd \<times> (u8 \<times> u8) list" where
  "kbdIntr [] k = (snd (kbdProcessData 0 0 k), [])"
| "kbdIntr ((stat, dat) # polls) k =
     (let (c, k) = kbdProcessData stat dat k in
      if c = -1 then (k, polls)
      else if c = 0 then kbdIntr polls k
      else kbdIntr polls (kbd_put (word_of_int c) k))"

definition kbdGetNextChar :: "(u8 \<times> u8) list \<Rightarrow> kbd \<Rightarrow> u32 \<times> kbd \<times> (u8 \<times> u8) list" where
  "kbdGetNextChar polls k =
     (let (k, polls) = kbdIntr polls k in
      if writePos k \<noteq> readPos k then
        (ucast (buffer k ! unat (readPos k)), k\<lparr>readPos := (readPos k + 1) mod KBD_BUF_SIZE\<rparr>, polls)
      else (0, k, polls))"

definition kbdInit :: "u8 \<times> u8 \<Rightarrow> kbd \<Rightarrow> kbd" where
  "kbdInit poll k = snd (kbdProcessData (fst poll) (snd poll) (k\<lparr>readPos := 0, writePos := 0\<rparr>))"

section \<open>The ring buffer as a queue\<close>

definition kbd_inv :: "kbd \<Rightarrow> bool" where
  "kbd_inv k \<longleftrightarrow> length (buffer k) = 512 \<and> unat (readPos k) < 512 \<and> unat (writePos k) < 512"

definition pending :: "kbd \<Rightarrow> nat" where
  "pending k = (unat (writePos k) + 512 - unat (readPos k)) mod 512"

definition contents :: "kbd \<Rightarrow> u8 list" where
  "contents k = map (\<lambda>i. buffer k ! ((unat (readPos k) + i) mod 512)) [0..<pending k]"

text \<open>
  The contract between the producer and the consumer of characters: a bounded queue. \<open>cap\<close> is the
  number of elements it can hold without loss.
\<close>

locale bounded_queue =
  fixes put :: "'c \<Rightarrow> 'k \<Rightarrow> 'k" and get :: "'k \<Rightarrow> ('c \<times> 'k) option"
    and inv :: "'k \<Rightarrow> bool" and items :: "'k \<Rightarrow> 'c list" and cap :: nat
  assumes put_inv: "inv k \<Longrightarrow> inv (put c k)"
    and put_items: "inv k \<Longrightarrow> length (items k) < cap \<Longrightarrow> items (put c k) = items k @ [c]"
    and get_empty: "inv k \<Longrightarrow> items k = [] \<Longrightarrow> get k = None"
    and get_first: "inv k \<Longrightarrow> items k = c # cs \<Longrightarrow> \<exists>k'. get k = Some (c, k') \<and> inv k' \<and> items k' = cs"
begin

lemma put_all:
  "inv k \<Longrightarrow> length (items k) + length cs \<le> cap \<Longrightarrow>
   inv (fold put cs k) \<and> items (fold put cs k) = items k @ cs"
proof (induction cs arbitrary: k)
  case (Cons c cs)
  then have "items (put c k) = items k @ [c]" by (intro put_items) simp_all
  then show ?case using Cons.IH [of "put c k"] Cons.prems put_inv by simp
qed simp

lemma put_then_get:
  assumes "inv k" "length (items k) + length cs \<le> cap" "items k @ cs = x # xs"
  shows "\<exists>k'. get (fold put cs k) = Some (x, k') \<and> inv k' \<and> items k' = xs"
  using put_all [OF assms(1,2)] get_first assms(3) by metis

end

lemma length_contents: "length (contents k) = pending k"
  by (simp add: contents_def)

lemma unat_inc_mod: "unat (p :: u32) < 512 \<Longrightarrow> unat ((p + 1) mod KBD_BUF_SIZE) = (unat p + 1) mod 512"
  by (simp add: KBD_BUF_SIZE_def unat_mod unat_word_ariths)

lemma kbd_put_inv: "kbd_inv k \<Longrightarrow> kbd_inv (kbd_put c k)"
  by (simp add: kbd_inv_def kbd_put_def unat_inc_mod)

lemma ring_dist:
  "r < 512 \<Longrightarrow> w < 512 \<Longrightarrow> (w + 512 - r) mod 512 = (if r \<le> w then w - r else w + 512 - (r :: nat))"
  using mod_add_self2 [of "w - r" 512] by (auto simp del: mod_add_self2)

lemma ring_inc: "w < 512 \<Longrightarrow> (w + 1) mod 512 = (if w = 511 then 0 else w + (1 :: nat))"
  by auto

lemma ring_index: "r < 512 \<Longrightarrow> i < 512 \<Longrightarrow> (r + i) mod 512 = (if r + i < 512 then r + i else r + i - (512 :: nat))"
  by (simp add: mod_if)

lemma pending_eq:
  "kbd_inv k \<Longrightarrow> pending k = (if unat (readPos k) \<le> unat (writePos k) then unat (writePos k) - unat (readPos k)
     else unat (writePos k) + 512 - unat (readPos k))"
  unfolding pending_def kbd_inv_def by (rule ring_dist) simp_all

lemma kbd_put_fields:
  "kbd_inv k \<Longrightarrow> unat (writePos (kbd_put c k)) = (if unat (writePos k) = 511 then 0 else unat (writePos k) + 1)
     \<and> readPos (kbd_put c k) = readPos k \<and> buffer (kbd_put c k) = (buffer k)[unat (writePos k) := c]"
  unfolding kbd_inv_def kbd_put_def by (simp add: unat_inc_mod ring_inc)

lemma kbd_put_pending:
  "kbd_inv k \<Longrightarrow> pending (kbd_put c k) = (if pending k = 511 then 0 else pending k + 1)"
  using kbd_put_fields [of k c] pending_eq [OF kbd_put_inv, of k c]
  by (auto simp: pending_eq kbd_inv_def)

lemma kbd_put_contents:
  assumes inv: "kbd_inv k" and room: "length (contents k) < 511"
  shows "contents (kbd_put c k) = contents k @ [c]"
proof -
  let ?r = "unat (readPos k)" and ?w = "unat (writePos k)"
  have b: "?r < 512" "?w < 512" "length (buffer k) = 512" using inv by (simp_all add: kbd_inv_def)
  have p: "pending k < 511" using room by (simp add: length_contents)
  have at: "(?r + pending k) mod 512 = ?w"
    using b p pending_eq [OF inv] by (simp add: ring_index)
  have other: "(?r + i) mod 512 \<noteq> ?w" if "i < pending k" for i
    using b p pending_eq [OF inv] that by (auto simp: ring_index split: if_splits)
  have "[0..<pending (kbd_put c k)] = [0..<pending k] @ [pending k]"
    using kbd_put_pending [OF inv, of c] p by simp
  moreover have "buffer (kbd_put c k) ! ((?r + i) mod 512) = buffer k ! ((?r + i) mod 512)" if "i < pending k" for i
    using kbd_put_fields [OF inv, of c] not_sym [OF other [OF that]] by simp
  moreover have "buffer (kbd_put c k) ! ((?r + pending k) mod 512) = c"
    using kbd_put_fields [OF inv, of c] b at by simp
  ultimately show ?thesis
    using kbd_put_fields [OF inv, of c] by (simp add: contents_def)
qed

text \<open>Taking the next character, once the polls have been processed.\<close>

definition kbd_get :: "kbd \<Rightarrow> (u8 \<times> kbd) option" where
  "kbd_get k = (if writePos k \<noteq> readPos k
     then Some (buffer k ! unat (readPos k), k\<lparr>readPos := (readPos k + 1) mod KBD_BUF_SIZE\<rparr>) else None)"

lemma kbd_get_empty: "kbd_inv k \<Longrightarrow> contents k = [] \<Longrightarrow> kbd_get k = None"
  using length_contents [of k] pending_eq [of k]
  by (auto simp: kbd_get_def kbd_inv_def word_unat_eq_iff split: if_splits)

lemma kbd_get_first:
  assumes inv: "kbd_inv k" and c: "contents k = c # cs"
  shows "\<exists>k'. kbd_get k = Some (c, k') \<and> kbd_inv k' \<and> contents k' = cs"
proof -
  let ?r = "unat (readPos k)" and ?k' = "k\<lparr>readPos := (readPos k + 1) mod KBD_BUF_SIZE\<rparr>"
  have b: "?r < 512" "unat (writePos k) < 512" using inv by (simp_all add: kbd_inv_def)
  have r': "unat (readPos ?k') = (if ?r = 511 then 0 else ?r + 1)"
    using b by (simp add: unat_inc_mod ring_inc)
  have inv': "kbd_inv ?k'" using inv b by (simp add: kbd_inv_def unat_inc_mod)
  have n: "pending k = Suc (length cs)" using c length_contents [of k] by simp
  then have "readPos k \<noteq> writePos k" using pending_eq [OF inv] by auto
  moreover have split: "[0..<pending k] = 0 # map Suc [0..<length cs]" unfolding n by (simp only: map_Suc_upt upt_conv_Cons)
  then have "buffer k ! ?r = c" using c b by (simp add: contents_def del: upt_Suc)
  moreover have "pending ?k' = length cs"
    using pending_eq [OF inv'] pending_eq [OF inv] n r' b by (auto split: if_splits)
  moreover have "(unat (readPos ?k') + i) mod 512 = (?r + Suc i) mod 512" for i
    using b by (simp add: unat_inc_mod) (simp add: mod_add_left_eq)
  then have "contents ?k' = cs"
    using c split \<open>pending ?k' = length cs\<close> by (simp add: contents_def comp_def del: upt_Suc)
  ultimately show ?thesis using inv' by (auto simp: kbd_get_def)
qed

interpretation kbdq: bounded_queue kbd_put kbd_get kbd_inv contents 511
  by unfold_locales (auto simp: kbd_put_inv kbd_put_contents kbd_get_empty dest: kbd_get_first)


section \<open>The interrupt routine\<close>

text \<open>The characters one run of the polling loop puts into the buffer.\<close>

fun kbd_chars :: "(u8 \<times> u8) list \<Rightarrow> kbd \<Rightarrow> u8 list" where
  "kbd_chars [] k = []"
| "kbd_chars ((stat, dat) # polls) k =
     (let (c, k') = kbdProcessData stat dat k in
      if c = -1 then [] else if c = 0 then kbd_chars polls k' else word_of_int c # kbd_chars polls k')"

lemma process_buffer [simp]:
  "buffer (snd (kbdProcessData st d k)) = buffer k"
  "readPos (snd (kbdProcessData st d k)) = readPos k"
  "writePos (snd (kbdProcessData st d k)) = writePos k"
  by (simp_all add: kbdProcessData_def Let_def)

lemma process_shift_cong:
  "shift k = shift k' \<Longrightarrow> fst (kbdProcessData st d k) = fst (kbdProcessData st d k')
     \<and> shift (snd (kbdProcessData st d k)) = shift (snd (kbdProcessData st d k'))"
  by (simp add: kbdProcessData_def Let_def)

lemma kbd_put_shift [simp]: "shift (kbd_put c k) = shift k"
  by (simp add: kbd_put_def)

lemma kbd_chars_cong: "shift k = shift k' \<Longrightarrow> kbd_chars polls k = kbd_chars polls k'"
proof (induction polls arbitrary: k k')
  case (Cons p polls)
  obtain st d where p: "p = (st, d)" by (cases p)
  note c = process_shift_cong [OF Cons.prems, of st d]
  have "kbd_chars polls (snd (kbdProcessData st d k)) = kbd_chars polls (snd (kbdProcessData st d k'))"
    using c by (intro Cons.IH) simp
  then show ?case using c by (simp add: p Let_def split_beta)
qed simp

text \<open>Two states with the same ring; decoding changes only the modifier state.\<close>

definition same_ring :: "kbd \<Rightarrow> kbd \<Rightarrow> bool" where
  "same_ring k k' \<longleftrightarrow> buffer k = buffer k' \<and> readPos k = readPos k' \<and> writePos k = writePos k'"

lemma same_ring_put: "same_ring k k' \<Longrightarrow> same_ring (kbd_put c k) (kbd_put c k')"
  by (simp add: same_ring_def kbd_put_def)

lemma same_ring_fold: "same_ring k k' \<Longrightarrow> same_ring (fold kbd_put cs k) (fold kbd_put cs k')"
  by (induction cs arbitrary: k k') (simp_all add: same_ring_put)

lemma same_ring_trans: "same_ring a b \<Longrightarrow> same_ring b c \<Longrightarrow> same_ring a c"
  by (simp add: same_ring_def)

lemma same_ring_queue: "same_ring k k' \<Longrightarrow> kbd_inv k = kbd_inv k' \<and> contents k = contents k'"
  by (simp add: same_ring_def kbd_inv_def contents_def pending_def)

lemma kbdIntr_ring: "same_ring (fst (kbdIntr polls k)) (fold kbd_put (kbd_chars polls k) k)"
proof (induction polls k rule: kbdIntr.induct)
  case (2 st d polls k)
  obtain c k1 where p: "kbdProcessData st d k = (c, k1)" by (cases "kbdProcessData st d k")
  have ring: "same_ring k1 k"
    using process_buffer [of st d k] p by (simp add: same_ring_def)
  show ?case
  proof (cases "c = -1 \<or> c = 0")
    case True
    show ?thesis
    proof (cases "c = -1")
      case False
      then have "same_ring (fst (kbdIntr polls k1)) (fold kbd_put (kbd_chars polls k1) k1)"
        using 2(1) [OF p [symmetric] refl] True by simp
      then have "same_ring (fst (kbdIntr polls k1)) (fold kbd_put (kbd_chars polls k1) k)"
        by (rule same_ring_trans [OF _ same_ring_fold [OF ring]])
      then show ?thesis using p True False by simp
    qed (use p ring in simp)
  next
    case False
    let ?x = "word_of_int c"
    have "kbd_chars polls (kbd_put ?x k1) = kbd_chars polls k1" by (rule kbd_chars_cong) simp
    then have "same_ring (fst (kbdIntr polls (kbd_put ?x k1))) (fold kbd_put (kbd_chars polls k1) (kbd_put ?x k1))"
      using 2(2) [OF p [symmetric] refl] False by simp
    then have "same_ring (fst (kbdIntr polls (kbd_put ?x k1))) (fold kbd_put (kbd_chars polls k1) (kbd_put ?x k))"
      by (rule same_ring_trans [OF _ same_ring_fold [OF same_ring_put [OF ring]]])
    then show ?thesis using p False by simp
  qed
qed (simp add: same_ring_def)

section \<open>Modifiers\<close>

lemma set_table: "set (table xs upds) \<subseteq> set xs \<union> {0} \<union> snd ` set upds"
proof -
  have "set (foldl (\<lambda>t (i, v). t[i := v]) ys upds) \<subseteq> set ys \<union> snd ` set upds" for ys
  proof (induction upds arbitrary: ys)
    case (Cons u upds)
    have "set (foldl (\<lambda>t (i, v). t[i := v]) (ys[fst u := snd u]) upds)
        \<subseteq> set (ys[fst u := snd u]) \<union> snd ` set upds"
      by (rule Cons.IH)
    also have "\<dots> \<subseteq> set ys \<union> snd ` set (u # upds)"
      using set_update_subset_insert [of ys "fst u" "snd u"] by auto
    finally show ?case by (cases u) simp
  qed simp
  from this [of "xs @ replicate (256 - length xs) 0"] show ?thesis by (auto simp: table_def)
qed

lemma length_table: "length xs \<le> 256 \<Longrightarrow> length (table xs upds) = 256"
proof -
  have "length (foldl (\<lambda>t (i, v). t[i := v]) ys upds) = length ys" for ys
    by (induction upds arbitrary: ys) (auto simp: split_beta)
  then show "length xs \<le> 256 \<Longrightarrow> ?thesis" by (simp add: table_def)
qed

lemma shiftcode_values: "shiftcode ! unat (d :: u8) \<in> {0, 1, 2, 4}"
proof -
  have "unat d < length shiftcode" using unsigned_less [of d, where ?'a = nat] by (simp add: shiftcode_def length_table)
  then have "shiftcode ! unat d \<in> set shiftcode" by (rule nth_mem)
  then show ?thesis
    using set_table [of "[]" "[(0x1D, 2), (0x2A, 1), (0x36, 1), (0x38, 4), (0x9D, 2), (0xB8, 4)]"]
    unfolding shiftcode_def by auto
qed

lemma togglecode_values: "togglecode ! unat (d :: u8) \<in> {0, 8, 16, 32}"
proof -
  have "unat d < length togglecode" using unsigned_less [of d, where ?'a = nat] by (simp add: togglecode_def length_table)
  then have "togglecode ! unat d \<in> set togglecode" by (rule nth_mem)
  then show ?thesis
    using set_table [of "[]" "[(0x3A, 8), (0x45, 16), (0x46, 32)]"] unfolding togglecode_def by auto
qed


section \<open>Properties\<close>

lemma kbd_next:
  assumes "kbd_inv k" "length (contents k) + length (kbd_chars polls k) \<le> 511"
  shows "\<exists>c k'. kbdGetNextChar polls k = (c, k', snd (kbdIntr polls k)) \<and> kbd_inv k'
     \<and> shift k' = shift (fst (kbdIntr polls k))
     \<and> (case contents k @ kbd_chars polls k of [] \<Rightarrow> c = 0 \<and> contents k' = []
        | x # xs \<Rightarrow> c = ucast x \<and> contents k' = xs)"
proof -
  obtain k1 rest where k1: "kbdIntr polls k = (k1, rest)" by (cases "kbdIntr polls k")
  have q: "kbd_inv k1 \<and> contents k1 = contents k @ kbd_chars polls k"
    using kbdq.put_all [OF assms] same_ring_queue [OF kbdIntr_ring [of polls k]] k1 by simp
  show ?thesis
  proof (cases "contents k @ kbd_chars polls k")
    case Nil
    then have "kbd_get k1 = None" using q by (intro kbd_get_empty) simp_all
    then show ?thesis using q k1 Nil by (auto simp: kbdGetNextChar_def kbd_get_def split: if_splits)
  next
    case (Cons x xs)
    then obtain k' where "kbd_get k1 = Some (x, k')" "kbd_inv k'" "contents k' = xs"
      using kbd_get_first [of k1 x xs] q by auto
    then show ?thesis using k1 Cons by (auto simp: kbdGetNextChar_def kbd_get_def split: if_splits)
  qed
qed

text \<open>
  C17: Characters arrive in order and none is lost while at most 511 are unread: \<open>kbdGetNextChar\<close>
  returns the oldest of the buffered and the newly decoded characters and keeps the others, or 0 if
  there are none.
\<close>

theorem kbd_fifo:
  assumes "kbd_inv k" "length (contents k) + length (kbd_chars polls k) \<le> 511"
  shows "\<exists>c k' rest. kbdGetNextChar polls k = (c, k', rest) \<and> kbd_inv k'
     \<and> (case contents k @ kbd_chars polls k of [] \<Rightarrow> c = 0 \<and> contents k' = []
        | x # xs \<Rightarrow> c = ucast x \<and> contents k' = xs)"
  using kbd_next [OF assms] by blast

definition fresh_kbd :: kbd where
  "fresh_kbd = \<lparr>shift = 0, buffer = replicate 512 0, readPos = 0, writePos = 0, reboots = 0\<rparr>"

lemma fresh_kbd_inv [simp]: "kbd_inv fresh_kbd" "contents fresh_kbd = []"
  by (simp_all add: kbd_inv_def fresh_kbd_def contents_def pending_def)

text \<open>Pressing the left shift key, pressing A, releasing both, pressing A again.\<close>

definition demo_polls :: "(u8 \<times> u8) list" where
  "demo_polls = [(1, 0x2A), (1, 0x1E), (1, 0x9E), (1, 0xAA), (1, 0x1E)]"

lemma demo_polls_chars: "kbd_chars demo_polls fresh_kbd = bytes ''Aa''"
  by code_simp

theorem kbd_fifo_witness:
  "\<exists>k' rest. kbdGetNextChar demo_polls fresh_kbd = (65, k', rest) \<and> contents k' = bytes ''a''"
  using kbd_fifo [of fresh_kbd demo_polls] by (auto simp: demo_polls_chars)

text \<open>
  The ring has no check for overrun: when 512 characters are buffered while the reader is idle,
  the write position catches up with the read position and all of them are lost.
\<close>

lemma kbd_overrun:
  assumes "kbd_inv k" "contents k = []" "length cs = 512"
  shows "contents (fold kbd_put cs k) = [] \<and> kbd_get (fold kbd_put cs k) = None"
proof -
  obtain ds c where cs: "cs = ds @ [c]" using assms(3) by (cases cs rule: rev_cases) auto
  let ?k = "fold kbd_put ds k"
  have q: "kbd_inv ?k" "contents ?k = ds" "length ds = 511"
    using kbdq.put_all [OF assms(1), of ds] assms cs by simp_all
  then have "pending (kbd_put c ?k) = 0"
    using kbd_put_pending [OF q(1), of c] length_contents [of ?k] by simp
  then have "contents (kbd_put c ?k) = []" by (simp add: contents_def)
  then show ?thesis using kbd_get_empty [OF kbd_put_inv [OF q(1)]] cs by simp
qed

lemma kbd_overrun_witness:
  "kbd_get (fold kbd_put (replicate 512 97) fresh_kbd) = None"
  using kbd_overrun [of fresh_kbd "replicate 512 97"] by simp


lemma mod_bits:
  assumes "x \<in> {0, 1, 2, 4 :: u8}" "y \<in> {0, 8, 16, 32 :: u8}"
  shows "((sh OR ucast x) XOR ucast y) AND (64 :: u32) = sh AND 64"
    and "(sh AND NOT (ucast x OR 64)) AND 64 = (0 :: u32)"
    and "(sh AND NOT (ucast x OR 64)) AND 56 = sh AND (56 :: u32)"
  using assms
  by (auto simp: bit.conj_disj_distrib2 bit.conj_xor_distrib2 and.assoc)

lemma mod_held:
  assumes "y \<in> {0, 8, 16, 32 :: u8}"
  shows "(sh AND 7) AND NOT ((sh OR x) XOR ucast y) = (0 :: u32)"
proof -
  have "7 AND ucast y = (0 :: u32)" using assms by auto
  then have "\<not> (bit (7 :: u32) n \<and> bit (ucast y :: u32) n)" for n
    by (metis bit_and_iff bit_0_eq bot_apply bot_bool_def)
  then show ?thesis by (intro bit_word_eqI) (auto simp: bit_simps)
qed

lemma no_escape: "sh AND E0ESC = 0 \<Longrightarrow> sh AND NOT E0ESC = (sh :: u32)"
proof -
  assume e: "sh AND E0ESC = 0"
  have "sh = (sh AND E0ESC) OR (sh AND NOT E0ESC)"
    by (simp flip: bit.conj_disj_distrib)
  then show ?thesis using e by simp
qed

lemma process_release:
  assumes "stat AND KBS_DIB \<noteq> 0" "stat AND KBS_TERR = 0" "dat \<noteq> 0xE0" "dat AND 0x80 \<noteq> 0"
  shows "\<exists>d. kbdProcessData stat dat k = (0, k\<lparr>shift := shift k AND NOT (ucast (shiftcode ! unat (d :: u8)) OR E0ESC)\<rparr>)"
  using assms by (auto simp: kbdProcessData_def Let_def)

lemma process_press:
  assumes "stat AND KBS_DIB \<noteq> 0" "stat AND KBS_TERR = 0" "dat AND 0x80 = 0"
  shows "\<exists>d. shift (snd (kbdProcessData stat dat k))
       = ((shift k AND NOT E0ESC) OR ucast (shiftcode ! unat (d :: u8))) XOR ucast (togglecode ! unat d)
     \<and> 0 \<le> fst (kbdProcessData stat dat k) \<and> fst (kbdProcessData stat dat k) \<le> 255"
proof -
  have ne: "dat \<noteq> 0xE0" using assms(3) by auto
  let ?d = "if shift k AND E0ESC \<noteq> 0 then dat OR 0x80 else dat"
  have sh: "(if shift k AND E0ESC \<noteq> 0 then shift k AND NOT E0ESC else shift k) = shift k AND NOT E0ESC"
    using no_escape [of "shift k"] by simp
  have u: "0 \<le> applyCaps t (uint (w :: u8)) \<and> applyCaps t (uint w) \<le> 255" for t w
    using unsigned_less [of w, where ?'a = int] by (auto simp: applyCaps_def isLittle_def isCapital_def)
  show ?thesis
    using assms ne u by (intro exI [of _ ?d]) (simp add: kbdProcessData_def Let_def sh)
qed



end
