(* ===== verification/Console.thy ===== *)
theory Console
  imports PrintFmt Keyboard
begin

text \<open>
  The console devices of \<open>kernel/console.cc\<close>: the 80 by 25 text buffer of the CGA, the serial
  port, and the kernel's \<open>console::out\<close>, \<open>console::err\<close> (\<open>kernel/printf.cc\<close>) and \<open>console::in\<close>.
  The text memory is a list of cells, \<open>ports\<close> the port writes in the order they happen. Values read
  from devices at initialisation are arguments.
\<close>

section \<open>State\<close>

record console =
  addr_6845 :: u32
  cells :: "u16 list"
  pos :: u16
  serial_exists :: bool
  ports :: "(u32 \<times> u8) list"

definition CRT_ROWS :: nat where "CRT_ROWS = 25"
definition CRT_COLS :: nat where "CRT_COLS = 80"
definition CRT_SIZE :: nat where "CRT_SIZE = CRT_ROWS * CRT_COLS"
definition MONO_BASE :: u32 where "MONO_BASE = 0x3B4"
definition CGA_BASE :: u32 where "CGA_BASE = 0x3D4"
definition COM1 :: u32 where "COM1 = 0x3F8"
definition COM_TX :: u32 where "COM_TX = 0"

definition outb :: "u32 \<Rightarrow> u8 \<Rightarrow> console \<Rightarrow> console" where
  "outb port v c = c\<lparr>ports := ports c @ [(port, v)]\<rparr>"

section \<open>Serial port\<close>

text \<open>The colour codes in the order of \<open>color_t\<close>.\<close>

definition ansiForeCode :: "string list" where
  "ansiForeCode = [''30'', ''34'', ''32'', ''36'', ''31'', ''35'', ''33'', ''37'',
     ''90'', ''94'', ''92'', ''96'', ''91'', ''95'', ''93'', ''97'']"

definition ansiBackCode :: "string list" where
  "ansiBackCode = [''40'', ''44'', ''42'', ''46'', ''41'', ''45'', ''43'', ''47'',
     ''100'', ''104'', ''102'', ''106'', ''101'', ''105'', ''103'', ''107'']"

definition serial_colored :: bool where "serial_colored = False"

definition serial_init :: "u8 \<Rightarrow> console \<Rightarrow> console" where
  "serial_init lsr c =
     (fold (\<lambda>(r, v). outb (COM1 + r) v) [(2, 0), (3, 0x80), (0, 12), (1, 0), (3, 0x03), (4, 0), (1, 0x01)] c)
       \<lparr>serial_exists := (lsr \<noteq> 0xFF)\<rparr>"

definition sout :: "u32 \<Rightarrow> console \<Rightarrow> console" where
  "sout ch = outb (COM1 + COM_TX) (ucast ch)"

definition serial_putChar :: "u32 \<Rightarrow> u32 \<Rightarrow> u32 \<Rightarrow> console \<Rightarrow> console" where
  "serial_putChar ch defFore defBack c =
     (if serial_exists c then
        let c = (if serial_colored then
              let fore = (if FORE_COLOR ch \<noteq> 0 then FORE_COLOR ch else defFore);
                  bg = (if BACK_COLOR ch \<noteq> 0 then BACK_COLOR ch else defBack) in
              fold sout (map ucast (bytes (''['' @ ansiForeCode ! unat fore @ '';'' @ ansiBackCode ! unat bg @ ''m'')))
                (sout 0x1b c)
            else c) in
        if ch AND 0xff = 8 then sout ch (sout 32 (sout ch c)) else sout ch c
      else c)"

section \<open>CGA text display\<close>

text \<open>\<open>readback\<close> is what the test cell holds after \<open>0xA55A\<close> was written to it, \<open>hi\<close> and \<open>lo\<close> the cursor
  position registers; \<open>cga_mem\<close> and \<open>mono_mem\<close> are the contents of the two text memories.\<close>

definition cga_init :: "u16 \<Rightarrow> u8 \<Rightarrow> u8 \<Rightarrow> u16 list \<Rightarrow> u16 list \<Rightarrow> console \<Rightarrow> console" where
  "cga_init readback hi lo cga_mem mono_mem c =
     (let mono = (readback \<noteq> 0xA55A);
          c = c\<lparr>addr_6845 := (if mono then MONO_BASE else CGA_BASE)\<rparr>;
          c = outb (addr_6845 c) 15 (outb (addr_6845 c) 14 c) in
      c\<lparr>cells := (if mono then mono_mem else cga_mem), pos := push_bit 8 (ucast hi) OR ucast lo\<rparr>)"

definition cursorRefresh :: "console \<Rightarrow> console" where
  "cursorRefresh c = outb (addr_6845 c + 1) (ucast (pos c)) (outb (addr_6845 c) 15
     (outb (addr_6845 c + 1) (ucast (drop_bit 8 (pos c))) (outb (addr_6845 c) 14 c)))"

definition set_cell :: "nat \<Rightarrow> u32 \<Rightarrow> console \<Rightarrow> console" where
  "set_cell i v c = c\<lparr>cells := (cells c)[i := ucast v]\<rparr>"

text \<open>\<open>mem::copy\<close> of one row of cells over the row above it.\<close>

definition copy_row :: "u16 list \<Rightarrow> nat \<Rightarrow> u16 list" where
  "copy_row b i = foldl (\<lambda>b j. b[i * CRT_COLS + j := b ! ((i + 1) * CRT_COLS + j)]) b [0..<CRT_COLS]"

definition scroll :: "u32 \<Rightarrow> console \<Rightarrow> console" where
  "scroll ch c =
     (let c = c\<lparr>cells := foldl copy_row (cells c) [0..<CRT_ROWS - 1]\<rparr>;
          c = fold (\<lambda>j. set_cell j ((ch AND NOT 0xff) OR 32)) [CRT_SIZE - CRT_COLS..<CRT_SIZE] c in
      c\<lparr>pos := pos c - of_nat CRT_COLS\<rparr>)"

function cga_putChar :: "u32 \<Rightarrow> u32 \<Rightarrow> u32 \<Rightarrow> console \<Rightarrow> console" where
  "cga_putChar ch defFore defBack c =
     (let ch' = (if ch AND 0xff00 = 0 then COLOR_CHAR ch defFore defBack else ch);
          k = ch AND 0xff;
          c = (if k = 8 then
                 if pos c > 0 then
                   let c = c\<lparr>pos := pos c - 1\<rparr> in set_cell (unat (pos c)) ((ch' AND NOT 0xff) OR 32) c
                 else c
               else if k = 9 then
                 cga_putChar 32 defFore defBack (cga_putChar 32 defFore defBack
                   (cga_putChar 32 defFore defBack (cga_putChar 32 defFore defBack c)))
               else if k = 10 then
                 c\<lparr>pos := (pos c + of_nat CRT_COLS) div of_nat CRT_COLS * of_nat CRT_COLS\<rparr>
               else if k = 13 then c\<lparr>pos := pos c div of_nat CRT_COLS * of_nat CRT_COLS\<rparr>
               else if k = 0 then c
               else (set_cell (unat (pos c)) ch' c)\<lparr>pos := pos c + 1\<rparr>);
          c = (if pos c = of_nat CRT_SIZE then scroll ch' c else c) in
      cursorRefresh c)"
  by pat_completeness auto
termination
  by (relation "measure (\<lambda>(ch, _, _, _). if ch AND 0xff = 9 then 1 else 0)") auto

declare cga_putChar.simps [simp del]

definition cga_clear :: "console \<Rightarrow> console" where
  "cga_clear c = cursorRefresh
     ((fold (\<lambda>i. set_cell i (push_bit 8 DEF_FORE OR 32)) [0..<CRT_SIZE] c)\<lparr>pos := 0\<rparr>)"

section \<open>The kernel's console\<close>

definition console_clear :: "console \<Rightarrow> console" where
  "console_clear c = cga_clear c"

definition kputChar :: "u32 \<Rightarrow> console \<Rightarrow> console" where
  "kputChar ch c = serial_putChar ch DEF_FORE DEF_BACK (cga_putChar ch DEF_FORE DEF_BACK c)"

text \<open>The lambda of \<open>console::out::printVa\<close> with its captured counter.\<close>

definition kput_count :: "u32 \<Rightarrow> console \<times> u32 \<Rightarrow> console \<times> u32" where
  "kput_count ch s = (kputChar ch (fst s), if ch AND 0x00ff \<noteq> 0 then snd s + 1 else snd s)"

definition kprintVa :: "mem \<Rightarrow> u32 \<Rightarrow> u32 \<Rightarrow> console \<Rightarrow> (console \<times> u32) option" where
  "kprintVa m fmt ap c = printFmtVa kput_count m fmt ap DEF_FORE DEF_BACK (c, 0)"

definition kerrVa :: "mem \<Rightarrow> u32 \<Rightarrow> u32 \<Rightarrow> console \<Rightarrow> console option" where
  "kerrVa m fmt ap c = printFmtVa kputChar m fmt ap LIGHT_RED DEF_BACK c"

partial_function (option) getChar :: "(u8 \<times> u8) list \<Rightarrow> kbd \<Rightarrow> (u32 \<times> kbd \<times> (u8 \<times> u8) list) option" where
  "getChar polls k =
     (let r = kbdGetNextChar polls k in
      if fst r = 0 then getChar (snd (snd r)) (fst (snd r)) else Some r)"


section \<open>Scrolling\<close>

lemma CRT_simps [simp]: "CRT_COLS = 80" "CRT_ROWS = 25" "CRT_SIZE = 2000"
  by (simp_all add: CRT_COLS_def CRT_ROWS_def CRT_SIZE_def)

lemma copy_row_part:
  "i < 24 \<Longrightarrow> length b = 2000 \<Longrightarrow> n \<le> 80 \<Longrightarrow>
   length (foldl (\<lambda>b j. b[i * 80 + j := b ! ((i + 1) * 80 + j)]) b [0..<n]) = 2000 \<and>
   (\<forall>k<2000. foldl (\<lambda>b j. b[i * 80 + j := b ! ((i + 1) * 80 + j)]) b [0..<n] ! k
      = (if i * 80 \<le> k \<and> k < i * 80 + n then b ! (k + 80) else b ! k))"
proof (induction n)
  case (Suc n)
  let ?b = "foldl (\<lambda>b j. b[i * 80 + j := b ! ((i + 1) * 80 + j)]) b [0..<n]"
  have IH: "length ?b = 2000"
      "\<And>k. k < 2000 \<Longrightarrow> ?b ! k = (if i * 80 \<le> k \<and> k < i * 80 + n then b ! (k + 80) else b ! k)"
    using Suc by simp_all
  have "?b ! ((i + 1) * 80 + n) = b ! (i * 80 + n + 80)"
    using IH(2) [of "(i + 1) * 80 + n"] Suc.prems by (simp add: algebra_simps)
  then show ?case
    using IH Suc.prems by (auto simp: nth_list_update)
qed auto

lemma copy_row_nth:
  assumes "i < 24" "length b = 2000"
  shows "length (copy_row b i) = 2000"
    and "k < 2000 \<Longrightarrow> copy_row b i ! k = (if i * 80 \<le> k \<and> k < i * 80 + 80 then b ! (k + 80) else b ! k)"
  using copy_row_part [OF assms, of 80] by (simp_all add: copy_row_def)

lemma copy_rows:
  "length b = 2000 \<Longrightarrow> n \<le> 24 \<Longrightarrow> length (foldl copy_row b [0..<n]) = 2000 \<and>
   (\<forall>k<2000. foldl copy_row b [0..<n] ! k = (if k < n * 80 then b ! (k + 80) else b ! k))"
proof (induction n)
  case (Suc n)
  then have IH: "length (foldl copy_row b [0..<n]) = 2000"
      "\<And>k. k < 2000 \<Longrightarrow> foldl copy_row b [0..<n] ! k = (if k < n * 80 then b ! (k + 80) else b ! k)"
    by simp_all
  have n: "n < 24" using Suc.prems by simp
  show ?case
    using copy_row_nth [OF n IH(1)] IH(2) n by auto
qed simp

lemma set_cells:
  "fold (\<lambda>j. set_cell j v) [a..<a + n] c
     = c\<lparr>cells := map (\<lambda>k. if a \<le> k \<and> k < a + n then ucast v else cells c ! k) [0..<length (cells c)]\<rparr>"
proof (induction n)
  case 0
  have "map (\<lambda>k. if a \<le> k \<and> k < a + 0 then ucast v else cells c ! k) [0..<length (cells c)] = cells c"
    by (intro nth_equalityI) auto
  then show ?case by simp
next
  case (Suc n)
  let ?M = "\<lambda>n. map (\<lambda>k. if a \<le> k \<and> k < a + n then ucast v else cells c ! k) [0..<length (cells c)]"
  have "(?M n)[a + n := ucast v] = ?M (Suc n)"
  proof (rule nth_equalityI)
    fix i assume "i < length ((?M n)[a + n := ucast v])"
    then show "(?M n)[a + n := ucast v] ! i = ?M (Suc n) ! i"
      by (cases "i = a + n") auto
  qed simp
  then show ?case using Suc.IH by (simp add: set_cell_def)
qed

lemma scroll_eq:
  assumes len: "length (cells c) = 2000"
  shows "scroll ch c = c\<lparr>cells := drop 80 (cells c) @ replicate 80 (ucast ((ch AND NOT 0xff) OR 32)),
     pos := pos c - 80\<rparr>"
proof -
  let ?b = "foldl copy_row (cells c) [0..<24]" and ?v = "ucast ((ch AND NOT 0xff) OR 32) :: u16"
  have b: "length ?b = 2000"
      "\<And>k. k < 2000 \<Longrightarrow> ?b ! k = (if k < 1920 then cells c ! (k + 80) else cells c ! k)"
    using copy_rows [OF len, of 24] by simp_all
  have "map (\<lambda>k. if 1920 \<le> k \<and> k < 2000 then ?v else ?b ! k) [0..<2000] = drop 80 (cells c) @ replicate 80 ?v"
    using b len by (intro nth_equalityI) (auto simp: nth_append add.commute simp del: upt_rec_numeral)
  moreover have "fold (\<lambda>j. set_cell j ((ch AND NOT 0xff) OR 32)) [1920..<2000] (c\<lparr>cells := ?b\<rparr>)
      = c\<lparr>cells := map (\<lambda>k. if 1920 \<le> k \<and> k < 2000 then ?v else ?b ! k) [0..<2000]\<rparr>"
    using set_cells [of "(ch AND NOT 0xff) OR 32" 1920 80 "c\<lparr>cells := ?b\<rparr>"] b(1)
    by (simp del: upt_rec_numeral)
  ultimately show ?thesis by (simp add: scroll_def Let_def del: upt_rec_numeral)
qed

section \<open>The display invariant\<close>

definition con_inv :: "console \<Rightarrow> bool" where
  "con_inv c \<longleftrightarrow> length (cells c) = 2000 \<and> unat (pos c) < 2000"

text \<open>The body of \<open>cga::putChar\<close> after the \<open>switch\<close>.\<close>

definition settle :: "u32 \<Rightarrow> console \<Rightarrow> console" where
  "settle ch c = cursorRefresh (if pos c = 2000 then scroll ch c else c)"

lemma cursorRefresh_fields [simp]:
  "cells (cursorRefresh c) = cells c" "pos (cursorRefresh c) = pos c"
  "serial_exists (cursorRefresh c) = serial_exists c" "addr_6845 (cursorRefresh c) = addr_6845 c"
  by (simp_all add: cursorRefresh_def outb_def)

lemma settle_ok:
  assumes "length (cells c) = 2000" "unat (pos c) \<le> 2000"
  shows "con_inv (settle ch c)"
    and "pos c \<noteq> 2000 \<Longrightarrow> cells (settle ch c) = cells c \<and> pos (settle ch c) = pos c"
    and "pos c = 2000 \<Longrightarrow> cells (settle ch c) = drop 80 (cells c) @ replicate 80 (ucast ((ch AND NOT 0xff) OR 32))
      \<and> pos (settle ch c) = 1920"
proof -
  have "pos c \<noteq> 2000 \<Longrightarrow> unat (pos c) < 2000"
    using assms(2) by (simp add: word_unat_eq_iff)
  then show "con_inv (settle ch c)"
    using assms(1) by (cases "pos c = 2000") (simp_all add: con_inv_def settle_def scroll_eq [OF assms(1)])
qed (simp_all add: settle_def scroll_eq [OF assms(1)])

text \<open>The cell content a character is displayed as: default colours where it has none.\<close>

definition colorize :: "u32 \<Rightarrow> u32 \<Rightarrow> u32 \<Rightarrow> u32" where
  "colorize ch fore bg = (if ch AND 0xff00 = 0 then COLOR_CHAR ch fore bg else ch)"

lemma cga_cases:
  "ch AND 0xff = 8 \<Longrightarrow> cga_putChar ch f b c = settle (colorize ch f b)
     (if pos c > 0 then set_cell (unat (pos c - 1)) ((colorize ch f b AND NOT 0xff) OR 32) (c\<lparr>pos := pos c - 1\<rparr>) else c)"
  "ch AND 0xff = 9 \<Longrightarrow> cga_putChar ch f b c = settle (colorize ch f b) (cga_putChar 32 f b (cga_putChar 32 f b (cga_putChar 32 f b (cga_putChar 32 f b c))))"
  "ch AND 0xff = 10 \<Longrightarrow> cga_putChar ch f b c = settle (colorize ch f b) (c\<lparr>pos := (pos c + 80) div 80 * 80\<rparr>)"
  "ch AND 0xff = 13 \<Longrightarrow> cga_putChar ch f b c = settle (colorize ch f b) (c\<lparr>pos := pos c div 80 * 80\<rparr>)"
  "ch AND 0xff = 0 \<Longrightarrow> cga_putChar ch f b c = settle (colorize ch f b) c"
  "ch AND 0xff \<notin> {0, 8, 9, 10, 13} \<Longrightarrow> cga_putChar ch f b c
     = settle (colorize ch f b) ((set_cell (unat (pos c)) (colorize ch f b) c)\<lparr>pos := pos c + 1\<rparr>)"
  by (cases "pos c = 0"; simp add: cga_putChar.simps [of ch] settle_def colorize_def Let_def word_gt_0)
    (simp_all add: cga_putChar.simps [of ch] settle_def colorize_def Let_def)


lemma serial_fields [simp]:
  "cells (serial_putChar ch f b c) = cells c" "pos (serial_putChar ch f b c) = pos c"
  by (simp_all add: serial_putChar_def serial_colored_def sout_def outb_def Let_def)

lemma set_cell_fields [simp]:
  "length (cells (set_cell i v c)) = length (cells c)" "pos (set_cell i v c) = pos c"
  by (simp_all add: set_cell_def)

lemma unat_pos_inc: "unat (p :: u16) < 2000 \<Longrightarrow> unat (p + 1) = unat p + 1"
  by (simp add: unat_word_ariths)

lemma newline_pos:
  "unat (p :: u16) < 2000 \<Longrightarrow> unat ((p + 80) div 80 * 80) = (unat p div 80 + 1) * 80"
proof -
  assume p: "unat p < 2000"
  have "(unat p + 80) div 80 = unat p div 80 + 1" by (rule div_add_self2) simp
  then show ?thesis using p by (simp add: unat_word_ariths unat_div)
qed

lemma cga_inv_plain:
  assumes "con_inv c" "ch AND 0xff \<noteq> 9"
  shows "con_inv (cga_putChar ch f b c)"
proof -
  have c: "length (cells c) = 2000" "unat (pos c) < 2000" using assms(1) by (simp_all add: con_inv_def)
  consider "ch AND 0xff = 8" | "ch AND 0xff = 10" | "ch AND 0xff = 13" | "ch AND 0xff = 0"
    | "ch AND 0xff \<notin> {0, 8, 9, 10, 13}" using assms(2) by auto
  then show ?thesis
  proof cases
    case 1
    have "unat (pos c - 1) \<le> 2000" if "0 < pos c"
      using c(2) that by (subst unat_minus_one) (auto simp: word_gt_0)
    then show ?thesis using c 1 by (auto simp: cga_cases intro!: settle_ok(1))
  next
    case 2
    have "unat (pos c) div 80 \<le> 24" using c(2) by simp
    then show ?thesis using c 2 by (auto simp: cga_cases newline_pos intro!: settle_ok(1))
  next
    case 3
    have "unat (pos c div 80 * 80) \<le> unat (pos c)"
      using c(2) by (simp add: unat_word_ariths unat_div)
    then show ?thesis using c 3 by (auto simp: cga_cases intro!: settle_ok(1))
  next
    case 4
    then show ?thesis using c by (auto simp: cga_cases intro!: settle_ok(1))
  next
    case 5
    then show ?thesis using c by (auto simp: cga_cases unat_pos_inc intro!: settle_ok(1))
  qed
qed

lemma cga_inv: "con_inv c \<Longrightarrow> con_inv (cga_putChar ch f b c)"
proof (cases "ch AND 0xff = 9")
  case True
  assume "con_inv c"
  then have "con_inv (cga_putChar 32 f b (cga_putChar 32 f b (cga_putChar 32 f b (cga_putChar 32 f b c))))"
    by (intro cga_inv_plain) simp_all
  then show ?thesis unfolding cga_cases(2) [OF True]
    by (intro settle_ok(1)) (simp_all add: con_inv_def)
qed (rule cga_inv_plain)

lemma kputChar_inv: "con_inv c \<Longrightarrow> con_inv (kputChar ch c)"
  using cga_inv [of c ch] by (simp add: con_inv_def kputChar_def)


section \<open>The kernel console as a sink\<close>

text \<open>The bytes transmitted on the serial line so far.\<close>

definition serial_log :: "console \<Rightarrow> u8 list" where
  "serial_log c = map snd (filter (\<lambda>w. fst w = COM1) (ports c))"

definition devices_ok :: "console \<Rightarrow> bool" where
  "devices_ok c \<longleftrightarrow> con_inv c \<and> serial_exists c \<and> addr_6845 c \<in> {MONO_BASE, CGA_BASE}"

lemma serial_log_outb: "serial_log (outb p v c) = serial_log c @ (if p = COM1 then [v] else [])"
  by (simp add: serial_log_def outb_def)

lemma cursorRefresh_log: "addr_6845 c \<in> {MONO_BASE, CGA_BASE} \<Longrightarrow> serial_log (cursorRefresh c) = serial_log c"
  by (auto simp: cursorRefresh_def serial_log_outb MONO_BASE_def CGA_BASE_def COM1_def)

lemma settle_devices:
  "length (cells c) = 2000 \<Longrightarrow> addr_6845 (settle ch c) = addr_6845 c \<and> serial_exists (settle ch c) = serial_exists c
     \<and> (addr_6845 c \<in> {MONO_BASE, CGA_BASE} \<longrightarrow> serial_log (settle ch c) = serial_log c)"
proof -
  assume l: "length (cells c) = 2000"
  have "serial_log (scroll ch c) = serial_log c" "addr_6845 (scroll ch c) = addr_6845 c"
      "serial_exists (scroll ch c) = serial_exists c"
    by (simp_all add: scroll_eq [OF l] serial_log_def)
  then show ?thesis
    using cursorRefresh_log [of c] cursorRefresh_log [of "scroll ch c"] by (simp add: settle_def)
qed

definition same_devices :: "console \<Rightarrow> console \<Rightarrow> bool" where
  "same_devices c c' \<longleftrightarrow> addr_6845 c' = addr_6845 c \<and> serial_exists c' = serial_exists c
     \<and> serial_log c' = serial_log c"

lemma set_cell_devices [simp]:
  "addr_6845 (set_cell i v c) = addr_6845 c" "serial_exists (set_cell i v c) = serial_exists c"
  "ports (set_cell i v c) = ports c"
  by (simp_all add: set_cell_def)

lemma cga_devices_plain:
  assumes "length (cells c) = 2000" "addr_6845 c \<in> {MONO_BASE, CGA_BASE}" "ch AND 0xff \<noteq> 9"
  shows "same_devices c (cga_putChar ch f b c)"
proof -
  have settled: "same_devices c (settle v c1)"
    if "length (cells c1) = 2000" "addr_6845 c1 = addr_6845 c" "serial_exists c1 = serial_exists c"
      "ports c1 = ports c" for v c1
    using settle_devices [OF that(1), of v] that assms(2) by (auto simp: same_devices_def serial_log_def)
  consider "ch AND 0xff = 8" | "ch AND 0xff = 10" | "ch AND 0xff = 13" | "ch AND 0xff = 0"
    | "ch AND 0xff \<notin> {0, 8, 9, 10, 13}" using assms(3) by auto
  then show ?thesis by cases (simp_all add: cga_cases assms(1) settled)
qed

lemma cga_devices: "devices_ok c \<Longrightarrow> same_devices c (cga_putChar ch f b c)"
proof -
  assume ok: "devices_ok c"
  have step: "devices_ok (cga_putChar 32 f b c') \<and> same_devices c (cga_putChar 32 f b c')"
    if "devices_ok c' \<and> same_devices c c'" for c'
  proof -
    have "same_devices c' (cga_putChar 32 f b c')"
      using that by (intro cga_devices_plain) (simp_all add: devices_ok_def con_inv_def)
    then show ?thesis using that cga_inv [of c' 32] by (auto simp: devices_ok_def same_devices_def)
  qed
  show ?thesis
  proof (cases "ch AND 0xff = 9")
    case True
    let ?t = "cga_putChar 32 f b"
    have four: "devices_ok (?t (?t (?t (?t c)))) \<and> same_devices c (?t (?t (?t (?t c))))"
      by (intro step) (simp add: ok same_devices_def)
    then show ?thesis
      using settle_devices [of "?t (?t (?t (?t c)))" "colorize ch f b"]
      unfolding cga_cases(2) [OF True] same_devices_def devices_ok_def con_inv_def by metis
  next
    case False
    then show ?thesis using ok by (intro cga_devices_plain) (simp_all add: devices_ok_def con_inv_def)
  qed
qed

definition serial_bytes :: "u32 \<Rightarrow> u8 list" where
  "serial_bytes ch = (if ch AND 0xff = 8 then [ucast ch, 32, ucast ch] else [ucast ch])"

lemma kputChar_devices:
  "devices_ok c \<Longrightarrow> devices_ok (kputChar ch c) \<and> serial_log (kputChar ch c) = serial_log c @ serial_bytes ch"
proof -
  assume ok: "devices_ok c"
  let ?c = "cga_putChar ch DEF_FORE DEF_BACK c"
  have d: "same_devices c ?c" by (rule cga_devices [OF ok])
  have "serial_log (kputChar ch c) = serial_log ?c @ serial_bytes ch"
    using ok d by (simp add: kputChar_def serial_putChar_def serial_colored_def sout_def serial_log_outb
        serial_bytes_def same_devices_def devices_ok_def COM_TX_def)
  moreover have "addr_6845 (kputChar ch c) = addr_6845 ?c" "serial_exists (kputChar ch c) = serial_exists ?c"
    by (simp_all add: kputChar_def serial_putChar_def serial_colored_def sout_def outb_def Let_def)
  ultimately show ?thesis
    using ok d kputChar_inv [of c ch] by (simp add: devices_ok_def same_devices_def)
qed

interpretation kout: char_sink kput_count "\<lambda>s. devices_ok (fst s)" "\<lambda>s. serial_log (fst s)" serial_bytes
  by unfold_locales (simp_all add: kput_count_def kputChar_devices)

interpretation kerr: char_sink kputChar devices_ok serial_log serial_bytes
  by unfold_locales (simp_all add: kputChar_devices)

text \<open>The characters that count: those with a non-zero code.\<close>

definition printed :: "u32 list \<Rightarrow> nat" where
  "printed cs = length (filter (\<lambda>ch. ch AND 0xff \<noteq> 0) cs)"

lemma kput_count_feed: "snd (feed kput_count cs (c, n)) = n + of_nat (printed cs)"
proof (induction cs arbitrary: c n)
  case (Cons ch cs)
  then show ?case by (simp add: kput_count_def printed_def)
qed (simp add: printed_def)

section \<open>Properties\<close>

text \<open>
  C19: Printing on the kernel console. For a format with complete directives \<open>printVa\<close> returns; its
  result is the number of characters with a non-zero code, the serial line has transmitted exactly
  the rendered characters in order (a backspace as backspace, blank, backspace), and the cursor is
  still inside the 80 by 25 display.
\<close>

theorem kprint_transcript:
  assumes "cstr m fmt xs" "wf_fmt xs" "devices_ok c"
  shows "\<exists>cs c'. rendered m fmt ap DEF_FORE DEF_BACK = Some cs
     \<and> kprintVa m fmt ap c = Some (c', of_nat (printed cs))
     \<and> serial_log c' = serial_log c @ concat (map serial_bytes cs) \<and> devices_ok c'"
proof -
  obtain c' n where r: "kprintVa m fmt ap c = Some (c', n)"
    using printFmt_loop_total [OF assms(1,2), of kput_count] unfolding kprintVa_def printFmtVa_def by fast
  then obtain cs where cs: "rendered m fmt ap DEF_FORE DEF_BACK = Some cs" "devices_ok c'"
      "serial_log c' = serial_log c @ concat (map serial_bytes cs)"
    using kout.print_seen [of "(c, 0)" m fmt ap DEF_FORE DEF_BACK "(c', n)"] assms(3)
    unfolding kprintVa_def by auto
  have "n = of_nat (printed cs)"
    using r cs(1) kput_count_feed [of cs c 0] unfolding kprintVa_def by (simp add: printFmtVa_feed)
  then show ?thesis using r cs by blast
qed


definition fresh_console :: console where
  "fresh_console = \<lparr>addr_6845 = CGA_BASE, cells = replicate 2000 0, pos = 0, serial_exists = True, ports = []\<rparr>"

lemma fresh_console_ok: "devices_ok fresh_console"
  by (simp add: devices_ok_def con_inv_def fresh_console_def)

theorem kprint_transcript_witness:
  "\<exists>cs c'. kprintVa demo_fmt 0x100 0x500 fresh_console = Some (c', of_nat (printed cs))
     \<and> serial_log c' = concat (map serial_bytes cs) \<and> devices_ok c'"
  using kprint_transcript [OF demo_fmt_cstr _ fresh_console_ok, of "0x500"]
  by (force simp: isDigit_def serial_log_def fresh_console_def)



end
