(* ===== verification/Readline.thy ===== *)
theory Readline
  imports Console
begin

text \<open>
  Line input: \<open>kernel/readline.cc\<close> and \<open>user/lib/readline.cc\<close>. Both loops are parameters of the
  characters' source and of the echo: the kernel reads the keyboard, a user task goes through system
  calls. \<open>getChar\<close> is declared to return a \<open>char\<close> (\<open>include/stdin.hh\<close>), so the caller sees the low
  byte sign-extended.
\<close>

section \<open>The loops\<close>

definition READLINE_BUF_SIZE :: nat where "READLINE_BUF_SIZE = 4096"

definition as_char :: "u32 \<Rightarrow> int" where
  "as_char v = sint (ucast v :: u8)"

partial_function (option) kreadline_loop ::
  "('s \<Rightarrow> (u32 \<times> 's) option) \<Rightarrow> (u32 \<Rightarrow> 's \<Rightarrow> 's) \<Rightarrow> u8 list \<Rightarrow> nat \<Rightarrow> 's \<Rightarrow> (u8 list \<times> 's) outcome option" where
  "kreadline_loop get put buf idx s =
     (case get s of None \<Rightarrow> None
      | Some r \<Rightarrow>
         let c = as_char (fst r); s = snd r in
         if c < 0 then Some (Inl (Panic ''Illegal input''))
         else if isSimpleChar c \<and> idx < READLINE_BUF_SIZE - 1 then
           kreadline_loop get put (buf[idx := word_of_int c]) (idx + 1) (put (word_of_int c) s)
         else if c = 8 \<and> idx > 0 then kreadline_loop get put buf (idx - 1) (put (word_of_int c) s)
         else if c = 13 \<or> c = 10 then Some (Inr (buf[idx := 0], put 10 s))
         else kreadline_loop get put buf idx s)"

partial_function (option) ureadline_loop ::
  "('s \<Rightarrow> (u32 \<times> 's) option) \<Rightarrow> (u32 \<Rightarrow> 's \<Rightarrow> 's) \<Rightarrow> u8 list \<Rightarrow> nat \<Rightarrow> 's \<Rightarrow> (u8 list \<times> 's) option" where
  "ureadline_loop get put buf idx s =
     (case get s of None \<Rightarrow> None
      | Some r \<Rightarrow>
         let c = as_char (fst r); s = snd r in
         if isSimpleChar c \<and> idx < READLINE_BUF_SIZE - 1 then
           ureadline_loop get put (buf[idx := word_of_int c]) (idx + 1) (put (word_of_int c) s)
         else if c = 8 \<and> idx > 0 then ureadline_loop get put buf (idx - 1) (put (word_of_int c) s)
         else if c = 13 \<or> c = 10 then Some (buf[idx := 0], put 10 s)
         else ureadline_loop get put buf idx s)"

text \<open>The kernel's input and output, and its \<open>readlineVa\<close> with the prompt (0 for a null format).\<close>

type_synonym kio = "kbd \<times> (u8 \<times> u8) list \<times> console"

definition kget :: "kio \<Rightarrow> (u32 \<times> kio) option" where
  "kget s = map_option (\<lambda>(c, k, polls). (c, k, polls, snd (snd s))) (getChar (fst (snd s)) (fst s))"

definition kput :: "u32 \<Rightarrow> kio \<Rightarrow> kio" where
  "kput ch s = (fst s, fst (snd s), kputChar ch (snd (snd s)))"

definition kreadlineVa :: "mem \<Rightarrow> u32 \<Rightarrow> u32 \<Rightarrow> u8 list \<Rightarrow> kio \<Rightarrow> (u8 list \<times> kio) outcome option" where
  "kreadlineVa m promptFmt ap buf s =
     (if promptFmt \<noteq> 0 then
        (case kprintVa m promptFmt ap (snd (snd s)) of None \<Rightarrow> None
         | Some r \<Rightarrow> kreadline_loop kget kput buf 0 (fst s, fst (snd s), fst r))
      else kreadline_loop kget kput buf 0 s)"

section \<open>Line editing\<close>

text \<open>
  What is typed, as a list of characters, edited into a line: the characters before the first line
  end, with backspaces applied and the buffer's capacity respected; then what is echoed for it, and
  what follows the line end.
\<close>

fun edit :: "u8 list \<Rightarrow> u8 list \<Rightarrow> (u8 list \<times> u32 list \<times> u8 list) option" where
  "edit line [] = None"
| "edit line (c # cs) =
     (if isSimpleChar (sint c) \<and> length line < 4095 then
        map_option (\<lambda>(l, e, r). (l, ucast c # e, r)) (edit (line @ [c]) cs)
      else if c = 8 \<and> line \<noteq> [] then map_option (\<lambda>(l, e, r). (l, ucast c # e, r)) (edit (butlast line) cs)
      else if c = 13 \<or> c = 10 then Some (line, [10], cs)
      else edit line cs)"

text \<open>
  The contract the loops rely on: a sink for the echo, and characters to come (\<open>stream\<close>), of which
  \<open>get\<close> takes the first and the echo none.
\<close>

locale line_terminal = char_sink put good seen shown
  for put :: "u32 \<Rightarrow> 's \<Rightarrow> 's" and good :: "'s \<Rightarrow> bool" and seen :: "'s \<Rightarrow> 'c list" and shown :: "u32 \<Rightarrow> 'c list" +
  fixes get :: "'s \<Rightarrow> (u32 \<times> 's) option" and stream :: "'s \<Rightarrow> u8 list"
  assumes get_next: "good s \<Longrightarrow> stream s = c # cs \<Longrightarrow>
      \<exists>s'. get s = Some (ucast c, s') \<and> good s' \<and> stream s' = cs \<and> seen s' = seen s"
    and put_stream: "good s \<Longrightarrow> stream (put ch s) = stream s"

lemma ucast_back8: "ucast (ucast (c :: u8) :: u32) = c"
  by (rule bit_word_eqI) (auto simp: bit_simps)

lemma as_char_ucast [simp]: "as_char (ucast (c :: u8)) = sint c"
  by (simp add: as_char_def ucast_back8)

lemma sint_keys [simp]: "sint (c :: u8) = 8 \<longleftrightarrow> c = 8" "sint c = 13 \<longleftrightarrow> c = 13" "sint c = 10 \<longleftrightarrow> c = 10"
  using sint_eq_iff8 [of c 8] sint_eq_iff8 [of c 13] sint_eq_iff8 [of c 10] by simp_all

lemma simple_nonneg: "isSimpleChar (sint (c :: u8)) \<Longrightarrow> 0 \<le> sint c"
  by (simp add: isSimpleChar_def)

lemma scast_nonneg: "0 \<le> sint (c :: u8) \<Longrightarrow> (word_of_int (sint c) :: u32) = ucast c"
proof -
  assume n: "0 \<le> sint c"
  have "uint c = take_bit 8 (sint c)" using uint_sint [of c] by simp
  moreover have "sint c < 256" using sint_lt [of c] by simp
  ultimately have "uint c = sint c" using n by (simp add: take_bit_int_eq_self)
  then show ?thesis by (metis ucast_eq)
qed

lemma take_edit:
  "take (length line) buf = line \<Longrightarrow> length line < length buf \<Longrightarrow>
   take (length line + 1) (buf[length line := c]) = line @ [c]"
  by (simp add: take_Suc_conv_app_nth)

text \<open>The buffer holds \<open>line\<close> in its first cells.\<close>

definition holds :: "u8 list \<Rightarrow> u8 list \<Rightarrow> bool" where
  "holds buf line \<longleftrightarrow> length buf = 4096 \<and> take (length line) buf = line \<and> length line \<le> 4095"

lemma holds_add: "holds buf line \<Longrightarrow> length line < 4095 \<Longrightarrow> holds (buf[length line := c]) (line @ [c])"
  using take_edit [of line buf c] by (simp add: holds_def)

lemma holds_del: "holds buf line \<Longrightarrow> holds buf (butlast line)"
proof -
  assume h: "holds buf line"
  have "take (length line - 1) buf = take (length line - 1) (take (length line) buf)" by simp
  also have "\<dots> = butlast line" using h by (simp only: holds_def butlast_conv_take)
  finally have "take (length line - 1) buf = butlast line" .
  then show ?thesis using h by (auto simp: holds_def)
qed

lemma holds_end: "holds buf line \<Longrightarrow> holds (buf[length line := 0]) line \<and> buf[length line := 0] ! length line = 0"
  by (simp add: holds_def)


lemma kreadline_step:
  assumes "get s = Some (ucast (c :: u8), s1)" "0 \<le> sint c"
  shows "kreadline_loop get put buf (length line) s =
     (if isSimpleChar (sint c) \<and> length line < 4095 then
        kreadline_loop get put (buf[length line := c]) (length line + 1) (put (ucast c) s1)
      else if c = 8 \<and> line \<noteq> [] then kreadline_loop get put buf (length line - 1) (put (ucast c) s1)
      else if c = 13 \<or> c = 10 then Some (Inr (buf[length line := 0], put 10 s1))
      else kreadline_loop get put buf (length line) s1)"
  using assms scast_nonneg [OF assms(2)]
  by (auto simp: kreadline_loop.simps [of get put buf "length line" s] Let_def READLINE_BUF_SIZE_def)

context line_terminal
begin

lemma kreadline_edit:
  "\<lbrakk>good s; stream s = cs; edit line cs = Some (res, echo, rest); \<forall>c\<in>set cs. 0 \<le> sint c; holds buf line\<rbrakk> \<Longrightarrow>
   \<exists>buf' s'. kreadline_loop get put buf (length line) s = Some (Inr (buf', s'))
     \<and> holds buf' res \<and> buf' ! length res = 0
     \<and> good s' \<and> stream s' = rest \<and> seen s' = seen s @ concat (map shown echo)"
proof (induction line cs arbitrary: s buf echo rule: edit.induct)
  case (2 line c cs)
  obtain s1 where s1: "get s = Some (ucast c, s1)" "good s1" "stream s1 = cs" "seen s1 = seen s"
    using get_next [OF 2(4,5)] by blast
  have nn: "0 \<le> sint c" "\<forall>c\<in>set cs. 0 \<le> sint c" using 2(7) by auto
  note step = kreadline_step [of get s c s1 put buf line, OF s1(1) nn(1)]
  note put1 = good_put [OF s1(2)] put_stream [OF s1(2)] seen_put [OF s1(2)]
  consider (simple) "isSimpleChar (sint c) \<and> length line < 4095"
    | (del) "\<not> (isSimpleChar (sint c) \<and> length line < 4095)" "c = 8 \<and> line \<noteq> []"
    | (eol) "\<not> (isSimpleChar (sint c) \<and> length line < 4095)" "c = 13 \<or> c = 10"
    | (other) "\<not> (isSimpleChar (sint c) \<and> length line < 4095)" "\<not> (c = 8 \<and> line \<noteq> [])" "\<not> (c = 13 \<or> c = 10)"
    by blast
  then show ?case
  proof cases
    case simple
    then obtain e where e: "edit (line @ [c]) cs = Some (res, e, rest)" "echo = ucast c # e"
      using 2(6) by auto
    show ?thesis
      using 2(1) [OF simple _ _ e(1) nn(2) holds_add [OF 2(8)], of "put (ucast c) s1"] simple put1 s1(3,4) e(2)
      unfolding step by auto
  next
    case del
    then obtain e where e: "edit (butlast line) cs = Some (res, e, rest)" "echo = ucast c # e"
      using 2(6) by auto
    show ?thesis
      using 2(2) [OF del _ _ e(1) nn(2) holds_del [OF 2(8)], of "put (ucast c) s1"] del put1 s1(3,4) e(2)
      unfolding step by auto
  next
    case eol
    then have e: "res = line" "echo = [10]" "rest = cs" using 2(6) by auto
    show ?thesis
      using eol put1 [of 10] s1(3,4) e holds_end [OF 2(8)] unfolding step by auto
  next
    case other
    then have e: "edit line cs = Some (res, echo, rest)" using 2(6) by auto
    show ?thesis
      using 2(3) [OF other s1(2,3) e nn(2) 2(8)] other s1(4) unfolding step by auto
  qed
qed simp

lemma kreadline_negative:
  "\<lbrakk>good s; stream s = cs @ c # rest; sint c < 0; edit line cs = None; \<forall>c\<in>set cs. 0 \<le> sint c\<rbrakk> \<Longrightarrow>
   kreadline_loop get put buf (length line) s = Some (Inl (Panic ''Illegal input''))"
proof (induction line cs arbitrary: s buf rule: edit.induct)
  case (1 line)
  then obtain s1 where "get s = Some (ucast c, s1)" using get_next by fastforce
  then show ?case
    using 1(3) by (simp add: kreadline_loop.simps [of get put buf "length line" s] Let_def)
next
  case (2 line d cs)
  obtain s1 where s1: "get s = Some (ucast d, s1)" "good s1" "stream s1 = cs @ c # rest"
    using get_next [OF 2(4), of d "cs @ c # rest"] 2(5) by auto
  have nn: "0 \<le> sint d" "\<forall>c\<in>set cs. 0 \<le> sint c" using 2(8) by auto
  note IH = 2(1-3)
  show ?case
    using IH [where s = "put (ucast d) s1"] IH [where s = s1] s1 good_put [OF s1(2)] put_stream [OF s1(2)] 2(6,7) nn
    unfolding kreadline_step [of get s d s1 put buf line, OF s1(1) nn(1)] by (auto split: if_splits)
qed

end

text \<open>The two loops differ only where the kernel panics.\<close>

lemma ureadline_agrees:
  "kreadline_loop get put buf idx s = Some (Inr r) \<Longrightarrow> ureadline_loop get put buf idx s = Some r"
proof -
  have "\<forall>r'. y = Inr r' \<longrightarrow> ureadline_loop get put buf idx s = Some r'" if "kreadline_loop get put buf idx s = Some y" for y
    using that
  proof (induction buf idx s y rule: kreadline_loop.raw_induct [rotated, consumes 1])
    case (1 loop get put buf idx s y)
    then obtain c s1 where g: "get s = Some (c, s1)" by (cases "get s") auto
    show ?case
      using 1 g
      by (auto simp: ureadline_loop.simps [of get put buf idx s] Let_def isSimpleChar_def split: if_splits)
  qed
  then show "kreadline_loop get put buf idx s = Some (Inr r) \<Longrightarrow> ?thesis" by blast
qed

section \<open>The kernel's terminal\<close>

text \<open>All characters the polls to come decode to, over as many runs of \<open>kbdIntr\<close> as it takes.\<close>

fun all_chars :: "(u8 \<times> u8) list \<Rightarrow> kbd \<Rightarrow> u8 list" where
  "all_chars [] k = []"
| "all_chars ((stat, dat) # polls) k =
     (let (c, k') = kbdProcessData stat dat k in
      if c = -1 \<or> c = 0 then all_chars polls k' else word_of_int c # all_chars polls k')"

lemma all_chars_cong: "shift k = shift k' \<Longrightarrow> all_chars polls k = all_chars polls k'"
proof (induction polls arbitrary: k k')
  case (Cons p polls)
  obtain st d where p: "p = (st, d)" by (cases p)
  note c = process_shift_cong [OF Cons.prems, of st d]
  have "all_chars polls (snd (kbdProcessData st d k)) = all_chars polls (snd (kbdProcessData st d k'))"
    using c by (intro Cons.IH) simp
  then show ?case using c by (simp add: p Let_def split_beta)
qed simp

lemma kbdIntr_rest:
  "all_chars polls k = kbd_chars polls k @ all_chars (snd (kbdIntr polls k)) (fst (kbdIntr polls k))
     \<and> length (snd (kbdIntr polls k)) \<le> length polls - 1"
proof (induction polls k rule: kbdIntr.induct)
  case (2 st d polls k)
  obtain c k1 where p: "kbdProcessData st d k = (c, k1)" by (cases "kbdProcessData st d k")
  have a: "all_chars polls (kbd_put (word_of_int c) k1) = all_chars polls k1"
      "kbd_chars polls (kbd_put (word_of_int c) k1) = kbd_chars polls k1"
    by (rule all_chars_cong, simp, rule kbd_chars_cong, simp)
  show ?case
    using p 2(1) [OF p [symmetric] refl] 2(2) [OF p [symmetric] refl] a by (cases "c = -1"; cases "c = 0") auto
qed simp

lemma process_range:
  "fst (kbdProcessData st d k) = -1 \<or> (0 \<le> fst (kbdProcessData st d k) \<and> fst (kbdProcessData st d k) \<le> 255)"
proof (cases "st AND KBS_DIB \<noteq> 0 \<and> st AND KBS_TERR = 0 \<and> d AND 0x80 = 0")
  case True
  then show ?thesis using process_press [of st d k] by blast
next
  case False
  then show ?thesis by (auto simp: kbdProcessData_def)
qed

lemma all_chars_nonzero: "0 \<notin> set (all_chars polls k)"
proof (induction polls k rule: all_chars.induct)
  case (2 st d polls k)
  obtain c k' where p: "kbdProcessData st d k = (c, k')" by (cases "kbdProcessData st d k")
  have r: "(word_of_int c :: u8) \<noteq> 0" if "c \<noteq> -1" "c \<noteq> 0"
    using process_range [of st d k] that p by (auto simp: word_of_int_eq_0_iff dvd_imp_le_int zdvd_not_zless)
  show ?case
    using 2 [OF p [symmetric] refl] p r by (auto simp: Let_def)
qed simp

definition kstream :: "kio \<Rightarrow> u8 list" where
  "kstream s = contents (fst s) @ all_chars (fst (snd s)) (fst s)"

definition kio_ok :: "kio \<Rightarrow> bool" where
  "kio_ok s \<longleftrightarrow> kbd_inv (fst s) \<and> 0 \<notin> set (contents (fst s)) \<and> length (kstream s) \<le> 511 \<and> devices_ok (snd (snd s))"


lemma kget_next:
  "kio_ok s \<Longrightarrow> kstream s = c # cs \<Longrightarrow>
   \<exists>s'. kget s = Some (ucast c, s') \<and> kio_ok s' \<and> kstream s' = cs \<and> snd (snd s') = snd (snd s)"
proof -
  have "\<exists>k' polls'. getChar polls k = Some (ucast c, k', polls') \<and> kio_ok (k', polls', con) \<and> kstream (k', polls', con) = cs"
    if "kio_ok (k, polls, con)" "kstream (k, polls, con) = c # cs" for k polls con
    using that
  proof (induction "length polls" arbitrary: k polls rule: less_induct)
    case less
    obtain k1 rest where k1: "kbdIntr polls k = (k1, rest)" by (cases "kbdIntr polls k")
    have rest: "all_chars polls k = kbd_chars polls k @ all_chars rest k1" "length rest \<le> length polls - 1"
      using kbdIntr_rest [of polls k] k1 by simp_all
    have ok: "kbd_inv k" "length (contents k) + length (kbd_chars polls k) \<le> 511"
        "0 \<notin> set (contents k)" "devices_ok con"
      using less(2) rest by (simp_all add: kio_ok_def kstream_def)
    obtain v k2 where v: "kbdGetNextChar polls k = (v, k2, rest)" "kbd_inv k2" "shift k2 = shift k1"
        "case contents k @ kbd_chars polls k of [] \<Rightarrow> v = 0 \<and> contents k2 = []
           | x # xs \<Rightarrow> v = ucast x \<and> contents k2 = xs"
      using kbd_next [OF ok(1,2)] k1 by auto
    have st: "kstream (k2, rest, con) = contents k2 @ all_chars rest k1"
      using all_chars_cong [OF v(3)] by (simp add: kstream_def)
    show ?case
    proof (cases "contents k @ kbd_chars polls k")
      case Nil
      then have "kstream (k2, rest, con) = c # cs" "v = 0" "contents k2 = []"
        using less(3) v(4) st rest by (simp_all add: kstream_def)
      moreover have "polls \<noteq> []" using less(3) Nil by (auto simp: kstream_def)
      then have "length rest < length polls" using rest(2) by (cases polls) auto
      moreover have "kio_ok (k2, rest, con)"
        using less(2,3) \<open>contents k2 = []\<close> \<open>kstream (k2, rest, con) = c # cs\<close> v(2) by (simp add: kio_ok_def)
      ultimately show ?thesis
        using less(1) [of rest k2] v(1) by (subst getChar.simps) (simp add: Let_def)
    next
      case (Cons x xs)
      have "0 \<notin> set (contents k @ all_chars polls k)" using ok(3) all_chars_nonzero by simp
      then have "x \<noteq> 0" "0 \<notin> set xs" using Cons rest(1) by (auto simp flip: append_assoc)
      then have "(ucast x :: u32) \<noteq> 0" using ucast_back8 [of x] by auto
      then have "getChar polls k = Some (v, k2, rest)"
        using v(1,4) Cons by (subst getChar.simps) (simp add: Let_def)
      moreover have "contents k @ all_chars polls k = x # xs @ all_chars rest k1"
        using Cons rest(1) by (simp flip: append_assoc)
      then have "c = x" "kstream (k2, rest, con) = cs"
        using less(3) v(4) Cons st by (simp_all add: kstream_def)
      moreover have "kio_ok (k2, rest, con)"
        using less(2,3) v(2,4) Cons \<open>0 \<notin> set xs\<close> \<open>kstream (k2, rest, con) = cs\<close> by (simp add: kio_ok_def)
      ultimately show ?thesis using v(4) Cons by auto
    qed
  qed
  then show "kio_ok s \<Longrightarrow> kstream s = c # cs \<Longrightarrow> ?thesis"
    by (cases s) (fastforce simp: kget_def)
qed

interpretation kterm: line_terminal kput kio_ok "\<lambda>s. serial_log (snd (snd s))" serial_bytes kget kstream
proof
  show "kio_ok s \<Longrightarrow> kstream s = c # cs \<Longrightarrow>
      \<exists>s'. kget s = Some (ucast c, s') \<and> kio_ok s' \<and> kstream s' = cs
        \<and> serial_log (snd (snd s')) = serial_log (snd (snd s))" for s c cs
    using kget_next by metis
qed (simp_all add: kio_ok_def kput_def kputChar_devices kstream_def)

section \<open>Properties\<close>


text \<open>Pressing B, backspace, A, return.\<close>

definition typed_line :: kio where
  "typed_line = (fresh_kbd, [(1, 0x30), (1, 0xB0), (1, 0x0E), (1, 0x8E), (0, 0), (1, 0x1E), (1, 0x9E), (1, 0x1C)], fresh_console)"

lemma typed_line_stream: "kstream typed_line = [98, 8, 97, 10]"
  unfolding kstream_def typed_line_def by code_simp

lemma typed_line_ok: "kio_ok typed_line"
  using typed_line_stream by (simp add: kio_ok_def typed_line_def fresh_console_ok)


text \<open>
  A key with a code above 127 (an arrow key, say) typed before the line end makes the kernel's
  reader panic, because \<open>getChar\<close> hands it out as a negative \<open>char\<close>.
\<close>

theorem kreadline_special_key:
  assumes "kio_ok s" "kstream s = cs @ c # rest" "sint c < 0" "edit [] cs = None" "\<forall>c\<in>set cs. 0 \<le> sint c"
  shows "kreadline_loop kget kput buf 0 s = Some (Inl (Panic ''Illegal input''))"
  using kterm.kreadline_negative [OF assms, of buf] by simp

theorem kreadline_special_key_witness:
  "kreadline_loop kget kput (replicate 4096 0) 0 (fresh_kbd, [(1, 0xE0), (1, 0x48)], fresh_console)
     = Some (Inl (Panic ''Illegal input''))"
proof -
  have "kstream (fresh_kbd, [(1, 0xE0), (1, 0x48)], fresh_console) = [0xE2]"
    unfolding kstream_def by code_simp
  then show ?thesis
    by (intro kreadline_special_key [where cs = "[]" and c = "0xE2" and rest = "[]"])
      (simp_all add: kio_ok_def fresh_console_ok)
qed

text \<open>
  The user library's loop is the kernel's: whenever the kernel's loop returns a line, the user's
  loop on the same source of characters returns the same buffer and ends in the same state.
\<close>

lemma readline_user_agrees:
  assumes "kreadline_loop get put buf idx s = Some (Inr r)"
  shows "ureadline_loop get put buf idx s = Some r"
  by (rule ureadline_agrees [OF assms])

lemma readline_user_agrees_example:
  "ureadline_loop (\<lambda>s. Some (13, s)) (\<lambda>c s. s @ [c]) [1] 0 [] = Some ([0], [10])"
  by (rule readline_user_agrees) (simp add: kreadline_loop.simps Let_def as_char_def isSimpleChar_def)

end
