(* ===== verification/Elf.thy ===== *)
theory Elf
  imports ByteMem
begin

text \<open>
  The ELF headers of \<open>include/elf.h\<close> as they are read from memory, little endian, at the offsets the
  C structs give them.
\<close>

record Elf =
  e_magic :: u32
  e_elf :: "u8 list"
  e_type :: u16
  e_machine :: u16
  e_version :: u32
  e_entry :: u32
  e_phoff :: u32
  e_shoff :: u32
  e_flags :: u32
  e_ehsize :: u16
  e_phentsize :: u16
  e_phnum :: u16
  e_shentsize :: u16
  e_shnum :: u16
  e_shstrndx :: u16

record Proghdr =
  p_type :: u32
  p_offset :: u32
  p_va :: u32
  p_pa :: u32
  p_filesz :: u32
  p_memsz :: u32
  p_flags :: u32
  p_align :: u32

definition ELF_MAGIC :: u32 where "ELF_MAGIC = 0x464C457F"
definition ELF_PROG_LOAD :: u32 where "ELF_PROG_LOAD = 1"
definition SIZEOF_Proghdr :: u32 where "SIZEOF_Proghdr = 32"

definition elf_at :: "mem \<Rightarrow> u32 \<Rightarrow> Elf" where
  "elf_at m a = \<lparr>e_magic = load32 m a, e_elf = load_bytes m (a + 4) 12, e_type = load16 m (a + 16),
     e_machine = load16 m (a + 18), e_version = load32 m (a + 20), e_entry = load32 m (a + 24),
     e_phoff = load32 m (a + 28), e_shoff = load32 m (a + 32), e_flags = load32 m (a + 36),
     e_ehsize = load16 m (a + 40), e_phentsize = load16 m (a + 42), e_phnum = load16 m (a + 44),
     e_shentsize = load16 m (a + 46), e_shnum = load16 m (a + 48), e_shstrndx = load16 m (a + 50)\<rparr>"

definition proghdr_at :: "mem \<Rightarrow> u32 \<Rightarrow> Proghdr" where
  "proghdr_at m a = \<lparr>p_type = load32 m a, p_offset = load32 m (a + 4), p_va = load32 m (a + 8),
     p_pa = load32 m (a + 12), p_filesz = load32 m (a + 16), p_memsz = load32 m (a + 20),
     p_flags = load32 m (a + 24), p_align = load32 m (a + 28)\<rparr>"

text \<open>Memories that agree on a header's bytes agree on the header.\<close>

lemma load16_same:
  assumes "\<And>i. k \<le> i \<Longrightarrow> i < k + 2 \<Longrightarrow> m (a + of_nat i) = m' (a + of_nat i)"
  shows "load16 m (a + of_nat k) = load16 m' (a + of_nat k)"
  using assms [of k] assms [of "k + 1"] by (simp add: load16_def add_ac)

lemma load32_same:
  assumes "\<And>i. k \<le> i \<Longrightarrow> i < k + 4 \<Longrightarrow> m (a + of_nat i) = m' (a + of_nat i)"
  shows "load32 m (a + of_nat k) = load32 m' (a + of_nat k)"
proof -
  have "m (a + of_nat k + of_nat j) = m' (a + of_nat k + of_nat j)" if "j < 4" for j
    using assms [of "k + j"] that by (simp add: add.assoc)
  from this [of 0] this [of 1] this [of 2] this [of 3] show ?thesis by (simp add: load32_def)
qed

lemma proghdr_cong:
  assumes "\<And>i. i < 32 \<Longrightarrow> m (a + of_nat i) = m' (a + of_nat i)"
  shows "proghdr_at m a = proghdr_at m' a"
proof -
  have "load32 m (a + of_nat k) = load32 m' (a + of_nat k)" if "k + 4 \<le> 32" for k
    by (rule load32_same) (use assms that in simp)
  from this [of 0] this [of 4] this [of 8] this [of 12] this [of 16] this [of 20] this [of 24] this [of 28] show ?thesis
    by (simp add: proghdr_at_def)
qed

lemma elf_cong:
  assumes "\<And>i. i < 52 \<Longrightarrow> m (a + of_nat i) = m' (a + of_nat i)"
  shows "elf_at m a = elf_at m' a"
proof -
  have "load32 m (a + of_nat k) = load32 m' (a + of_nat k)" if "k + 4 \<le> 52" for k
    by (rule load32_same) (use assms that in simp)
  from this [of 0] this [of 20] this [of 24] this [of 28] this [of 32] this [of 36]
  have 4: "load32 m a = load32 m' a" "load32 m (a + 20) = load32 m' (a + 20)" "load32 m (a + 24) = load32 m' (a + 24)"
    "load32 m (a + 28) = load32 m' (a + 28)" "load32 m (a + 32) = load32 m' (a + 32)" "load32 m (a + 36) = load32 m' (a + 36)"
    by simp_all
  have "load16 m (a + of_nat k) = load16 m' (a + of_nat k)" if "k + 2 \<le> 52" for k
    by (rule load16_same) (use assms that in simp)
  from this [of 16] this [of 18] this [of 40] this [of 42] this [of 44] this [of 46] this [of 48] this [of 50]
  have 2: "load16 m (a + 16) = load16 m' (a + 16)" "load16 m (a + 18) = load16 m' (a + 18)"
    "load16 m (a + 40) = load16 m' (a + 40)" "load16 m (a + 42) = load16 m' (a + 42)" "load16 m (a + 44) = load16 m' (a + 44)"
    "load16 m (a + 46) = load16 m' (a + 46)" "load16 m (a + 48) = load16 m' (a + 48)" "load16 m (a + 50) = load16 m' (a + 50)"
    by simp_all
  have "m (a + 4 + of_nat i) = m' (a + 4 + of_nat i)" if "i < 12" for i
    using assms [of "4 + i"] that by (simp add: add.assoc)
  then show ?thesis by (simp add: elf_at_def load_bytes_def 2 4)
qed

end
