(* ===== verification/TaskMem.thy ===== *)
theory TaskMem
  imports PageDir Elf
begin

text \<open>
  The memory of a task (\<open>kernel/task.cc\<close>): \<open>setupMemory\<close>, \<open>regionAlloc\<close>, the copying loop of \<open>loadElf\<close>
  and the part of \<open>Task::free\<close> that takes the address space apart. The task's record is not needed
  here; its \<open>pageDir\<close> is an argument.
\<close>

section \<open>Operations\<close>

text \<open>\<open>setupMemory\<close>: the new directory's address, or \<open>None\<close> for \<open>noMemory\<close>.\<close>

definition setup_memory :: "vmem \<Rightarrow> (u32 option \<times> vmem) outcome" where
  "setup_memory s = bindE (page_alloc True s) (\<lambda>(page, s1).
     case page of None \<Rightarrow> Inr (None, s1)
     | Some i \<Rightarrow>
       bindE (toKernV s1 i) (\<lambda>pageDir.
       let s2 = s1\<lparr>kmem := mem_copy (kmem s1) pageDir (kernelPageDir s1) PGSIZE\<rparr> in
       bindE (incRef i s2) (\<lambda>s3.
       bindE (PHY_ADDR pageDir) (\<lambda>pa.
       Inr (Some pageDir, s3\<lparr>kmem := store32 (kmem s3) (pageDir + 4 * PDX UVPT) (pa OR PTE_U OR PTE_P)\<rparr>)))))"

definition region_step :: "u32 \<Rightarrow> u32 \<Rightarrow> vmem \<Rightarrow> vmem outcome" where
  "region_step pageDir vaIt s = bindE (page_alloc True s) (\<lambda>(page, s1).
     case page of None \<Rightarrow> Inl (Panic ''out of memory'')
     | Some i \<Rightarrow> bindE (insert_page pageDir i vaIt (PTE_U OR PTE_W) s1) (\<lambda>(r, s2).
         if r \<noteq> ok then Inl (Panic ''insert page failed'') else Inr s2))"

partial_function (option) region_loop :: "u32 \<Rightarrow> u32 \<Rightarrow> u32 \<Rightarrow> vmem \<Rightarrow> vmem outcome option" where
  "region_loop pageDir vaHi vaIt s =
     (if vaIt < vaHi then
        (case region_step pageDir vaIt s of
           Inl e \<Rightarrow> Some (Inl e)
         | Inr s1 \<Rightarrow> region_loop pageDir vaHi (vaIt + PGSIZE) s1)
      else Some (Inr s))"

definition regionAlloc :: "u32 \<Rightarrow> u32 \<Rightarrow> u32 \<Rightarrow> vmem \<Rightarrow> vmem outcome option" where
  "regionAlloc pageDir va len s =
     (let vaLo = ROUNDDOWN va PGSIZE; vaHi = ROUNDUP (va + len) PGSIZE in
      if vaHi \<le> vaLo then Some (Inl (Panic ''bad va'')) else region_loop pageDir vaHi vaLo s)"

text \<open>
  The processor's translation of an address through a directory, as the address at which the kernel
  sees the byte; \<open>None\<close> is a page fault.
\<close>

definition mmu_walk :: "mem \<Rightarrow> u32 \<Rightarrow> u32 \<Rightarrow> u32 option" where
  "mmu_walk m pageDir va =
     (let pde = load32 m (pageDir + 4 * PDX va) in
      if \<not> present pde then None else
      let pte = load32 m (PTE_ADDR pde + KERNBASE + 4 * PTX va) in
      if \<not> present pte then None else Some (PTE_ADDR pte + KERNBASE + PGOFF va))"

text \<open>
  \<open>mem::copy\<close> to the task's address space while its directory is loaded. The kernel's own addresses,
  among them the binary's, are the same in every directory. A fault in the kernel panics.
\<close>

primrec copy_user :: "u32 \<Rightarrow> u32 \<Rightarrow> u32 \<Rightarrow> nat \<Rightarrow> mem \<Rightarrow> mem outcome" where
  "copy_user pageDir dest src 0 m = Inr m"
| "copy_user pageDir dest src (Suc count) m =
     (case mmu_walk m pageDir dest of
        None \<Rightarrow> Inl (Panic ''Unhandled page fault from kernel'')
      | Some a \<Rightarrow> copy_user pageDir (dest + 1) (src + 1) count (m(a := m src)))"

partial_function (option) load_loop :: "u32 \<Rightarrow> u32 \<Rightarrow> u32 \<Rightarrow> u32 \<Rightarrow> vmem \<Rightarrow> vmem outcome option" where
  "load_loop pageDir binary eph ph s =
     (if ph < eph then
        let p = proghdr_at (kmem s) ph in
        if p_type p \<noteq> ELF_PROG_LOAD \<or> p_memsz p = 0 then load_loop pageDir binary eph (ph + SIZEOF_Proghdr) s
        else (case regionAlloc pageDir (p_va p) (p_memsz p) s of
            None \<Rightarrow> None
          | Some r \<Rightarrow> (case r of
              Inl e \<Rightarrow> Some (Inl e)
            | Inr s1 \<Rightarrow> (case copy_user pageDir (p_va p) (binary + p_offset p) (unat (p_filesz p)) (kmem s1) of
                Inl e \<Rightarrow> Some (Inl e)
              | Inr m \<Rightarrow> load_loop pageDir binary eph (ph + SIZEOF_Proghdr) (s1\<lparr>kmem := m\<rparr>))))
      else Some (Inr s))"

definition lcr3 :: "u32 \<Rightarrow> vmem \<Rightarrow> vmem" where
  "lcr3 pa s = s\<lparr>hwlog := Lcr3 pa # hwlog s\<rparr>"

text \<open>\<open>loadElf\<close> up to the trap frame: the entry point it will be given.\<close>

definition load_elf :: "u32 \<Rightarrow> u32 \<Rightarrow> vmem \<Rightarrow> (u32 \<times> vmem) outcome option" where
  "load_elf pageDir binary s =
     (let elf = elf_at (kmem s) binary; ph = binary + e_phoff elf;
          eph = ph + SIZEOF_Proghdr * ucast (e_phnum elf) in
      if e_magic elf \<noteq> ELF_MAGIC then Some (Inl (Panic ''bad elf binary''))
      else case PHY_ADDR pageDir of Inl e \<Rightarrow> Some (Inl e)
      | Inr pa \<Rightarrow> (case load_loop pageDir binary eph ph (lcr3 pa s) of
          None \<Rightarrow> None | Some (Inl e) \<Rightarrow> Some (Inl e)
        | Some (Inr s1) \<Rightarrow> (case PHY_ADDR (kernelPageDir s1) of Inl e \<Rightarrow> Some (Inl e)
          | Inr kpa \<Rightarrow> (case regionAlloc pageDir (USTACKTOP - PGSIZE) PGSIZE (lcr3 kpa s1) of
              None \<Rightarrow> None | Some (Inl e) \<Rightarrow> Some (Inl e)
            | Some (Inr s2) \<Rightarrow> Some (Inr (load32 (kmem s2) (binary + 24), s2))))))"

text \<open>\<open>Task::free\<close>: one entry, one table with all its entries, everything below \<open>UTOP\<close>.\<close>

definition free_entry :: "u32 \<Rightarrow> u32 \<Rightarrow> nat \<Rightarrow> nat \<Rightarrow> vmem \<Rightarrow> vmem outcome" where
  "free_entry pageDir pageTable pdx ptx s =
     (if present (load32 (kmem s) (pageTable + 4 * of_nat ptx))
      then remove pageDir (PGADDR (of_nat pdx) (of_nat ptx) 0) s else Inr s)"

definition free_table :: "u32 \<Rightarrow> nat \<Rightarrow> vmem \<Rightarrow> vmem outcome" where
  "free_table pageDir pdx s =
     (let pde = load32 (kmem s) (pageDir + 4 * of_nat pdx) in
      if \<not> present pde then Inr s else
      bindE (KERN_ADDR s (PTE_ADDR pde)) (\<lambda>pageTable.
      bindE (foldE (free_entry pageDir pageTable pdx) [0..<1024] s) (\<lambda>s1.
      let s2 = s1\<lparr>kmem := store32 (kmem s1) (pageDir + 4 * of_nat pdx) 0\<rparr> in
      bindE (fromPhy s2 (PTE_ADDR pde)) (\<lambda>i. decRef i s2))))"

definition free_memory :: "u32 \<Rightarrow> vmem \<Rightarrow> vmem outcome" where
  "free_memory pageDir s =
     bindE (foldE (free_table pageDir) [0..<unat (PDX UTOP)] s) (\<lambda>s1.
     bindE (PHY_ADDR pageDir) (\<lambda>pa. bindE (fromPhy s1 pa) (\<lambda>i. decRef i s1)))"

section \<open>A task's address space\<close>

text \<open>
  The pages of an address space that are its own: the directory, the tables below \<open>UTOP\<close>, and the
  pages they map. \<open>owned_inv\<close>: they are used once each.
\<close>

definition utop_ix :: nat where "utop_ix = unat (PDX UTOP)"

definition tables :: "(nat \<Rightarrow> nat \<Rightarrow> u32) \<Rightarrow> nat \<Rightarrow> nat set" where
  "tables pv d = {pn (pv d j) | j. j < utop_ix \<and> present (pv d j)}"

definition mapped :: "(nat \<Rightarrow> nat \<Rightarrow> u32) \<Rightarrow> nat \<Rightarrow> nat set" where
  "mapped pv d = {pn (lookup pv d j l) | j l. j < utop_ix \<and> l < 1024 \<and> present (lookup pv d j l)}"

definition owned :: "vmem \<Rightarrow> nat \<Rightarrow> nat set" where
  "owned s d = {d} \<union> tables (view (kmem s)) d \<union> mapped (view (kmem s)) d"

definition owned_inv :: "vmem \<Rightarrow> nat \<Rightarrow> nat list \<Rightarrow> bool" where
  "owned_inv s d fl \<longleftrightarrow> alloc_inv s fl \<and> dir_ok s d fl
     \<and> (\<forall>k\<in>owned s d. refCount (pages s ! k) = 1)
     \<and> (present (view (kmem s) d uvpt_ix) \<longrightarrow> pn (view (kmem s) d uvpt_ix) = d)
     \<and> (\<forall>j l. j < utop_ix \<longrightarrow> l < 1024 \<longrightarrow> present (lookup (view (kmem s)) d j l) \<longrightarrow>
          data_page (view (kmem s)) d (unat (nPages s)) fl (pn (lookup (view (kmem s)) d j l))
          \<and> (\<forall>j' l'. j' < utop_ix \<longrightarrow> l' < 1024 \<longrightarrow> present (lookup (view (kmem s)) d j' l') \<longrightarrow>
               pn (lookup (view (kmem s)) d j' l') = pn (lookup (view (kmem s)) d j l) \<longrightarrow> j' = j \<and> l' = l))"

lemma owned_inv_alloc: "owned_inv s d fl \<Longrightarrow> alloc_inv s fl"
  and owned_inv_dir: "owned_inv s d fl \<Longrightarrow> dir_ok s d fl"
  and owned_inv_ref: "owned_inv s d fl \<Longrightarrow> k \<in> owned s d \<Longrightarrow> refCount (pages s ! k) = 1"
  and owned_inv_uvpt: "owned_inv s d fl \<Longrightarrow> present (view (kmem s) d uvpt_ix) \<Longrightarrow> pn (view (kmem s) d uvpt_ix) = d"
  and owned_inv_data: "owned_inv s d fl \<Longrightarrow> j < utop_ix \<Longrightarrow> l < 1024 \<Longrightarrow> present (lookup (view (kmem s)) d j l) \<Longrightarrow>
        data_page (view (kmem s)) d (unat (nPages s)) fl (pn (lookup (view (kmem s)) d j l))"
  and owned_inv_once: "owned_inv s d fl \<Longrightarrow> j < utop_ix \<Longrightarrow> l < 1024 \<Longrightarrow> present (lookup (view (kmem s)) d j l) \<Longrightarrow>
        j' < utop_ix \<Longrightarrow> l' < 1024 \<Longrightarrow> present (lookup (view (kmem s)) d j' l') \<Longrightarrow>
        pn (lookup (view (kmem s)) d j' l') = pn (lookup (view (kmem s)) d j l) \<Longrightarrow> j' = j \<and> l' = l"
  unfolding owned_inv_def by blast+

lemma utop_bounds [simp]: "utop_ix = 891" "uvpt_ix = 893"
  by (simp_all add: utop_ix_def uvpt_ix_def unat_PDX mmu_consts)

lemma mappedI:
  "j < utop_ix \<Longrightarrow> l < 1024 \<Longrightarrow> present (lookup pv d j l) \<Longrightarrow> pn (lookup pv d j l) \<in> mapped pv d"
  unfolding mapped_def by blast

lemma mappedE:
  assumes "k \<in> mapped pv d"
  obtains j l where "j < utop_ix" "l < 1024" "present (lookup pv d j l)" "k = pn (lookup pv d j l)"
  using assms unfolding mapped_def by blast

lemma tablesI: "j < utop_ix \<Longrightarrow> present (pv d j) \<Longrightarrow> pn (pv d j) \<in> tables pv d"
  unfolding tables_def by blast

lemma tables_cong:
  assumes "\<And>j. j < utop_ix \<Longrightarrow> pv d j = pv' d' j"
  shows "tables pv d = tables pv' d'"
  unfolding tables_def using assms by (metis (mono_tags, lifting))

lemma owned_lt: "owned_inv s d fl \<Longrightarrow> k \<in> owned s d \<Longrightarrow> k < unat (nPages s) \<and> k \<notin> set fl"
  using owned_inv_dir [of s d fl] owned_inv_data [of s d fl] dir_inv_table [of "view (kmem s)" d _ fl]
  by (fastforce simp: owned_def tables_def mapped_def dir_inv_def data_page_def)

lemma data_page_own: "data_page pv d n fl k \<Longrightarrow> k \<noteq> d \<and> k \<notin> tables pv d"
proof -
  assume k: "data_page pv d n fl k"
  have "k \<notin> tables pv d"
  proof
    assume "k \<in> tables pv d"
    then obtain j where "k = pn (pv d j)" "j < utop_ix" "present (pv d j)" unfolding tables_def by blast
    then show False using k spec [of "\<lambda>j. j < 1024 \<longrightarrow> present (pv d j) \<longrightarrow> pn (pv d j) \<noteq> k" j]
      by (simp add: data_page_def)
  qed
  then show ?thesis using k by (simp add: data_page_def)
qed

text \<open>
  How taking an address space apart proceeds: pages move from the address space to the free list,
  and nothing outside it changes.
\<close>

definition shrinks :: "nat \<Rightarrow> vmem \<Rightarrow> nat list \<Rightarrow> vmem \<Rightarrow> nat list \<Rightarrow> bool" where
  "shrinks d s fl s' fl' \<longleftrightarrow> owned_inv s' d fl' \<and> set fl' \<union> owned s' d = set fl \<union> owned s d
     \<and> owned s' d \<subseteq> owned s d \<and> nPages s' = nPages s
     \<and> (\<forall>k. k \<notin> owned s d \<longrightarrow> pages s' ! k = pages s ! k \<and> view (kmem s') k = view (kmem s) k)"

lemma shrinks_refl: "owned_inv s d fl \<Longrightarrow> shrinks d s fl s fl"
  by (simp add: shrinks_def)

lemma shrinks_trans: "shrinks d s fl s1 fl1 \<Longrightarrow> shrinks d s1 fl1 s2 fl2 \<Longrightarrow> shrinks d s fl s2 fl2"
  unfolding shrinks_def by (metis subset_iff)

lemma free_entry_ok:
  assumes inv: "owned_inv s d fl" and j: "j < utop_ix" "present (view (kmem s) d j)" and l: "l < 1024"
  shows "\<exists>s' fl'. free_entry (toPhy d + KERNBASE) (PTE_ADDR (view (kmem s) d j) + KERNBASE) j l s = Inr s'
     \<and> shrinks d s fl s' fl' \<and> view (kmem s') d = view (kmem s) d
     \<and> (\<forall>l'. l' \<noteq> l \<longrightarrow> lookup (view (kmem s')) d j l' = lookup (view (kmem s)) d j l')
     \<and> \<not> present (lookup (view (kmem s')) d j l)"
proof -
  let ?pv = "view (kmem s)" and ?t = "pn (view (kmem s) d j)" and ?va = "PGADDR (of_nat j) (of_nat l) 0"
  note a = owned_inv_alloc [OF inv] and dir = owned_inv_dir [OF inv]
  have j': "j < 1024" "j \<noteq> uvpt_ix" using j(1) by simp_all
  have ix: "unat (PDX ?va) = j" "unat (PTX ?va) = l" using PGADDR_parts [OF j'(1) l] by simp_all
  have t: "?t < 131072" "?t \<noteq> d"
    using dir_inv_table [OF dir j'(1) j(2)] nPages_unat [OF a] dir_inv_neq [OF dir j' j(2)] by simp_all
  have "PTE_ADDR (?pv d j) + KERNBASE + 4 * of_nat l = slot ?t l" by (simp add: slot_def toPhy_pn)
  then have L: "load32 (kmem s) (PTE_ADDR (?pv d j) + KERNBASE + 4 * of_nat l) = lookup ?pv d j l"
    using load_slot [OF t(1) l] j(2) by (simp add: lookup_def)
  have e: "entry s d ?va = lookup ?pv d j l" by (simp add: entry_def ix)
  show ?thesis
  proof (cases "present (lookup ?pv d j l)")
    case False
    then show ?thesis using L shrinks_refl [OF inv] by (auto simp: free_entry_def)
  next
    case True
    let ?k = "pn (lookup ?pv d j l)"
    note data = owned_inv_data [OF inv j(1) l True] and once = owned_inv_once [OF inv j(1) l True]
    have "?k \<in> owned s d" using True j(1) l by (auto simp: owned_def mapped_def)
    then have c: "0 = refCount (pages s ! ?k) - 1" using owned_inv_ref [OF inv] by simp
    have ko: "?k \<noteq> d" "?k \<notin> tables ?pv d" using data_page_own [OF data] by simp_all
    obtain s' where s': "remove (toPhy d + KERNBASE) ?va s = Inr s'" "alloc_inv s' (?k # fl)" "dir_ok s' d (?k # fl)"
        "nPages s' = nPages s" "view (kmem s') = put ?pv ?t l 0" "\<forall>i. i \<noteq> ?k \<longrightarrow> pages s' ! i = pages s ! i"
      using remove_present [OF a dir, of ?va ?k 0] True j' data c unfolding e ix by auto
    have row: "view (kmem s') d = ?pv d" unfolding s'(5) using t(2) by (simp add: put_def)
    have look: "lookup (view (kmem s')) d j1 l1 = (if j1 = j \<and> l1 = l then 0 else lookup ?pv d j1 l1)"
      if "j1 < utop_ix" for j1 l1
      unfolding s'(5) using lookup_put [OF dir j' j(2)] that by auto
    have tabs: "tables (view (kmem s')) d = tables ?pv d" by (simp add: tables_def row)
    have maps: "mapped (view (kmem s')) d = mapped ?pv d - {?k}"
    proof (intro set_eqI iffI)
      fix x assume "x \<in> mapped (view (kmem s')) d"
      then obtain j1 l1 where x: "j1 < utop_ix" "l1 < 1024" "present (lookup (view (kmem s')) d j1 l1)"
          "x = pn (lookup (view (kmem s')) d j1 l1)" by (rule mappedE)
      then have 1: "\<not> (j1 = j \<and> l1 = l)" "lookup (view (kmem s')) d j1 l1 = lookup ?pv d j1 l1"
        using look [OF x(1), of l1] by auto
      then show "x \<in> mapped ?pv d - {?k}"
        using x(4) mappedI [OF x(1,2), of ?pv d] once [OF x(1,2)] x(3) by auto
    next
      fix x assume x0: "x \<in> mapped ?pv d - {?k}"
      then obtain j1 l1 where x: "j1 < utop_ix" "l1 < 1024" "present (lookup ?pv d j1 l1)"
          "x = pn (lookup ?pv d j1 l1)" using mappedE by (metis DiffD1)
      then have "lookup (view (kmem s')) d j1 l1 = lookup ?pv d j1 l1"
        using look [OF x(1), of l1] x0 by auto
      then show "x \<in> mapped (view (kmem s')) d"
        using x mappedI [OF x(1,2), of "view (kmem s')" d] by simp
    qed
    have own: "owned s' d = owned s d - {?k}" using ko by (auto simp: owned_def tabs maps)
    have "owned_inv s' d (?k # fl)"
      unfolding owned_inv_def
    proof (intro conjI allI impI ballI)
      fix j1 l1 assume 1: "j1 < utop_ix" "l1 < 1024" "present (lookup (view (kmem s')) d j1 l1)"
      then have 2: "lookup (view (kmem s')) d j1 l1 = lookup ?pv d j1 l1" "\<not> (j1 = j \<and> l1 = l)"
        using look [OF 1(1), of l1] by (auto split: if_splits)
      then have 3: "present (lookup ?pv d j1 l1)" using 1(3) by simp
      have "pn (lookup ?pv d j1 l1) \<noteq> ?k" using once [OF 1(1,2) 3] 2(2) by blast
      then show "data_page (view (kmem s')) d (unat (nPages s')) (?k # fl) (pn (lookup (view (kmem s')) d j1 l1))"
        using owned_inv_data [OF inv 1(1,2) 3] 2 s'(4) by (simp add: data_page_def row)
      fix j2 l2 assume 4: "j2 < utop_ix" "l2 < 1024" "present (lookup (view (kmem s')) d j2 l2)"
          "pn (lookup (view (kmem s')) d j2 l2) = pn (lookup (view (kmem s')) d j1 l1)"
      then have "lookup (view (kmem s')) d j2 l2 = lookup ?pv d j2 l2"
        using look [OF 4(1), of l2] by (auto split: if_splits)
      then have "j2 = j1 \<and> l2 = l1" using owned_inv_once [OF inv 1(1,2) 3 4(1,2)] 4 2(1) by simp
      then show "j2 = j1" "l2 = l1" by simp_all
    qed (use s' own owned_inv_ref [OF inv] owned_inv_uvpt [OF inv] row in auto)
    then have "shrinks d s fl s' (?k # fl)"
      using own \<open>?k \<in> owned s d\<close> s'(4-6) j by (auto simp: shrinks_def put_def owned_def tables_def)
    moreover have "free_entry (toPhy d + KERNBASE) (PTE_ADDR (?pv d j) + KERNBASE) j l s = Inr s'"
      using L True s'(1) by (simp add: free_entry_def)
    ultimately show ?thesis using row look [OF j(1)] by auto
  qed
qed

lemma free_entries_ok:
  assumes inv: "owned_inv s d fl" and j: "j < utop_ix" "present (view (kmem s) d j)"
  shows "\<exists>s' fl'. foldE (free_entry (toPhy d + KERNBASE) (PTE_ADDR (view (kmem s) d j) + KERNBASE) j) [0..<1024] s = Inr s'
     \<and> shrinks d s fl s' fl' \<and> view (kmem s') d = view (kmem s) d
     \<and> (\<forall>l<1024. \<not> present (lookup (view (kmem s')) d j l))"
proof -
  let ?I = "\<lambda>i s'. \<exists>fl'. shrinks d s fl s' fl' \<and> view (kmem s') d = view (kmem s) d
       \<and> (\<forall>l<i. \<not> present (lookup (view (kmem s')) d j l))"
  have "\<exists>s'. foldE (free_entry (toPhy d + KERNBASE) (PTE_ADDR (view (kmem s) d j) + KERNBASE) j) [0..<1024] s = Inr s'
      \<and> ?I 1024 s'"
  proof (rule foldE_invariant)
    show "?I 0 s" using shrinks_refl [OF inv] by auto
  next
    fix i s1 assume i: "i < (1024 :: nat)" and "?I i s1"
    then obtain fl1 where 1: "shrinks d s fl s1 fl1" "view (kmem s1) d = view (kmem s) d"
        "\<forall>l<i. \<not> present (lookup (view (kmem s1)) d j l)" by blast
    obtain s2 fl2 where 2: "free_entry (toPhy d + KERNBASE) (PTE_ADDR (view (kmem s) d j) + KERNBASE) j i s1 = Inr s2"
        "shrinks d s1 fl1 s2 fl2" "view (kmem s2) d = view (kmem s1) d"
        "\<forall>l'. l' \<noteq> i \<longrightarrow> lookup (view (kmem s2)) d j l' = lookup (view (kmem s1)) d j l'"
        "\<not> present (lookup (view (kmem s2)) d j i)"
      using free_entry_ok [of s1 d fl1 j i] 1(1,2) j i by (auto simp: shrinks_def)
    have "?I (Suc i) s2"
      using shrinks_trans [OF 1(1) 2(2)] 1(2,3) 2(3-5) by (metis less_Suc_eq)
    then show "\<exists>s'. free_entry (toPhy d + KERNBASE) (PTE_ADDR (view (kmem s) d j) + KERNBASE) j i s1 = Inr s'
        \<and> ?I (Suc i) s'" using 2(1) by blast
  qed
  then show ?thesis by blast
qed

lemma dir_inv_clear: "dir_inv pv d n fl \<Longrightarrow> dir_inv (put pv d j 0) d n fl"
  by (auto simp: dir_inv_def put_apply)

lemma lookup_clear:
  assumes "dir_inv pv d n fl" "j < 1024" "j' < 1024" "j' \<noteq> uvpt_ix"
  shows "lookup (put pv d j 0) d j' l = (if j' = j then 0 else lookup pv d j' l)"
  using dir_inv_neq [OF assms(1,3,4)] by (auto simp: lookup_def put_apply)

text \<open>Releasing a table whose entries are all clear.\<close>

lemma free_empty_table:
  assumes inv: "owned_inv s d fl" and j: "j < utop_ix" "present (view (kmem s) d j)"
    and clear: "\<forall>l<1024. \<not> present (lookup (view (kmem s)) d j l)"
  defines "s2 \<equiv> s\<lparr>kmem := store32 (kmem s) (slot d j) 0\<rparr>" and "t \<equiv> pn (view (kmem s) d j)"
  shows "\<exists>s'. decRef t s2 = Inr s' \<and> shrinks d s fl s' (t # fl) \<and> view (kmem s') d j = 0
     \<and> (\<forall>j'. j' \<noteq> j \<longrightarrow> view (kmem s') d j' = view (kmem s) d j')"
proof -
  let ?pv = "view (kmem s)" and ?pv' = "put (view (kmem s)) d j 0"
  note a = owned_inv_alloc [OF inv] and dir = owned_inv_dir [OF inv]
  have j': "j < 1024" "j \<noteq> uvpt_ix" using j(1) by simp_all
  have d: "d < 131072" using dir nPages_unat [OF a] by (simp add: dir_inv_def)
  have t: "t < unat (nPages s)" "t \<notin> set fl" "t \<noteq> d" "t \<in> owned s d"
    using dir_inv_table [OF dir j'(1) j(2)] dir_inv_neq [OF dir j' j(2)] tablesI [of j "view (kmem s)" d, OF j]
    by (simp_all add: t_def owned_def)
  have v: "view (kmem s2) = ?pv'" using d j' by (simp add: s2_def view_store)
  have c: "0 = refCount (pages s2 ! t) - 1" using owned_inv_ref [OF inv t(4)] by (simp add: s2_def)
  have a2: "alloc_inv s2 fl" using a by (simp add: s2_def)
  have len: "t < length (pages s2)" using t(1) alloc_inv_length [OF a] by (simp add: s2_def)
  obtain s' where s': "decRef t s2 = Inr s'" "alloc_inv s' (t # fl)"
      "s' = s2\<lparr>pages := (pages s2)[t := \<lparr>nextFree = freeList s2, refCount = 0\<rparr>], freeList := Some t\<rparr>"
    using decRef_ok [OF a2 len t(2) c] by auto
  have v': "view (kmem s') = ?pv'" using v s'(3) by simp
  have n: "nPages s' = nPages s" using s'(3) by (simp add: s2_def)
  have look: "lookup ?pv' d j1 l = (if j1 = j then 0 else lookup ?pv d j1 l)" if "j1 < utop_ix" for j1 l
    using lookup_clear [OF dir j'(1)] that by simp
  have maps: "mapped ?pv' d = mapped ?pv d"
  proof (intro set_eqI iffI)
    fix x assume "x \<in> mapped ?pv' d"
    then obtain j1 l1 where x: "j1 < utop_ix" "l1 < 1024" "present (lookup ?pv' d j1 l1)"
        "x = pn (lookup ?pv' d j1 l1)" by (rule mappedE)
    then show "x \<in> mapped ?pv d" using look [OF x(1)] mappedI [OF x(1,2)] by (auto split: if_splits)
  next
    fix x assume "x \<in> mapped ?pv d"
    then obtain j1 l1 where x: "j1 < utop_ix" "l1 < 1024" "present (lookup ?pv d j1 l1)"
        "x = pn (lookup ?pv d j1 l1)" by (rule mappedE)
    moreover have "j1 \<noteq> j" using clear x by blast
    ultimately show "x \<in> mapped ?pv' d" using look [OF x(1), of l1] mappedI [OF x(1,2), of ?pv' d] by auto
  qed
  have distinct_tables: "pn (?pv d j1) \<noteq> t" if "j1 < 1024" "j1 \<noteq> j" "present (?pv d j1)" for j1
  proof (cases "j1 = uvpt_ix")
    case True
    then show ?thesis using owned_inv_uvpt [OF inv] that(3) t(3) by simp
  next
    case False
    then show ?thesis using dir_inv_inj [OF dir that(1) j'(1) False j'(2) that(3) j(2)] that(2) by (simp add: t_def)
  qed
  have tabs: "tables ?pv' d = tables ?pv d - {t}"
  proof (intro set_eqI iffI)
    fix x assume "x \<in> tables ?pv' d"
    then obtain j1 where x: "j1 < utop_ix" "present (?pv' d j1)" "x = pn (?pv' d j1)" unfolding tables_def by blast
    then have "j1 \<noteq> j" by (auto simp: put_apply)
    then show "x \<in> tables ?pv d - {t}"
      using x distinct_tables [of j1] tablesI [of j1 ?pv d] by (simp add: put_apply)
  next
    fix x assume x0: "x \<in> tables ?pv d - {t}"
    then obtain j1 where x: "j1 < utop_ix" "present (?pv d j1)" "x = pn (?pv d j1)" unfolding tables_def by blast
    then have "j1 \<noteq> j" using x0 by (auto simp: t_def)
    then show "x \<in> tables ?pv' d" using x tablesI [of j1 ?pv' d] by (simp add: put_apply)
  qed
  have nm: "t \<notin> mapped ?pv d"
  proof
    assume "t \<in> mapped ?pv d"
    then obtain j1 l1 where x: "j1 < utop_ix" "l1 < 1024" "present (lookup ?pv d j1 l1)"
        "t = pn (lookup ?pv d j1 l1)" by (rule mappedE)
    then show False
      using data_page_own [OF owned_inv_data [OF inv x(1-3)]] tablesI [of j "view (kmem s)" d, OF j] by (simp add: t_def)
  qed
  have own: "owned s' d = owned s d - {t}" using t(3) nm by (auto simp: owned_def v' maps tabs)
  have "owned_inv s' d (t # fl)"
    unfolding owned_inv_def
  proof (intro conjI allI impI ballI)
    show "dir_ok s' d (t # fl)"
      using dir_inv_clear [OF dir, of j] t(3) distinct_tables by (auto simp: dir_inv_def v' n put_apply)
  next
    fix k assume "k \<in> owned s' d"
    then show "refCount (pages s' ! k) = 1" using own owned_inv_ref [OF inv] s'(3) by (auto simp: s2_def)
  next
    fix j1 l1 assume 1: "j1 < utop_ix" "l1 < 1024" "present (lookup (view (kmem s')) d j1 l1)"
    then have 2: "lookup ?pv' d j1 l1 = lookup ?pv d j1 l1" "present (lookup ?pv d j1 l1)"
      using look [OF 1(1), of l1] by (auto simp: v' split: if_splits)
    have "pn (lookup ?pv d j1 l1) \<noteq> t" using mappedI [OF 1(1,2) 2(2)] nm by auto
    then show "data_page (view (kmem s')) d (unat (nPages s')) (t # fl) (pn (lookup (view (kmem s')) d j1 l1))"
      using owned_inv_data [OF inv 1(1,2) 2(2)] by (simp add: data_page_def v' n 2(1) put_apply)
    fix j2 l2 assume 4: "j2 < utop_ix" "l2 < 1024" "present (lookup (view (kmem s')) d j2 l2)"
        "pn (lookup (view (kmem s')) d j2 l2) = pn (lookup (view (kmem s')) d j1 l1)"
    then have "lookup ?pv' d j2 l2 = lookup ?pv d j2 l2"
      using look [OF 4(1), of l2] by (auto simp: v' split: if_splits)
    then have "j2 = j1 \<and> l2 = l1" using owned_inv_once [OF inv 1(1,2) 2(2) 4(1,2)] 4(3,4) 2(1) by (simp add: v')
    then show "j2 = j1" "l2 = l1" by simp_all
  qed (use s'(2) owned_inv_uvpt [OF inv] in \<open>auto simp: v' put_apply\<close>)
  moreover have "\<forall>k. k \<notin> owned s d \<longrightarrow> pages s' ! k = pages s ! k \<and> view (kmem s') k = ?pv k"
  proof (intro allI impI)
    fix k assume "k \<notin> owned s d"
    then have "k \<noteq> t" "k \<noteq> d" using t(4) by (blast, simp add: owned_def)
    then show "pages s' ! k = pages s ! k \<and> view (kmem s') k = ?pv k"
      unfolding v' by (simp add: s'(3) s2_def put_def)
  qed
  moreover have "set (t # fl) \<union> owned s' d = set fl \<union> owned s d" "owned s' d \<subseteq> owned s d"
    unfolding own using t(4) by auto
  ultimately have "shrinks d s fl s' (t # fl)" unfolding shrinks_def using n by blast
  then show ?thesis using s'(1) v' by (auto simp: put_apply)
qed

lemma free_table_ok:
  assumes inv: "owned_inv s d fl" and j: "j < utop_ix"
  shows "\<exists>s' fl'. free_table (toPhy d + KERNBASE) j s = Inr s' \<and> shrinks d s fl s' fl'
     \<and> \<not> present (view (kmem s') d j) \<and> (\<forall>j'. j' \<noteq> j \<longrightarrow> view (kmem s') d j' = view (kmem s) d j')"
proof -
  note a = owned_inv_alloc [OF inv] and dir = owned_inv_dir [OF inv]
  have d: "d < 131072" "j < 1024" using dir nPages_unat [OF a] j by (simp_all add: dir_inv_def)
  have L: "load32 (kmem s) (toPhy d + KERNBASE + 4 * of_nat j) = view (kmem s) d j"
    using load_slot [OF d] by (simp add: slot_def)
  show ?thesis
  proof (cases "present (view (kmem s) d j)")
    case False
    then show ?thesis using L shrinks_refl [OF inv] by (auto simp: free_table_def)
  next
    case True
    let ?e = "view (kmem s) d j"
    have t: "pn ?e < unat (nPages s)" using dir_inv_table [OF dir d(2) True] by simp
    obtain s1 fl1 where 1: "foldE (free_entry (toPhy d + KERNBASE) (PTE_ADDR ?e + KERNBASE) j) [0..<1024] s = Inr s1"
        "shrinks d s fl s1 fl1" "view (kmem s1) d = view (kmem s) d" "\<forall>l<1024. \<not> present (lookup (view (kmem s1)) d j l)"
      using free_entries_ok [OF inv j True] by blast
    have inv1: "owned_inv s1 d fl1" and n1: "nPages s1 = nPages s" using 1(2) by (simp_all add: shrinks_def)
    let ?s2 = "s1\<lparr>kmem := store32 (kmem s1) (slot d j) 0\<rparr>"
    obtain s2 where 2: "decRef (pn ?e) ?s2 = Inr s2" "shrinks d s1 fl1 s2 (pn ?e # fl1)" "view (kmem s2) d j = 0"
        "\<forall>j'. j' \<noteq> j \<longrightarrow> view (kmem s2) d j' = view (kmem s1) d j'"
      using free_empty_table [OF inv1 j _ 1(4)] True 1(3) by auto
    have "fromPhy ?s2 (PTE_ADDR ?e) = Inr (pn ?e)" using fromPhy_pn [of ?e ?s2] t n1 by simp
    moreover have "slot d j = toPhy d + KERNBASE + 4 * of_nat j" by (simp add: slot_def)
    ultimately have "free_table (toPhy d + KERNBASE) j s = Inr s2"
      using L True KERN_ADDR_ok [OF t] 1(1) 2(1) by (simp add: free_table_def)
    then show ?thesis using shrinks_trans [OF 1(2) 2(2)] 2(3,4) 1(3) by auto
  qed
qed

lemma free_memory_ok:
  assumes inv: "owned_inv s d fl"
  shows "\<exists>s' fl'. free_memory (toPhy d + KERNBASE) s = Inr s' \<and> alloc_inv s' fl' \<and> nPages s' = nPages s
     \<and> set fl' = set fl \<union> owned s d
     \<and> (\<forall>k. k \<notin> owned s d \<longrightarrow> pages s' ! k = pages s ! k \<and> view (kmem s') k = view (kmem s) k)"
proof -
  let ?pd = "toPhy d + KERNBASE"
  let ?I = "\<lambda>i s'. \<exists>fl'. shrinks d s fl s' fl' \<and> (\<forall>j<i. \<not> present (view (kmem s') d j))"
  have "\<exists>s'. foldE (free_table ?pd) [0..<utop_ix] s = Inr s' \<and> ?I utop_ix s'"
  proof (rule foldE_invariant)
    show "?I 0 s" using shrinks_refl [OF inv] by auto
  next
    fix i s1 assume i: "i < utop_ix" and "?I i s1"
    then obtain fl1 where 1: "shrinks d s fl s1 fl1" "\<forall>j<i. \<not> present (view (kmem s1) d j)" by blast
    then have inv1: "owned_inv s1 d fl1" by (simp add: shrinks_def)
    obtain s2 fl2 where 2: "free_table ?pd i s1 = Inr s2" "shrinks d s1 fl1 s2 fl2"
        "\<not> present (view (kmem s2) d i)" "\<forall>j'. j' \<noteq> i \<longrightarrow> view (kmem s2) d j' = view (kmem s1) d j'"
      using free_table_ok [OF inv1 i] by blast
    have "?I (Suc i) s2" using shrinks_trans [OF 1(1) 2(2)] 1(2) 2(3,4) by (metis less_Suc_eq)
    then show "\<exists>s'. free_table ?pd i s1 = Inr s' \<and> ?I (Suc i) s'" using 2(1) by blast
  qed
  then obtain s1 fl1 where 1: "foldE (free_table ?pd) [0..<utop_ix] s = Inr s1" "shrinks d s fl s1 fl1"
      "\<forall>j<utop_ix. \<not> present (view (kmem s1) d j)" by blast
  have inv1: "owned_inv s1 d fl1" "nPages s1 = nPages s" "set fl1 \<union> owned s1 d = set fl \<union> owned s d"
    using 1(2) by (simp_all add: shrinks_def)
  note a = owned_inv_alloc [OF inv1(1)]
  have own: "owned s1 d = {d}"
    using 1(3) by (auto simp: owned_def tables_def mapped_def lookup_def)
  have d: "d < unat (nPages s1)" "d \<notin> set fl1" using owned_lt [OF inv1(1), of d] own by simp_all
  have d': "d < 1048576" "d < length (pages s1)" using d(1) nPages_unat [OF a] alloc_inv_length [OF a] by simp_all
  have c: "0 = refCount (pages s1 ! d) - 1" using owned_inv_ref [OF inv1(1), of d] own by simp
  obtain s' where s': "decRef d s1 = Inr s'" "alloc_inv s' (d # fl1)"
      "s' = s1\<lparr>pages := (pages s1)[d := \<lparr>nextFree = freeList s1, refCount = 0\<rparr>], freeList := Some d\<rparr>"
    using decRef_ok [OF a d'(2) d(2) c] by auto
  have "KERNBASE \<le> ?pd"
    using unat_slot [of d 0] d(1) nPages_unat [OF a] by (simp add: slot_def KERNBASE_def word_le_nat_alt)
  then have "PHY_ADDR ?pd = Inr (toPhy d)" by (simp add: PHY_ADDR_def)
  moreover have "fromPhy s1 (toPhy d) = Inr d" by (rule fromPhy_toPhy [OF a d(1)])
  ultimately have "free_memory ?pd s = Inr s'" using 1(1) s'(1) by (simp add: free_memory_def utop_ix_def del: utop_bounds)
  moreover have "set (d # fl1) = set fl \<union> owned s d" using inv1(3) own by auto
  moreover have "pages s' ! k = pages s ! k \<and> view (kmem s') k = view (kmem s) k" if "k \<notin> owned s d" for k
  proof -
    have "k \<noteq> d" using that by (auto simp: owned_def)
    then show ?thesis using 1(2) that s'(3) by (simp add: shrinks_def)
  qed
  moreover have "nPages s' = nPages s" using s'(3) inv1(2) by simp
  ultimately show ?thesis using s'(2) by blast
qed

section \<open>Copying a page\<close>

lemma page_addr: "k < 131072 \<Longrightarrow> unat (toPhy k + KERNBASE) = 3758096384 + 4096 * k"
  using unat_slot [of k 0] by (simp add: slot_def)

lemma copy_byte:
  assumes "i < 131072" "k < 131072" "i \<noteq> k" "k' < 131072" "j < 1024" "b < 4"
  shows "mem_copy m (toPhy i + KERNBASE) (toPhy k + KERNBASE) PGSIZE (slot k' j + of_nat b)
           = (if k' = i then m (slot k j + of_nat b) else m (slot k' j + of_nat b))"
proof -
  let ?d = "toPhy i + KERNBASE" and ?s = "toPhy k + KERNBASE"
  have a: "unat (slot k' j + of_nat b) = 3758096384 + 4096 * k' + 4 * j + b"
    using assms by (subst unat_add_of_nat) (auto simp: unat_slot)
  have far: "unat PGSIZE \<le> unat (?d - ?s)"
    unfolding unat_sub_if' using assms(1-3) by (auto simp: page_addr PGSIZE_def)
  have "unat (slot k' j + of_nat b - ?d) < 4096 \<longleftrightarrow> k' = i"
    unfolding unat_sub_if' a page_addr [OF assms(1)] using assms by (auto split: if_splits)
  moreover have "?s + (slot i j + of_nat b - ?d) = slot k j + of_nat b" by (simp add: slot_def)
  moreover have "mem_copy m ?d ?s PGSIZE x = (if unat (x - ?d) < 4096 then m (?s + (x - ?d)) else m x)" for x
    using far by (simp add: mem_copy_eq PGSIZE_def)
  ultimately show ?thesis by (cases "k' = i") (simp_all only: if_True if_False refl simp_thms)
qed

lemma view_copy:
  assumes "i < 131072" "k < 131072" "i \<noteq> k"
  shows "view (mem_copy m (toPhy i + KERNBASE) (toPhy k + KERNBASE) PGSIZE) = (view m)(i := view m k)"
proof (intro ext)
  fix k' j
  show "view (mem_copy m (toPhy i + KERNBASE) (toPhy k + KERNBASE) PGSIZE) k' j = ((view m)(i := view m k)) k' j"
  proof (cases "k' < 131072 \<and> j < 1024")
    case True
    note byte = copy_byte [OF assms _ _, of k' j]
    show ?thesis
      using byte [of 0] byte [of 1] byte [of 2] byte [of 3] True assms by (auto simp: view_def load32_def)
  qed (use assms in \<open>auto simp: view_def\<close>)
qed

section \<open>A new directory\<close>

text \<open>Nothing is mapped below \<open>UTOP\<close> by the directory \<open>kd\<close> that is duplicated; tables it has there are empty.\<close>

definition user_part_empty :: "vmem \<Rightarrow> nat \<Rightarrow> bool" where
  "user_part_empty s kd \<longleftrightarrow> (\<forall>j<utop_ix. present (view (kmem s) kd j) \<longrightarrow>
     refCount (pages s ! pn (view (kmem s) kd j)) = 1 \<and> (\<forall>l<1024. \<not> present (view (kmem s) (pn (view (kmem s) kd j)) l)))"

lemma setup_memory_ok:
  assumes inv: "alloc_inv s (i # fl)" "dir_ok s kd (i # fl)" and kd: "kernelPageDir s = toPhy kd + KERNBASE"
    and empty: "user_part_empty s kd"
  shows "\<exists>s'. setup_memory s = Inr (Some (toPhy i + KERNBASE), s') \<and> owned_inv s' i fl \<and> owned s' i = insert i (tables (view (kmem s)) kd)
     \<and> view (kmem s') i = (view (kmem s) kd)(uvpt_ix := toPhy i OR PTE_U OR PTE_P)
     \<and> (\<forall>k. k \<noteq> i \<longrightarrow> pages s' ! k = pages s ! k \<and> view (kmem s') k = view (kmem s) k)
     \<and> nPages s' = nPages s \<and> kernelPageDir s' = kernelPageDir s"
proof -
  let ?kv = "toPhy i + KERNBASE" and ?e = "toPhy i OR PTE_U OR PTE_P"
  have n: "unat (nPages s) \<le> 131072" "i < unat (nPages s)" "kd < unat (nPages s)" "i \<noteq> kd" "i \<notin> set fl"
    using nPages_unat [OF inv(1)] alloc_inv_lt [OF inv(1), of i] inv(2) alloc_inv_distinct [OF inv(1)]
    by (auto simp: dir_inv_def)
  have b: "i < 131072" "kd < 131072" "i < 1048576" "i < length (pages s)"
    using n alloc_inv_length [OF inv(1)] by simp_all
  let ?s1 = "s\<lparr>freeList := nextFree (pages s ! i), pages := (pages s)[i := (pages s ! i)\<lparr>nextFree := None\<rparr>],
               kmem := mem_clear (kmem s) ?kv PGSIZE\<rparr>"
  have A: "page_alloc True s = Inr (Some i, ?s1)" and a: "alloc_inv ?s1 fl"
    using page_alloc_cons(1) [OF inv(1), of True] page_alloc_cons(2) [OF inv(1)] by simp_all
  let ?s2 = "?s1\<lparr>kmem := mem_copy (kmem ?s1) ?kv (kernelPageDir s) PGSIZE\<rparr>"
  have a2: "alloc_inv ?s2 fl" using a by simp
  have r0: "refCount (pages s ! i) = 0" using alloc_inv_ref0 [OF inv(1)] by simp
  have pg: "(pages s ! i)\<lparr>nextFree := None, refCount := 1\<rparr> = \<lparr>nextFree = None, refCount = 1\<rparr>"
    by (cases "pages s ! i") simp
  let ?s3 = "?s2\<lparr>pages := (pages s)[i := \<lparr>nextFree = None, refCount = 1\<rparr>]\<rparr>"
  have B: "incRef i ?s2 = Inr ?s3" and a3: "alloc_inv ?s3 fl"
    using incRef_ok [OF a2, of i] b n r0 pg by simp_all
  have C: "toKernV ?s1 i = Inr ?kv" using toKernV_ok [OF a, of i] n by simp
  have "KERNBASE \<le> ?kv" using page_addr [OF b(1)] by (simp add: KERNBASE_def word_le_nat_alt)
  then have D: "PHY_ADDR ?kv = Inr (toPhy i)" by (simp add: PHY_ADDR_def)
  define s' where "s' = ?s3\<lparr>kmem := store32 (kmem ?s2) (slot i uvpt_ix) ?e\<rparr>"
  have "slot i uvpt_ix = ?kv + 4 * PDX UVPT" using slot_PDX [of i UVPT] by (simp only: uvpt_ix_def)
  then have S: "setup_memory s = Inr (Some ?kv, s')"
    using A B C D kd by (simp add: setup_memory_def s'_def del: utop_bounds)
  let ?pv = "view (kmem s)"
  have v: "view (kmem s') = ?pv(i := (?pv kd)(uvpt_ix := ?e))"
    using b n(4) kd by (auto simp: s'_def view_store view_copy view_clear put_def fun_eq_iff)
  have fields: "pages s' = (pages s)[i := \<lparr>nextFree = None, refCount = 1\<rparr>]" "nPages s' = nPages s"
      "kernelPageDir s' = kernelPageDir s" "alloc_inv s' fl"
    using a3 by (simp_all add: s'_def alloc_inv_def)
  have e: "pn ?e = i" "present ?e"
    using entry_bits [OF b(3), of "PTE_U OR PTE_P"]
    by (simp_all add: or.assoc PTE_U_def PTE_P_def bit.conj_disj_distrib2)
  have row: "view (kmem s') i j = (if j = uvpt_ix then ?e else ?pv kd j)" for j
    unfolding v by simp
  note kdt = dir_inv_table [OF inv(2)] and kdn = dir_inv_neq [OF inv(2)] and kdi = dir_inv_inj [OF inv(2)]
  have dir': "dir_inv (view (kmem s')) i (unat (nPages s)) fl"
    unfolding dir_inv_def row
  proof (intro conjI allI impI)
    fix j k assume j: "j < 1024" "j \<noteq> uvpt_ix \<and> present (if j = uvpt_ix then ?e else ?pv kd j)"
    show "pn (if j = uvpt_ix then ?e else ?pv kd j) \<noteq> i" using j kdt [of j] by auto
    assume "k < 1024" "k \<noteq> uvpt_ix \<and> k \<noteq> j \<and> present (if k = uvpt_ix then ?e else ?pv kd k)"
    then show "pn (if k = uvpt_ix then ?e else ?pv kd k) \<noteq> pn (if j = uvpt_ix then ?e else ?pv kd j)"
      using j kdi [of k j] by auto
  qed (use n e kdt in \<open>auto split: if_splits\<close>)
  have none: "\<not> present (lookup (view (kmem s')) i j l)" if "j < utop_ix" "l < 1024" for j l
    using empty that kdt [of j] by (auto simp: row v user_part_empty_def lookup_def)
  moreover have "tables (view (kmem s')) i = tables ?pv kd"
    by (rule tables_cong) (simp add: row)
  ultimately have own: "owned s' i = insert i (tables ?pv kd)"
    by (auto simp: owned_def mapped_def)
  moreover have "refCount (pages s' ! k) = 1" if "k \<in> insert i (tables ?pv kd)" for k
  proof (cases "k = i")
    case False
    then have "k \<in> tables ?pv kd" using that by simp
    then obtain j where "j < utop_ix" "present (?pv kd j)" "k = pn (?pv kd j)"
      unfolding tables_def by blast
    then show ?thesis using empty False fields(1) by (simp add: user_part_empty_def)
  qed (use fields b(4) in simp)
  ultimately have "owned_inv s' i fl"
    using fields e(1) none dir' unfolding owned_inv_def own by (simp add: row)
  then show ?thesis
    using S own b v fields by (intro exI [of _ s']) simp
qed

section \<open>Adding pages\<close>

text \<open>
  An address space that gains a mapping of a fresh page \<open>pp\<close> at \<open>(j, l)\<close>, in the table \<open>t\<close> that was
  there or is fresh too.
\<close>

lemma owned_inv_grow:
  assumes inv: "owned_inv s d fl" and ok: "alloc_inv s' fl'" "dir_ok s' d fl'" "set fl' \<subseteq> set fl"
    and jl: "j < utop_ix" "l < 1024" and n: "nPages s' = nPages s"
    and look: "\<And>j1 l1. j1 < utop_ix \<Longrightarrow> lookup (view (kmem s')) d j1 l1
        = (if j1 = j \<and> l1 = l then e else lookup (view (kmem s)) d j1 l1)"
    and row: "\<And>j1. j1 \<noteq> j \<Longrightarrow> view (kmem s') d j1 = view (kmem s) d j1"
    and t: "present (view (kmem s') d j)" "pn (view (kmem s') d j) = t"
      "present (view (kmem s) d j) \<and> t = pn (view (kmem s) d j) \<or> \<not> present (view (kmem s) d j) \<and> t \<in> set fl"
    and e: "present e" "pn e = pp" "pp \<in> set fl \<or> pp \<notin> owned s d \<and> (\<forall>j1<1024. present (view (kmem s) d j1) \<longrightarrow> pn (view (kmem s) d j1) \<noteq> pp)"
      "pp \<notin> set fl'" "pp < unat (nPages s)" "pp \<noteq> t"
    and fresh: "\<not> present (lookup (view (kmem s)) d j l)"
    and refs: "\<And>k. k \<in> owned s d \<union> {t, pp} \<Longrightarrow> refCount (pages s' ! k) = 1"
  shows "owned_inv s' d fl' \<and> owned s' d = owned s d \<union> {t, pp}"
proof -
  let ?pv = "view (kmem s)" and ?pv' = "view (kmem s')"
  note dir = owned_inv_dir [OF inv]
  have pp_old: "pp \<notin> owned s d" "\<And>j1. j1 < 1024 \<Longrightarrow> present (?pv d j1) \<Longrightarrow> pn (?pv d j1) \<noteq> pp"
    using e(3) owned_lt [OF inv] dir_inv_table [OF dir] by (blast, metis)
  have tabs: "tables ?pv' d = tables ?pv d \<union> {t}"
  proof (intro set_eqI iffI)
    fix x assume "x \<in> tables ?pv' d"
    then obtain j1 where "j1 < utop_ix" "present (?pv' d j1)" "x = pn (?pv' d j1)" unfolding tables_def by blast
    then show "x \<in> tables ?pv d \<union> {t}" using row [of j1] t(2) tablesI [of j1 ?pv d] by (cases "j1 = j") auto
  next
    fix x assume "x \<in> tables ?pv d \<union> {t}"
    then consider "x = t" | j1 where "j1 < utop_ix" "present (?pv d j1)" "x = pn (?pv d j1)" unfolding tables_def by blast
    then show "x \<in> tables ?pv' d"
    proof cases
      case 1
      then show ?thesis using tablesI [of j ?pv' d] jl(1) t by simp
    next
      case (2 j1)
      then show ?thesis using row [of j1] tablesI [of j1 ?pv' d] tablesI [of j ?pv' d] jl(1) t by (cases "j1 = j") auto
    qed
  qed
  have maps: "mapped ?pv' d = mapped ?pv d \<union> {pp}"
  proof (intro set_eqI iffI)
    fix x assume "x \<in> mapped ?pv' d"
    then obtain j1 l1 where x: "j1 < utop_ix" "l1 < 1024" "present (lookup ?pv' d j1 l1)" "x = pn (lookup ?pv' d j1 l1)"
      by (rule mappedE)
    then show "x \<in> mapped ?pv d \<union> {pp}"
      using look [OF x(1), of l1] mappedI [OF x(1,2), of ?pv d] e(2) by (cases "j1 = j \<and> l1 = l") auto
  next
    fix x assume "x \<in> mapped ?pv d \<union> {pp}"
    then consider "x = pp" | "x \<in> mapped ?pv d" by blast
    then show "x \<in> mapped ?pv' d"
    proof cases
      case 1
      then show ?thesis using mappedI [OF jl, of ?pv' d] look [OF jl(1), of l] e by simp
    next
      case 2
      then obtain j1 l1 where x: "j1 < utop_ix" "l1 < 1024" "present (lookup ?pv d j1 l1)" "x = pn (lookup ?pv d j1 l1)"
        by (rule mappedE)
      then have "\<not> (j1 = j \<and> l1 = l)" using fresh by blast
      then have "lookup ?pv' d j1 l1 = lookup ?pv d j1 l1" using look [OF x(1), of l1] by auto
      then show ?thesis using x(3,4) mappedI [OF x(1,2), of ?pv' d] by simp
    qed
  qed
  have own: "owned s' d = owned s d \<union> {t, pp}" by (auto simp: owned_def tabs maps)
  have old_data: "data_page ?pv' d (unat (nPages s')) fl' k" if "data_page ?pv d (unat (nPages s)) fl k" for k
  proof -
    have k: "k < unat (nPages s)" "k \<notin> set fl" "k \<noteq> d" "\<And>j1. j1 < 1024 \<Longrightarrow> present (?pv d j1) \<Longrightarrow> pn (?pv d j1) \<noteq> k"
      using that unfolding data_page_def by blast+
    have "pn (?pv' d j1) \<noteq> k" if "j1 < 1024" "present (?pv' d j1)" for j1
    proof (cases "j1 = j")
      case True
      then show ?thesis using t k that by metis
    next
      case False
      then show ?thesis using row [OF False] k(4) that by simp
    qed
    then show ?thesis using k ok(3) n unfolding data_page_def by auto
  qed
  have new_data: "data_page ?pv' d (unat (nPages s')) fl' pp"
  proof -
    have "pn (?pv' d j1) \<noteq> pp" if "j1 < 1024" "present (?pv' d j1)" for j1
      using pp_old(2) [of j1] row [of j1] t(2) e(6) that by (cases "j1 = j") auto
    moreover have "pp \<noteq> d" using pp_old(1) by (auto simp: owned_def)
    ultimately show ?thesis using e n unfolding data_page_def by auto
  qed
  have once: "j1 = j2 \<and> l1 = l2"
    if 1: "j1 < utop_ix" "l1 < 1024" "present (lookup ?pv' d j1 l1)" and 2: "j2 < utop_ix" "l2 < 1024" "present (lookup ?pv' d j2 l2)"
      and eq: "pn (lookup ?pv' d j1 l1) = pn (lookup ?pv' d j2 l2)" for j1 l1 j2 l2
  proof -
    have old: "pn (lookup ?pv d j3 l3) \<noteq> pp" if "j3 < utop_ix" "l3 < 1024" "present (lookup ?pv d j3 l3)" for j3 l3
      using mappedI [OF that] pp_old(1) by (auto simp: owned_def)
    have new: "lookup ?pv' d j l = e" using look [OF jl(1), of l] by simp
    have same: "lookup ?pv' d j3 l3 = lookup ?pv d j3 l3" if "j3 < utop_ix" "\<not> (j3 = j \<and> l3 = l)" for j3 l3
      unfolding look [OF that(1), of l3] using that(2) by (simp only: if_False)
    consider "j1 = j \<and> l1 = l" "j2 = j \<and> l2 = l" | "j1 = j \<and> l1 = l" "\<not> (j2 = j \<and> l2 = l)"
      | "\<not> (j1 = j \<and> l1 = l)" "j2 = j \<and> l2 = l" | "\<not> (j1 = j \<and> l1 = l)" "\<not> (j2 = j \<and> l2 = l)" by blast
    then show ?thesis
    proof cases
      case 2
      note s2 = same [OF \<open>j2 < utop_ix\<close> 2(2)]
      have "pn (lookup ?pv d j2 l2) = pp" using eq new 2(1) e(2) s2 by metis
      then show ?thesis using old [OF \<open>j2 < utop_ix\<close> \<open>l2 < 1024\<close>] \<open>present (lookup ?pv' d j2 l2)\<close> s2 by metis
    next
      case 3
      note s1 = same [OF 1(1) 3(1)]
      have "pn (lookup ?pv d j1 l1) = pp" using eq new 3(2) e(2) s1 by metis
      then show ?thesis using old [OF 1(1,2)] 1(3) s1 by metis
    next
      case 4
      note s1 = same [OF 1(1) 4(1)] and s2 = same [OF \<open>j2 < utop_ix\<close> 4(2)]
      show ?thesis
        using owned_inv_once [OF inv \<open>j2 < utop_ix\<close> \<open>l2 < 1024\<close> _ 1(1,2)] 1(3) \<open>present (lookup ?pv' d j2 l2)\<close> eq s1 s2
        by metis
    qed simp
  qed
  have "owned_inv s' d fl'"
    unfolding owned_inv_def
  proof (intro conjI allI impI ballI)
    fix j1 l1 assume 1: "j1 < utop_ix" "l1 < 1024" "present (lookup ?pv' d j1 l1)"
    show "data_page ?pv' d (unat (nPages s')) fl' (pn (lookup ?pv' d j1 l1))"
      using 1 look [OF 1(1), of l1] owned_inv_data [OF inv 1(1,2)] old_data new_data e(2)
      by (cases "j1 = j \<and> l1 = l") auto
    fix j2 l2 assume 2: "j2 < utop_ix" "l2 < 1024" "present (lookup ?pv' d j2 l2)"
      "pn (lookup ?pv' d j2 l2) = pn (lookup ?pv' d j1 l1)"
    show "j2 = j1" "l2 = l1" using once [OF 2(1-3) 1 2(4)] by simp_all
  next
    have "uvpt_ix \<noteq> j" using jl(1) by simp
    then show "present (?pv' d uvpt_ix) \<Longrightarrow> pn (?pv' d uvpt_ix) = d"
      using owned_inv_uvpt [OF inv] row [of uvpt_ix] by simp
  qed (use ok own refs in auto)
  then show ?thesis using own by simp
qed

lemma perm_bits: "unat perm < 4096 \<Longrightarrow> unat (perm OR PTE_P) < 4096"
proof -
  assume p: "unat perm < 4096"
  have "perm AND mask 12 = perm" by (rule unat_inj32) (use p in \<open>simp add: unat_and_mask\<close>)
  then have "(perm OR PTE_P) AND mask 12 = perm OR PTE_P"
    by (simp add: bit.conj_disj_distrib2 PTE_P_def mask_eq_exp_minus_1)
  then show ?thesis using unat_and_mask [of "perm OR PTE_P" 12] by simp
qed

text \<open>The state after an insertion at an address that was not mapped.\<close>

lemma insert_state:
  fixes s :: vmem and perm va :: u32 and fl :: "nat list" and d pp :: nat
  assumes inv: "alloc_inv s fl" "dir_ok s d fl" and va: "unat (PDX va) \<noteq> uvpt_ix"
    and room: "present (view (kmem s) d (unat (PDX va))) \<or> fl \<noteq> []"
    and pp: "pp < unat (nPages s)" "pp \<notin> set fl" and absent: "\<not> present (entry s d va)"
  defines "pv \<equiv> view (kmem s)" and "j \<equiv> unat (PDX va)" and "l \<equiv> unat (PTX va)" and "e \<equiv> toPhy pp OR perm OR PTE_P"
  defines "t \<equiv> (if present (pv d j) then pn (pv d j) else hd fl)"
  defines "ps \<equiv> (if present (pv d j) then pages s else (pages s)[t := \<lparr>nextFree = None, refCount = 1\<rparr>])"
  shows "\<exists>s'. insert_page (toPhy d + KERNBASE) pp va perm s = Inr (ok, s')
     \<and> view (kmem s') = put (if present (pv d j) then pv else install pv d j t (toPhy t OR TABLE_FLAGS)) t l e
     \<and> pages s' = ps[pp := (ps ! pp)\<lparr>refCount := refCount (ps ! pp) + 1\<rparr>]
     \<and> kernelPageDir s' = kernelPageDir s \<and> nPages s' = nPages s"
proof -
  have n: "unat (nPages s) \<le> 131072" by (rule nPages_unat [OF inv(1)])
  have l: "l < 1024" "j < 1024" by (simp_all add: l_def j_def PTX_lt PDX_lt)
  obtain s1 fl1 where s1: "findPte (toPhy d + KERNBASE) va True s = Inr (Some (slot t l), s1)"
      "view (kmem s1) = (if present (pv d j) then pv else install pv d j t (toPhy t OR TABLE_FLAGS))"
      "pages s1 = ps" "nPages s1 = nPages s" "alloc_inv s1 fl1" "t < 131072" "\<not> present (view (kmem s1) t l)"
      "kernelPageDir s1 = kernelPageDir s" "set fl1 \<subseteq> set fl"
  proof (cases "present (pv d j)")
    case True
    have "\<not> present (pv t l)" "t < 131072"
      using absent True dir_inv_table [OF inv(2) PDX_lt, of va] n
      by (simp_all add: entry_def lookup_def t_def pv_def j_def l_def)
    moreover have "findPte (toPhy d + KERNBASE) va True s = Inr (Some (slot t l), s)"
      using findPte_hit [OF inv, of va True] True by (simp only: t_def pv_def j_def l_def if_True simp_thms)
    moreover have "ps = pages s" using True by (simp only: ps_def if_True simp_thms)
    ultimately show ?thesis
      using True inv(1) by (intro that [of s fl]) (simp_all only: if_True pv_def refl subset_refl simp_thms)
  next
    case False
    then obtain fl' where fl: "fl = t # fl'" using room by (cases fl) (auto simp: t_def pv_def j_def)
    have i: "t < unat (nPages s)" using alloc_inv_lt [OF inv(1), of t] fl by simp
    have td: "t \<noteq> d" using inv(2) fl by (auto simp: dir_inv_def)
    obtain s1 where 1: "findPte (toPhy d + KERNBASE) va True s = Inr (Some (slot t l), s1)" "alloc_inv s1 fl'"
        "nPages s1 = nPages s" "view (kmem s1) = install pv d j t (toPhy t OR TABLE_FLAGS)"
        "pages s1 = (pages s)[t := \<lparr>nextFree = None, refCount = 1\<rparr>]"
      using findPte_new [OF inv(1) [unfolded fl] inv(2) [unfolded fl]] False by (auto simp: pv_def j_def l_def)
    have "kernelPageDir s1 = kernelPageDir s"
      using 1(1) by (auto simp: findPte_def page_alloc_def incRef_def invalidateTLB_def Let_def split: if_splits option.splits)
    moreover have "ps = pages s1" using False 1(5) by (simp only: ps_def if_False simp_thms)
    moreover have "\<not> present (view (kmem s1) t l)" using td by (simp add: 1(4) install_apply)
    moreover have "set fl' \<subseteq> set fl" using fl by auto
    moreover have "t < 131072" using i n by simp
    ultimately show ?thesis
      using False 1 by (intro that [of s1 fl']) (simp_all only: if_False refl simp_thms)
  qed
  have len: "pp < length (pages s1)" using pp(1) s1(4) alloc_inv_length [OF s1(5)] by simp
  let ?s2 = "s1\<lparr>pages := (pages s1)[pp := (pages s1 ! pp)\<lparr>refCount := refCount (pages s1 ! pp) + 1\<rparr>]\<rparr>"
  have s2: "incRef pp s1 = Inr ?s2" using incRef_ok(1) [OF s1(5) len] pp(2) s1(9) by blast
  have np: "\<not> present (load32 (kmem ?s2) (slot t l))" using s1(7) load_slot [OF s1(6) l(1)] by simp
  let ?s' = "invalidateTLB va (?s2\<lparr>kmem := store32 (kmem ?s2) (slot t l) e\<rparr>)"
  have "insert_page (toPhy d + KERNBASE) pp va perm s = Inr (ok, ?s')"
    using s1(1) s2 np by (simp add: insert_page_def e_def)
  moreover have "view (kmem ?s') = put (view (kmem s1)) t l e"
    using view_store [OF s1(6) l(1)] by (simp add: invalidateTLB_def)
  ultimately show ?thesis
    using s1(2-4,8) by (intro exI [of _ ?s']) (simp add: invalidateTLB_def)
qed

lemma dir_row_clear:
  assumes "dir_inv pv d n (i # fl)"
  shows "dir_inv (pv(i := \<lambda>_. 0)) d n fl" "(pv(i := \<lambda>_. 0)) d = pv d"
    and "j < 1024 \<Longrightarrow> lookup (pv(i := \<lambda>_. 0)) d j l = lookup pv d j l"
proof -
  have "d \<noteq> i" using assms by (auto simp: dir_inv_def)
  then show "(pv(i := \<lambda>_. 0)) d = pv d" by simp
  then show "dir_inv (pv(i := \<lambda>_. 0)) d n fl" using dir_inv_subset [OF assms, of fl] by (auto simp: dir_inv_def)
  assume "j < 1024"
  then show "lookup (pv(i := \<lambda>_. 0)) d j l = lookup pv d j l"
    using dir_inv_table [OF assms, of j] \<open>d \<noteq> i\<close> by (auto simp: lookup_def)
qed

lemma mapped_cong:
  assumes "\<And>j l. j < utop_ix \<Longrightarrow> l < 1024 \<Longrightarrow> lookup pv d j l = lookup pv' d j l"
  shows "mapped pv d = mapped pv' d"
proof (intro set_eqI iffI)
  fix x assume "x \<in> mapped pv d"
  then obtain j l where "j < utop_ix" "l < 1024" "present (lookup pv d j l)" "x = pn (lookup pv d j l)" by (rule mappedE)
  then show "x \<in> mapped pv' d" using mappedI [of j l pv' d] assms by simp
next
  fix x assume "x \<in> mapped pv' d"
  then obtain j l where "j < utop_ix" "l < 1024" "present (lookup pv' d j l)" "x = pn (lookup pv' d j l)" by (rule mappedE)
  then show "x \<in> mapped pv d" using mappedI [of j l pv d] assms by simp
qed

text \<open>Taking a cleared page from the pool leaves an address space alone.\<close>

lemma owned_inv_take:
  assumes inv: "owned_inv s d (i # fl)"
  shows "\<exists>s1. page_alloc True s = Inr (Some i, s1) \<and> owned_inv s1 d fl \<and> owned s1 d = owned s d
     \<and> view (kmem s1) = (view (kmem s))(i := \<lambda>_. 0) \<and> nPages s1 = nPages s \<and> kernelPageDir s1 = kernelPageDir s
     \<and> pages s1 = (pages s)[i := (pages s ! i)\<lparr>nextFree := None\<rparr>] \<and> refCount (pages s1 ! i) = 0"
proof -
  let ?pv = "view (kmem s)" and ?kv = "toPhy i + KERNBASE"
  note a = owned_inv_alloc [OF inv] and dir = owned_inv_dir [OF inv]
  have i: "i < 131072" "i < length (pages s)"
    using alloc_inv_lt [OF a, of i] nPages_unat [OF a] alloc_inv_length [OF a] by simp_all
  have iown: "i \<notin> owned s d" using owned_lt [OF inv, of i] by auto
  define s1 where "s1 = s\<lparr>freeList := nextFree (pages s ! i), pages := (pages s)[i := (pages s ! i)\<lparr>nextFree := None\<rparr>],
               kmem := mem_clear (kmem s) ?kv PGSIZE\<rparr>"
  have A: "page_alloc True s = Inr (Some i, s1)"
    using page_alloc_cons(1) [OF a, of True] by (simp add: s1_def)
  have a1: "alloc_inv s1 fl" using page_alloc_cons(2) [OF a] by (simp add: s1_def)
  have v: "view (kmem s1) = ?pv(i := \<lambda>_. 0)" using view_clear [OF i(1)] by (simp add: s1_def)
  have f: "nPages s1 = nPages s" "kernelPageDir s1 = kernelPageDir s"
      "pages s1 = (pages s)[i := (pages s ! i)\<lparr>nextFree := None\<rparr>]" by (simp_all add: s1_def)
  note row = dir_row_clear(2) [OF dir] and look = dir_row_clear(3) [OF dir]
  have own: "owned s1 d = owned s d"
    using row mapped_cong [of "view (kmem s1)" d ?pv] look unfolding owned_def tables_def v by simp
  have "owned_inv s1 d fl"
    unfolding owned_inv_def
  proof (intro conjI)
    show "dir_ok s1 d fl" using dir_row_clear(1) [OF dir] unfolding v f .
    show "\<forall>k\<in>owned s1 d. refCount (pages s1 ! k) = 1"
    proof
      fix k assume k: "k \<in> owned s1 d"
      then have "k \<noteq> i" using iown own by auto
      then show "refCount (pages s1 ! k) = 1" using owned_inv_ref [OF inv] k own by (simp add: f)
    qed
    show "present (view (kmem s1) d uvpt_ix) \<longrightarrow> pn (view (kmem s1) d uvpt_ix) = d"
      using owned_inv_uvpt [OF inv] unfolding v row by blast
    show "\<forall>j l. j < utop_ix \<longrightarrow> l < 1024 \<longrightarrow> present (lookup (view (kmem s1)) d j l) \<longrightarrow>
          data_page (view (kmem s1)) d (unat (nPages s1)) fl (pn (lookup (view (kmem s1)) d j l))
          \<and> (\<forall>j' l'. j' < utop_ix \<longrightarrow> l' < 1024 \<longrightarrow> present (lookup (view (kmem s1)) d j' l') \<longrightarrow>
               pn (lookup (view (kmem s1)) d j' l') = pn (lookup (view (kmem s1)) d j l) \<longrightarrow> j' = j \<and> l' = l)"
    proof (intro allI impI)
      fix j l assume 1: "j < utop_ix" "l < 1024" "present (lookup (view (kmem s1)) d j l)"
      then have p: "present (lookup ?pv d j l)" using look [of j l] by (simp add: v)
      have "data_page (view (kmem s1)) d (unat (nPages s1)) fl (pn (lookup ?pv d j l))"
        using owned_inv_data [OF inv 1(1,2) p] unfolding data_page_def v row f by auto
      then show "data_page (view (kmem s1)) d (unat (nPages s1)) fl (pn (lookup (view (kmem s1)) d j l))
          \<and> (\<forall>j' l'. j' < utop_ix \<longrightarrow> l' < 1024 \<longrightarrow> present (lookup (view (kmem s1)) d j' l') \<longrightarrow>
               pn (lookup (view (kmem s1)) d j' l') = pn (lookup (view (kmem s1)) d j l) \<longrightarrow> j' = j \<and> l' = l)"
        using look owned_inv_once [OF inv 1(1,2) p] 1(1) by (simp add: v)
    qed
  qed (rule a1)
  moreover have "refCount (pages s1 ! i) = 0" using alloc_inv_ref0 [OF a, of i] i(2) by (simp add: f)
  ultimately show ?thesis using A own v f by blast
qed

definition USER_PERM :: u32 where "USER_PERM = PTE_U OR PTE_W"

lemma user_entry:
  "i < 1048576 \<Longrightarrow> present (toPhy i OR USER_PERM OR PTE_P) \<and> pn (toPhy i OR USER_PERM OR PTE_P) = i"
  using entry_bits [of i "USER_PERM OR PTE_P"]
  by (simp add: or.assoc USER_PERM_def PTE_U_def PTE_P_def PTE_W_def bit.conj_disj_distrib2)

lemma region_step_ok:
  assumes inv: "owned_inv s d (i # fl)" and va: "unat (PDX va) < utop_ix"
    and absent: "\<not> present (entry s d va)" and room: "present (view (kmem s) d (unat (PDX va))) \<or> fl \<noteq> []"
  shows "\<exists>s' fl'. region_step (toPhy d + KERNBASE) va s = Inr s' \<and> owned_inv s' d fl'
     \<and> set fl' \<union> owned s' d = set (i # fl) \<union> owned s d \<and> owned s d \<subseteq> owned s' d \<and> length fl \<le> length fl' + 1
     \<and> nPages s' = nPages s \<and> kernelPageDir s' = kernelPageDir s
     \<and> entry s' d va = toPhy i OR USER_PERM OR PTE_P \<and> i \<in> mapped (view (kmem s')) d \<and> view (kmem s') i = (\<lambda>_. 0)
     \<and> (\<forall>va'. unat (PDX va') \<noteq> uvpt_ix \<longrightarrow> (PDX va', PTX va') \<noteq> (PDX va, PTX va) \<longrightarrow> entry s' d va' = entry s d va')
     \<and> (\<forall>pp\<in>mapped (view (kmem s)) d. pp \<in> mapped (view (kmem s')) d \<and> view (kmem s') pp = view (kmem s) pp)
     \<and> (\<forall>k. k \<notin> owned s' d \<longrightarrow> pages s' ! k = pages s ! k \<and> view (kmem s') k = view (kmem s) k)"
proof -
  let ?j = "unat (PDX va)" and ?l = "unat (PTX va)"
  note a = owned_inv_alloc [OF inv] and dir = owned_inv_dir [OF inv]
  have jl: "?j < utop_ix" "?j < 1024" "?j \<noteq> uvpt_ix" "?l < 1024" using va PTX_lt by simp_all
  have i: "i < unat (nPages s)" "i < 1048576" "i \<notin> set fl" "i \<notin> owned s d"
    using alloc_inv_lt [OF a, of i] nPages_unat [OF a] alloc_inv_distinct [OF a] owned_lt [OF inv, of i] by auto
  obtain s1 where s1: "page_alloc True s = Inr (Some i, s1)" "owned_inv s1 d fl" "owned s1 d = owned s d"
      "view (kmem s1) = (view (kmem s))(i := \<lambda>_. 0)" "nPages s1 = nPages s" "kernelPageDir s1 = kernelPageDir s"
      "pages s1 = (pages s)[i := (pages s ! i)\<lparr>nextFree := None\<rparr>]" "refCount (pages s1 ! i) = 0"
    using owned_inv_take [OF inv] by blast
  define pv where "pv = view (kmem s1)"
  note a1 = owned_inv_alloc [OF s1(2)] and dir1 = owned_inv_dir [OF s1(2)]
  have row1: "pv d = view (kmem s) d" using dir_row_clear(2) [OF dir] by (simp only: pv_def s1(4))
  have look1: "lookup pv d j1 l1 = lookup (view (kmem s)) d j1 l1" if "j1 < 1024" for j1 l1
    using dir_row_clear(3) [OF dir that] by (simp only: pv_def s1(4))
  have ent1: "entry s1 d va' = entry s d va'" for va'
    using look1 [OF PDX_lt] by (simp add: entry_def pv_def)
  have absent1: "\<not> present (entry s1 d va)" using absent ent1 by simp
  have room1: "present (pv d ?j) \<or> fl \<noteq> []" using room row1 by simp
  have inot: "\<And>j1. j1 < 1024 \<Longrightarrow> present (pv d j1) \<Longrightarrow> pn (pv d j1) \<noteq> i"
    using dir_inv_table [OF dir] row1 by fastforce
  let ?e = "toPhy i OR USER_PERM OR PTE_P"
  note e = user_entry [OF i(2)]
  define t where "t = (if present (pv d ?j) then pn (pv d ?j) else hd fl)"
  define pv2 where "pv2 = (if present (pv d ?j) then pv else install pv d ?j t (toPhy t OR TABLE_FLAGS))"
  define ps where "ps = (if present (pv d ?j) then pages s1 else (pages s1)[t := \<lparr>nextFree = None, refCount = 1\<rparr>])"
  have i1: "i < unat (nPages s1)" using i(1) s1(5) by simp
  obtain s' where s': "insert_page (toPhy d + KERNBASE) i va USER_PERM s1 = Inr (ok, s')"
      "view (kmem s') = put pv2 t ?l ?e" "pages s' = ps[i := (ps ! i)\<lparr>refCount := refCount (ps ! i) + 1\<rparr>]"
      "kernelPageDir s' = kernelPageDir s1" "nPages s' = nPages s1"
    using insert_state [OF a1 dir1 jl(3) _ i1 i(3) absent1, of USER_PERM] room1
    unfolding pv_def [symmetric] t_def [symmetric] pv2_def [symmetric] ps_def [symmetric] by blast
  obtain fl' where up: "updated s1 s' fl' d va ?e" "fl' = (if present (pv d ?j) then fl else tl fl)"
    using insert_fresh [OF a1 dir1 jl(3) _ i1 i(3) absent1, of USER_PERM] room1 s'(1) unfolding pv_def by auto
  have ok: "alloc_inv s' fl'" "dir_ok s' d fl'" "entry s' d va = ?e"
      "\<forall>va'. unat (PDX va') \<noteq> uvpt_ix \<longrightarrow> (PDX va', PTX va') \<noteq> (PDX va, PTX va) \<longrightarrow> entry s' d va' = entry s1 d va'"
    using up(1) unfolding updated_def by blast+
  have pv2: "dir_inv pv2 d (unat (nPages s1)) fl' \<and> present (pv2 d ?j) \<and> pn (pv2 d ?j) = t \<and> t \<noteq> d \<and> t \<noteq> i
      \<and> (\<forall>j1<1024. j1 \<noteq> uvpt_ix \<longrightarrow> (\<forall>l1. lookup pv2 d j1 l1 = lookup pv d j1 l1))
      \<and> (\<forall>j1. j1 \<noteq> ?j \<longrightarrow> pv2 d j1 = pv d j1) \<and> (\<forall>k. k \<noteq> d \<longrightarrow> k \<noteq> t \<longrightarrow> pv2 k = pv k)
      \<and> (present (pv d ?j) \<and> t = pn (pv d ?j) \<or> \<not> present (pv d ?j) \<and> t \<in> set fl \<and> fl = t # fl')"
  proof (cases "present (pv d ?j)")
    case True
    then have "pv2 = pv" "fl' = fl" "t = pn (pv d ?j)" using up(2) by (simp_all only: pv2_def t_def if_True simp_thms)
    then show ?thesis
      using True dir1 dir_inv_neq [OF dir1 jl(2,3)] inot [OF jl(2)] by (simp add: pv_def)
  next
    case False
    then have fl: "fl = t # fl'" using up(2) room1 by (cases fl) (auto simp: t_def)
    have t: "t < unat (nPages s1)" "t < 1048576" "t \<notin> set fl'" "t \<noteq> d"
      using alloc_inv_lt [OF a1, of t] nPages_unat [OF a1] alloc_inv_distinct [OF a1] dir1 fl
      by (auto simp: dir_inv_def)
    have p2: "pv2 = install pv d ?j t (toPhy t OR TABLE_FLAGS)" using False by (simp only: pv2_def if_False)
    note te = table_entry(2,3) [OF t(2)]
    have "dir_inv pv2 d (unat (nPages s1)) fl'"
      unfolding p2 by (rule dir_inv_install) (use dir1 fl False te t jl in \<open>simp_all add: pv_def\<close>)
    moreover have "lookup pv2 d j1 l1 = lookup pv d j1 l1" if "j1 < 1024" "j1 \<noteq> uvpt_ix" for j1 l1
      unfolding p2 using lookup_install [OF dir1 [unfolded fl] jl(2) _ te that] False by (simp add: pv_def)
    ultimately show ?thesis
      using False fl t(4) te i(3) by (auto simp: p2 install_apply fun_eq_iff)
  qed
  have row': "view (kmem s') d = pv2 d" using pv2 by (simp add: s'(2) put_def)
  have look': "lookup (view (kmem s')) d j1 l1 = (if j1 = ?j \<and> l1 = ?l then ?e else lookup (view (kmem s1)) d j1 l1)"
    if "j1 < utop_ix" for j1 l1
    using lookup_put [of pv2 d _ fl' ?j j1 ?l ?e l1] pv2 jl that by (auto simp: s'(2) pv_def)
  have sub: "set fl' \<subseteq> set fl" using pv2 up(2) by (metis set_subset_Cons order_refl)
  have refs: "refCount (pages s' ! k) = 1" if "k \<in> owned s1 d \<union> {t, i}" for k
  proof -
    have len: "t < length (pages s1)" "i < length (pages s1)"
      using dir_inv_table [OF dir1 jl(2)] alloc_inv_lt [OF a1, of t] pv2 alloc_inv_length [OF a1] i1
      by (auto simp: pv_def)
    have ti: "t \<noteq> i" using pv2 by simp
    have tt: "refCount (ps ! t) = 1"
    proof (cases "present (pv d ?j)")
      case True
      then have "t \<in> owned s1 d" using tablesI [of ?j pv d] jl(1) by (simp add: owned_def t_def pv_def)
      then show ?thesis using True owned_inv_ref [OF s1(2)] by (simp add: ps_def)
    qed (use len in \<open>simp add: ps_def\<close>)
    have old: "refCount (ps ! k) = 1" if "k \<in> owned s1 d" "k \<noteq> t" for k
      using owned_inv_ref [OF s1(2) that(1)] that(2) by (simp add: ps_def)
    have pi: "refCount (ps ! i) = 0" using s1(8) ti by (simp add: ps_def)
    have "k = i \<or> k = t \<or> k \<in> owned s1 d \<and> k \<noteq> i \<and> k \<noteq> t" using that by blast
    then show ?thesis
      using tt old pi ti len s1(3) i(4) by (auto simp: s'(3) nth_list_update ps_def)
  qed
  have grown: "owned_inv s' d fl' \<and> owned s' d = owned s1 d \<union> {t, i}"
  proof (rule owned_inv_grow [OF s1(2) ok(1,2) sub jl(1,4) s'(5), where e = ?e])
    show "\<not> present (lookup (view (kmem s1)) d ?j ?l)" using absent1 by (simp add: entry_def)
    show "i \<in> set fl \<or> i \<notin> owned s1 d \<and> (\<forall>j1<1024. present (view (kmem s1) d j1) \<longrightarrow> pn (view (kmem s1) d j1) \<noteq> i)"
      using i(4) s1(3) inot by (auto simp: pv_def)
  qed (use look' refs e i1 i(3) sub pv2 row' in \<open>auto simp: pv_def\<close>)
  have un: "set fl' \<union> owned s' d = set (i # fl) \<union> owned s d"
  proof (cases "present (pv d ?j)")
    case True
    then have "t \<in> owned s1 d" "fl' = fl"
      using tablesI [of ?j pv d] jl(1) up(2) by (simp_all add: owned_def t_def pv_def)
    then show ?thesis using grown s1(3) by auto
  next
    case False
    then have "fl = t # fl'" using pv2 by simp
    then show ?thesis using grown s1(3) by auto
  qed
  have im: "i \<in> mapped (view (kmem s')) d"
    using mappedI [OF jl(1,4), of "view (kmem s')" d] look' [OF jl(1), of ?l] e by simp
  have keepm: "pp \<in> mapped (view (kmem s')) d \<and> view (kmem s') pp = view (kmem s) pp"
    if pp: "pp \<in> mapped (view (kmem s)) d" for pp
  proof -
    obtain j1 l1 where x: "j1 < utop_ix" "l1 < 1024" "present (lookup (view (kmem s)) d j1 l1)" "pp = pn (lookup (view (kmem s)) d j1 l1)"
      using pp by (rule mappedE)
    have l1: "lookup (view (kmem s1)) d j1 l1 = lookup (view (kmem s)) d j1 l1" using look1 [of j1 l1] x(1) by (simp add: pv_def)
    then have "\<not> (j1 = ?j \<and> l1 = ?l)" using x(3) absent1 by (auto simp: entry_def)
    then have m: "pp \<in> mapped (view (kmem s')) d"
      using mappedI [OF x(1,2), of "view (kmem s')" d] look' [OF x(1), of l1] l1 x(3,4) by (simp split: if_splits)
    have data: "data_page (view (kmem s)) d (unat (nPages s)) (i # fl) pp"
      using owned_inv_data [OF inv x(1-3)] x(4) by simp
    have "pp \<noteq> i" "pp \<notin> set fl" "pp \<noteq> d" using data by (simp_all add: data_page_def)
    moreover have "pp \<noteq> t"
      using pv2 \<open>pp \<notin> set fl\<close> data row1 jl(2) by (auto simp: data_page_def)
    ultimately have "view (kmem s') pp = view (kmem s) pp"
      using pv2 by (simp add: s'(2) put_def s1(4) pv_def)
    then show ?thesis using m by simp
  qed
  have frame: "pages s' ! k = pages s ! k \<and> view (kmem s') k = view (kmem s) k" if "k \<notin> owned s' d" for k
  proof -
    have "k \<noteq> d" "k \<noteq> t" "k \<noteq> i" using that grown by (auto simp: owned_def)
    then show ?thesis using pv2 by (simp add: s'(2,3) put_def s1(4,7) pv_def ps_def)
  qed
  have "region_step (toPhy d + KERNBASE) va s = Inr s'"
    using s1(1) s'(1) by (simp add: region_step_def USER_PERM_def)
  moreover have "view (kmem s') i = (\<lambda>_. 0)"
    using pv2 i(4) by (auto simp: s'(2) put_def s1(4) pv_def owned_def)
  moreover have "length fl \<le> length fl' + 1" using up(2) by (cases fl) auto
  ultimately show ?thesis
    using grown un im keepm frame ok(3,4) ent1 s'(4,5) s1(3,5,6) by (intro exI [of _ s'] exI [of _ fl']) auto
qed

text \<open>
  What \<open>regionAlloc\<close> achieves over the pages \<open>i\<close> to \<open>i + n\<close> of the range at \<open>va\<close>: each is mapped to a
  cleared page of its own, every other mapping stays, and mapped pages keep their contents.
\<close>

definition region_range :: "vmem \<Rightarrow> vmem \<Rightarrow> nat \<Rightarrow> u32 \<Rightarrow> nat \<Rightarrow> nat \<Rightarrow> bool" where
  "region_range s s' d va i n \<longleftrightarrow>
     (\<forall>k. i \<le> k \<and> k < i + n \<longrightarrow> (\<exists>pp\<in>mapped (view (kmem s')) d. pp < 1048576
        \<and> entry s' d (va + page_off k) = toPhy pp OR USER_PERM OR PTE_P \<and> view (kmem s') pp = (\<lambda>_. 0)))
   \<and> (\<forall>va'. unat (PDX va') \<noteq> uvpt_ix \<longrightarrow>
        (\<forall>k. i \<le> k \<and> k < i + n \<longrightarrow> (PDX va', PTX va') \<noteq> (PDX (va + page_off k), PTX (va + page_off k)))
        \<longrightarrow> entry s' d va' = entry s d va')
   \<and> (\<forall>pp\<in>mapped (view (kmem s)) d. pp \<in> mapped (view (kmem s')) d \<and> view (kmem s') pp = view (kmem s) pp)"

definition expands :: "nat \<Rightarrow> vmem \<Rightarrow> nat list \<Rightarrow> vmem \<Rightarrow> nat list \<Rightarrow> bool" where
  "expands d s fl s' fl' \<longleftrightarrow> owned_inv s' d fl' \<and> set fl' \<union> owned s' d = set fl \<union> owned s d
     \<and> owned s d \<subseteq> owned s' d \<and> nPages s' = nPages s \<and> kernelPageDir s' = kernelPageDir s
     \<and> (\<forall>k. k \<notin> owned s' d \<longrightarrow> pages s' ! k = pages s ! k \<and> view (kmem s') k = view (kmem s) k)"

lemma expands_trans: "expands d s fl s1 fl1 \<Longrightarrow> expands d s1 fl1 s2 fl2 \<Longrightarrow> expands d s fl s2 fl2"
  unfolding expands_def by (metis subset_iff)

lemma region_loop_ok:
  assumes "owned_inv s d fl" "unat va + 4096 * (i + n) < 4294967296"
    and "\<forall>k. i \<le> k \<and> k < i + n \<longrightarrow> unat (PDX (va + page_off k)) < utop_ix \<and> \<not> present (entry s d (va + page_off k))"
    and "2 * n \<le> length fl"
  shows "\<exists>s' fl'. region_loop (toPhy d + KERNBASE) (va + page_off (i + n)) (va + page_off i) s = Some (Inr s')
     \<and> expands d s fl s' fl' \<and> region_range s s' d va i n \<and> length fl \<le> length fl' + 2 * n"
  using assms
proof (induction n arbitrary: i s fl)
  case 0
  then show ?case by (auto simp: region_loop.simps expands_def region_range_def)
next
  case (Suc n)
  let ?va = "va + page_off i" and ?hi = "va + page_off (i + Suc n)"
  have u: "unat (va + page_off k) = unat va + 4096 * k" if "k \<le> i + Suc n" for k
    using Suc.prems(2) that by (subst unat_add_no_wrap) (simp_all add: unat_page_off)
  have lt: "?va < ?hi" using u [of i] u [of "i + Suc n"] by (simp add: word_less_nat_alt)
  have here: "unat (PDX ?va) < utop_ix" "\<not> present (entry s d ?va)" using Suc.prems(3) by auto
  obtain pp fl0 where fl: "fl = pp # fl0" "fl0 \<noteq> []" using Suc.prems(4) by (cases fl; cases "tl fl") auto
  have ppn: "pp < 1048576"
    using alloc_inv_lt [OF owned_inv_alloc [OF Suc.prems(1)], of pp] nPages_unat [OF owned_inv_alloc [OF Suc.prems(1)]] fl(1)
    by simp
  obtain s1 fl1 where s1: "region_step (toPhy d + KERNBASE) ?va s = Inr s1" "owned_inv s1 d fl1"
      "set fl1 \<union> owned s1 d = set (pp # fl0) \<union> owned s d" "owned s d \<subseteq> owned s1 d" "length fl0 \<le> length fl1 + 1"
      "nPages s1 = nPages s" "kernelPageDir s1 = kernelPageDir s"
      "entry s1 d ?va = toPhy pp OR USER_PERM OR PTE_P" "pp \<in> mapped (view (kmem s1)) d" "view (kmem s1) pp = (\<lambda>_. 0)"
      "\<forall>va'. unat (PDX va') \<noteq> uvpt_ix \<longrightarrow> (PDX va', PTX va') \<noteq> (PDX ?va, PTX ?va) \<longrightarrow> entry s1 d va' = entry s d va'"
      "\<forall>pp\<in>mapped (view (kmem s)) d. pp \<in> mapped (view (kmem s1)) d \<and> view (kmem s1) pp = view (kmem s) pp"
      "\<forall>k. k \<notin> owned s1 d \<longrightarrow> pages s1 ! k = pages s ! k \<and> view (kmem s1) k = view (kmem s) k"
    using region_step_ok [OF Suc.prems(1) [unfolded fl(1)] here] fl(2) by blast
  have e1: "expands d s fl s1 fl1" using s1 fl(1) unfolding expands_def by blast
  have dist: "(PDX (va + page_off k), PTX (va + page_off k)) \<noteq> (PDX ?va, PTX ?va)" if "Suc i \<le> k" "k < Suc i + n" for k
    using page_distinct [of va k i] Suc.prems(2) that by simp
  have rest: "\<forall>k. Suc i \<le> k \<and> k < Suc i + n \<longrightarrow> unat (PDX (va + page_off k)) < utop_ix \<and> \<not> present (entry s1 d (va + page_off k))"
  proof (intro allI impI)
    fix k assume k: "Suc i \<le> k \<and> k < Suc i + n"
    then have p: "unat (PDX (va + page_off k)) < utop_ix" "\<not> present (entry s d (va + page_off k))"
      using Suc.prems(3) by auto
    moreover have "unat (PDX (va + page_off k)) \<noteq> uvpt_ix" using p(1) by simp
    then have "entry s1 d (va + page_off k) = entry s d (va + page_off k)"
      using s1(11) dist k by blast
    ultimately show "unat (PDX (va + page_off k)) < utop_ix \<and> \<not> present (entry s1 d (va + page_off k))" by simp
  qed
  have room1: "2 * n \<le> length fl1" using Suc.prems(4) s1(5) fl(1) by simp
  have "unat va + 4096 * (Suc i + n) < 4294967296" using Suc.prems(2) by simp
  from Suc.IH [OF s1(2) this rest room1] obtain s' fl' where
    s': "region_loop (toPhy d + KERNBASE) ?hi (va + page_off (Suc i)) s1 = Some (Inr s')"
      "expands d s1 fl1 s' fl'" "region_range s1 s' d va (Suc i) n" "length fl1 \<le> length fl' + 2 * n" by auto
  have uix: "unat (PDX ?va) \<noteq> uvpt_ix" using here(1) by simp
  have r1: "\<forall>k. Suc i \<le> k \<and> k < Suc i + n \<longrightarrow> (\<exists>pp\<in>mapped (view (kmem s')) d. pp < 1048576
        \<and> entry s' d (va + page_off k) = toPhy pp OR USER_PERM OR PTE_P \<and> view (kmem s') pp = (\<lambda>_. 0))"
    and r2: "\<forall>va'. unat (PDX va') \<noteq> uvpt_ix \<longrightarrow>
        (\<forall>k. Suc i \<le> k \<and> k < Suc i + n \<longrightarrow> (PDX va', PTX va') \<noteq> (PDX (va + page_off k), PTX (va + page_off k)))
        \<longrightarrow> entry s' d va' = entry s1 d va'"
    and r3: "\<forall>pp\<in>mapped (view (kmem s1)) d. pp \<in> mapped (view (kmem s')) d \<and> view (kmem s') pp = view (kmem s1) pp"
    using s'(3) unfolding region_range_def by blast+
  have "region_range s s' d va i (Suc n)"
    unfolding region_range_def
  proof (intro conjI allI impI ballI)
    fix k assume k: "i \<le> k \<and> k < i + Suc n"
    show "\<exists>pp\<in>mapped (view (kmem s')) d. pp < 1048576
        \<and> entry s' d (va + page_off k) = toPhy pp OR USER_PERM OR PTE_P \<and> view (kmem s') pp = (\<lambda>_. 0)"
    proof (cases "k = i")
      case True
      have "entry s' d ?va = entry s1 d ?va" using r2 uix dist by metis
      then show ?thesis using True s1(8-10) r3 ppn by (intro bexI [of _ pp]) auto
    qed (use r1 k in auto)
  next
    fix va' assume va': "unat (PDX va') \<noteq> uvpt_ix"
      and other: "\<forall>k. i \<le> k \<and> k < i + Suc n \<longrightarrow> (PDX va', PTX va') \<noteq> (PDX (va + page_off k), PTX (va + page_off k))"
    have "entry s' d va' = entry s1 d va'" using r2 va' other by auto
    also have "\<dots> = entry s d va'" using s1(11) va' other by auto
    finally show "entry s' d va' = entry s d va'" .
  next
    fix q assume "q \<in> mapped (view (kmem s)) d"
    then show "q \<in> mapped (view (kmem s')) d" "view (kmem s') q = view (kmem s) q" using s1(12) r3 by auto
  qed
  moreover have "region_loop (toPhy d + KERNBASE) ?hi ?va s = Some (Inr s')"
  proof -
    have "?va + PGSIZE = va + page_off (Suc i)" by (simp add: page_off_Suc [symmetric] add.assoc)
    then show ?thesis using lt s1(1) s'(1) by (subst region_loop.simps) (simp only: if_True sum.case)
  qed
  moreover have "length fl \<le> length fl' + 2 * Suc n" using fl(1) s1(5) s'(4) by simp
  ultimately show ?case using expands_trans [OF e1 s'(2)] by blast
qed

section \<open>regionAlloc\<close>

abbreviation page_of :: "u32 \<Rightarrow> nat" where "page_of a \<equiv> unat a div 4096"

lemma page_parts: "unat (PDX a) = page_of a div 1024" "unat (PTX a) = page_of a mod 1024"
  by (simp_all add: unat_PDX unat_PTX div_mult2_eq [symmetric])

lemma entry_page: "page_of a = page_of b \<Longrightarrow> entry s d a = entry s d b"
  by (simp add: entry_def page_parts)

lemma region_bounds:
  assumes "len \<noteq> 0" "unat va + unat len \<le> unat UTOP"
  defines "lo \<equiv> ROUNDDOWN va PGSIZE" and "n \<equiv> (unat va + unat len - 1) div 4096 - page_of va + 1"
  shows "ROUNDUP (va + len) PGSIZE = lo + page_off n" "lo < ROUNDUP (va + len) PGSIZE"
    "unat lo = 4096 * page_of va" "unat lo + 4096 * n \<le> unat UTOP" "n \<le> 1048576"
proof -
  have utop: "unat UTOP = 3737124864" by (simp add: mmu_consts)
  have l: "0 < unat len" using assms(1) by (simp add: unat_gt_0)
  have lo: "unat lo = 4096 * page_of va" unfolding lo_def by (simp add: unat_ROUNDDOWN PGSIZE_def)
  have vl: "unat (va + len) = unat va + unat len"
    using assms(2) utop by (intro unat_add_no_wrap) simp
  have hi: "unat (ROUNDUP (va + len) PGSIZE) = (unat va + unat len + 4095) div 4096 * 4096"
    using assms(2) utop vl by (subst unat_ROUNDUP) (simp_all add: PGSIZE_def)
  have up: "(unat va + unat len + 4095) div 4096 = (unat va + unat len - 1) div 4096 + 1"
  proof -
    have "unat va + unat len + 4095 = (unat va + unat len - 1) + 4096" using l by simp
    then show ?thesis by (simp only: div_add_self2)
  qed
  have mono: "page_of va \<le> (unat va + unat len - 1) div 4096"
    using l by (intro div_le_mono) simp
  have n: "page_of va + n = (unat va + unat len - 1) div 4096 + 1" using mono by (simp add: n_def)
  have le: "((unat va + unat len - 1) div 4096 + 1) * 4096 \<le> unat UTOP"
  proof -
    have "unat va + unat len - 1 < 912384 * 4096" using assms(2) utop l by simp
    then have "(unat va + unat len - 1) div 4096 < 912384" by (rule less_mult_imp_div_less)
    then show ?thesis using utop by simp
  qed
  show "unat lo = 4096 * page_of va" by (rule lo)
  show ub: "unat lo + 4096 * n \<le> unat UTOP" using le n lo by simp
  show "n \<le> 1048576" using ub utop by simp
  have "unat (lo + page_off n) = unat lo + 4096 * n"
    using ub utop by (subst unat_add_no_wrap) (simp_all add: unat_page_off)
  then show e: "ROUNDUP (va + len) PGSIZE = lo + page_off n"
    using hi up n lo by (intro unat_inj32) simp
  show "lo < ROUNDUP (va + len) PGSIZE"
    unfolding word_less_nat_alt hi up lo using mono by simp
qed

lemma regionAlloc_ok:
  assumes inv: "owned_inv s d fl" and len: "len \<noteq> 0" "unat va + unat len \<le> unat UTOP"
  defines "last_page \<equiv> (unat va + unat len - 1) div 4096"
  assumes absent: "\<forall>a. page_of va \<le> page_of a \<and> page_of a \<le> last_page \<longrightarrow> \<not> present (entry s d a)"
    and room: "2 * (last_page - page_of va + 1) \<le> length fl"
  shows "\<exists>s' fl'. regionAlloc (toPhy d + KERNBASE) va len s = Some (Inr s') \<and> expands d s fl s' fl'
     \<and> (\<forall>a. page_of va \<le> page_of a \<and> page_of a \<le> last_page \<longrightarrow> (\<exists>pp\<in>mapped (view (kmem s')) d.
          entry s' d a = toPhy pp OR USER_PERM OR PTE_P \<and> view (kmem s') pp = (\<lambda>_. 0)))
     \<and> (\<forall>a. unat (PDX a) \<noteq> uvpt_ix \<and> (page_of a < page_of va \<or> last_page < page_of a) \<longrightarrow> entry s' d a = entry s d a)"
proof -
  let ?lo = "ROUNDDOWN va PGSIZE" and ?n = "last_page - page_of va + 1"
  have utop: "unat UTOP = 3737124864" by (simp add: mmu_consts)
  note b = region_bounds [OF len, folded last_page_def]
  have lv: "page_of va \<le> last_page"
  proof -
    have "0 < unat len" using len(1) by (simp add: unat_gt_0)
    then show ?thesis unfolding last_page_def by (intro div_le_mono) simp
  qed
  have pg: "unat (?lo + page_off k) = unat ?lo + 4096 * k" "page_of (?lo + page_off k) = page_of va + k" if "k < ?n" for k
  proof -
    show u: "unat (?lo + page_off k) = unat ?lo + 4096 * k"
      using b(4) utop that by (subst unat_add_no_wrap) (simp_all add: unat_page_off)
    show "page_of (?lo + page_off k) = page_of va + k"
      unfolding u b(3) by (simp only: add_mult_distrib2 [symmetric]) simp
  qed
  have pre: "\<forall>k. 0 \<le> k \<and> k < 0 + ?n \<longrightarrow> unat (PDX (?lo + page_off k)) < utop_ix \<and> \<not> present (entry s d (?lo + page_off k))"
  proof (intro allI impI conjI)
    fix k assume k: "0 \<le> k \<and> k < 0 + ?n"
    have "unat (?lo + page_off k) < unat UTOP" using pg(1) [of k] k b(4) by simp
    then have "unat (?lo + page_off k) < 891 * 4194304" by (simp add: utop)
    then show "unat (PDX (?lo + page_off k)) < utop_ix" unfolding unat_PDX utop_bounds by (rule less_mult_imp_div_less)
    show "\<not> present (entry s d (?lo + page_off k))"
      using absent k lv by (intro absent [rule_format]) (simp add: pg(2))
  qed
  have top: "unat ?lo + 4096 * (0 + ?n) < 4294967296" using b(4) utop by simp
  have room': "2 * ?n \<le> length fl" using room by simp
  obtain s' fl' where s': "region_loop (toPhy d + KERNBASE) (?lo + page_off ?n) ?lo s = Some (Inr s')"
      "expands d s fl s' fl'" "region_range s s' d ?lo 0 ?n"
    using region_loop_ok [OF inv top pre room'] by (auto simp: page_off_def [of 0])
  have new: "\<exists>pp\<in>mapped (view (kmem s')) d. entry s' d a = toPhy pp OR USER_PERM OR PTE_P \<and> view (kmem s') pp = (\<lambda>_. 0)"
    if "page_of va \<le> page_of a \<and> page_of a \<le> last_page" for a
  proof -
    let ?k = "page_of a - page_of va"
    have k: "?k < ?n" using that by linarith
    have "page_of (?lo + page_off ?k) = page_of a" using pg(2) [OF k] that by simp
    then have "entry s' d a = entry s' d (?lo + page_off ?k)" by (intro entry_page) simp
    then show ?thesis using s'(3) k unfolding region_range_def by fastforce
  qed
  have other: "entry s' d a = entry s d a"
    if a: "unat (PDX a) \<noteq> uvpt_ix \<and> (page_of a < page_of va \<or> last_page < page_of a)" for a
  proof -
    have "(PDX a, PTX a) \<noteq> (PDX (?lo + page_off k), PTX (?lo + page_off k))" if k: "k < ?n" for k
    proof
      assume "(PDX a, PTX a) = (PDX (?lo + page_off k), PTX (?lo + page_off k))"
      then have "page_of a = page_of (?lo + page_off k)"
        using page_parts [of a] page_parts [of "?lo + page_off k"] by (metis div_mult_mod_eq prod.inject)
      then have "page_of a = page_of va + k" using pg(2) [OF k] by simp
      then show False using a k lv by linarith
    qed
    then show ?thesis using s'(3) a unfolding region_range_def by auto
  qed
  have "regionAlloc (toPhy d + KERNBASE) va len s = Some (Inr s')"
    using s'(1) b(1,2) by (simp add: regionAlloc_def Let_def not_le)
  then show ?thesis using s'(2) new other by blast
qed

section \<open>Properties\<close>

text \<open>
  C22: Giving a task's memory back. When each page of an address space is used once, \<open>Task::free\<close> ends
  without a panic and the free list then holds, besides what it held, exactly the pages of the address
  space: its data pages, its tables and its directory. No other page's record or contents change.
\<close>

theorem free_memory_releases:
  assumes "owned_inv s d fl"
  shows "\<exists>s' fl'. free_memory (toPhy d + KERNBASE) s = Inr s' \<and> alloc_inv s' fl'
     \<and> set fl' = set fl \<union> owned s d
     \<and> (\<forall>k. k \<notin> owned s d \<longrightarrow> pages s' ! k = pages s ! k \<and> view (kmem s') k = view (kmem s) k)"
  using free_memory_ok [OF assms] by blast

lemma small_setup:
  obtains s where "setup_memory small_vm = Inr (Some (toPhy 3 + KERNBASE), s)" "owned_inv s 3 [4, 5, 6, 7]" "owned s 3 = {3}"
    "\<And>a. entry s 3 a = 0 \<or> unat (PDX a) = uvpt_ix"
proof -
  have e: "user_part_empty small_vm 1" and k: "kernelPageDir small_vm = toPhy 1 + KERNBASE"
    by (simp_all add: user_part_empty_def)
  obtain s where s: "setup_memory small_vm = Inr (Some (toPhy 3 + KERNBASE), s)" "owned_inv s 3 [4, 5, 6, 7]"
      "owned s 3 = insert 3 (tables (view (kmem small_vm)) 1)"
      "view (kmem s) 3 = (view (kmem small_vm) 1)(uvpt_ix := toPhy 3 OR PTE_U OR PTE_P)"
    using setup_memory_ok [OF small_vm_inv small_dir k e] by blast
  have "view (kmem small_vm) = (\<lambda>_ _. 0)" by (simp add: small_vm_def)
  then show ?thesis using that [OF s(1,2)] s(3,4) by (auto simp: tables_def entry_def lookup_def)
qed

theorem free_memory_releases_witness:
  "\<exists>s s' fl'. setup_memory small_vm = Inr (Some (toPhy 3 + KERNBASE), s)
     \<and> free_memory (toPhy 3 + KERNBASE) s = Inr s' \<and> set fl' = {3, 4, 5, 6, 7} \<and> alloc_inv s' fl'"
proof -
  obtain s where s: "setup_memory small_vm = Inr (Some (toPhy 3 + KERNBASE), s)" "owned_inv s 3 [4, 5, 6, 7]" "owned s 3 = {3}"
    by (rule small_setup)
  show ?thesis using free_memory_releases [OF s(2)] s(1,3) by auto
qed

text \<open>
  C23: \<open>regionAlloc\<close> on a range below \<open>UTOP\<close> in which nothing is mapped returns, and every page that the
  range touches is then mapped, readable and writable for the user, to a cleared page of its own. No
  other mapping changes, and the pages come from the pool: none is lost or used twice.
\<close>

theorem regionAlloc_maps:
  assumes "owned_inv s d fl" "len \<noteq> 0" "unat va + unat len \<le> unat UTOP"
    and "\<forall>a. page_of va \<le> page_of a \<and> page_of a \<le> (unat va + unat len - 1) div 4096 \<longrightarrow> \<not> present (entry s d a)"
    and "2 * ((unat va + unat len - 1) div 4096 - page_of va + 1) \<le> length fl"
  shows "\<exists>s' fl'. regionAlloc (toPhy d + KERNBASE) va len s = Some (Inr s') \<and> owned_inv s' d fl'
     \<and> set fl' \<union> owned s' d = set fl \<union> owned s d
     \<and> (\<forall>a. page_of va \<le> page_of a \<and> page_of a \<le> (unat va + unat len - 1) div 4096 \<longrightarrow>
          (\<exists>pp\<in>mapped (view (kmem s')) d. entry s' d a = toPhy pp OR USER_PERM OR PTE_P \<and> view (kmem s') pp = (\<lambda>_. 0)))
     \<and> (\<forall>a. unat (PDX a) \<noteq> uvpt_ix \<and> (page_of a < page_of va \<or> (unat va + unat len - 1) div 4096 < page_of a)
          \<longrightarrow> entry s' d a = entry s d a)"
  using regionAlloc_ok [OF assms] unfolding expands_def by blast

theorem regionAlloc_maps_witness:
  "\<exists>s s' pp. setup_memory small_vm = Inr (Some (toPhy 3 + KERNBASE), s)
     \<and> regionAlloc (toPhy 3 + KERNBASE) 0x800FFF 2 s = Some (Inr s')
     \<and> entry s' 3 0x801000 = toPhy pp OR USER_PERM OR PTE_P \<and> view (kmem s') pp = (\<lambda>_. 0)"
proof -
  obtain s where s: "setup_memory small_vm = Inr (Some (toPhy 3 + KERNBASE), s)" "owned_inv s 3 [4, 5, 6, 7]" "owned s 3 = {3}"
      "\<And>a. entry s 3 a = 0 \<or> unat (PDX a) = uvpt_ix"
    using small_setup by blast
  have "\<not> present (entry s 3 a)" if "2048 \<le> page_of a" "page_of a \<le> 2049" for a
  proof -
    have "unat (PDX a) \<noteq> uvpt_ix" using that by (simp add: page_parts)
    then show ?thesis using s(4) [of a] by simp
  qed
  then have h: "\<forall>a. page_of 0x800FFF \<le> page_of a \<and> page_of a \<le> (unat (0x800FFF :: u32) + unat (2 :: u32) - 1) div 4096
      \<longrightarrow> \<not> present (entry s 3 a)" by simp
  have u: "unat (0x800FFF :: u32) + unat (2 :: u32) \<le> unat UTOP" by (simp add: mmu_consts)
  have r: "2 * ((unat (0x800FFF :: u32) + unat (2 :: u32) - 1) div 4096 - page_of 0x800FFF + 1) \<le> length [4, 5, 6, 7 :: nat]"
    by simp
  have p: "page_of 0x800FFF \<le> page_of 0x801000 \<and> page_of 0x801000 \<le> (unat (0x800FFF :: u32) + unat (2 :: u32) - 1) div 4096"
    by simp
  have "(2 :: u32) \<noteq> 0" by simp
  from regionAlloc_maps [OF s(2) this u h r] p s(1) show ?thesis by blast
qed

lemma fresh_entries:
  assumes s': "view (kmem s') i = (view (kmem s) kd)(uvpt_ix := e)" and empty: "tables (view (kmem s)) kd = {}"
    and a: "unat a < unat UTOP"
  shows "\<not> present (entry s' i a)"
proof -
  have "unat a < 891 * 4194304" using a by (simp add: mmu_consts)
  then have j: "unat (PDX a) < utop_ix" unfolding unat_PDX utop_bounds by (rule less_mult_imp_div_less)
  moreover have "unat (PDX a) \<noteq> uvpt_ix" using j by simp
  moreover have "\<not> present (view (kmem s) kd (unat (PDX a)))"
    using empty tablesI [OF j, of "view (kmem s)" kd] by blast
  ultimately show ?thesis by (simp add: entry_def lookup_def s')
qed



text \<open>
  C25: The first bug of the memory life cycle. If the kernel's directory has a table below \<open>UTOP\<close>, every
  task's directory shares it, and freeing the task puts this table's page on the free list while the
  kernel's directory still refers to it.
\<close>

theorem free_memory_frees_kernel_table:
  assumes "alloc_inv s (i # fl)" "dir_ok s kd (i # fl)" "kernelPageDir s = toPhy kd + KERNBASE" "user_part_empty s kd"
    and "j < utop_ix" "present (view (kmem s) kd j)"
  shows "\<exists>pageDir s1 s2 fl2. setup_memory s = Inr (Some pageDir, s1) \<and> free_memory pageDir s1 = Inr s2
     \<and> alloc_inv s2 fl2 \<and> pn (view (kmem s) kd j) \<in> set fl2 \<and> view (kmem s2) kd j = view (kmem s) kd j"
proof -
  obtain s1 where s1: "setup_memory s = Inr (Some (toPhy i + KERNBASE), s1)" "owned_inv s1 i fl"
      "owned s1 i = insert i (tables (view (kmem s)) kd)" "\<forall>k. k \<noteq> i \<longrightarrow> view (kmem s1) k = view (kmem s) k"
    using setup_memory_ok [OF assms(1-4)] by blast
  have "kd \<noteq> i" using assms(2) by (auto simp: dir_inv_def)
  moreover have "kd \<notin> tables (view (kmem s)) kd"
  proof
    assume "kd \<in> tables (view (kmem s)) kd"
    then obtain j where "j < utop_ix" "present (view (kmem s) kd j)" "kd = pn (view (kmem s) kd j)"
      unfolding tables_def by blast
    then show False using dir_inv_neq [OF assms(2), of j] by simp
  qed
  ultimately have kd: "kd \<notin> owned s1 i" using s1(3) by simp
  obtain s2 fl2 where s2: "free_memory (toPhy i + KERNBASE) s1 = Inr s2" "alloc_inv s2 fl2" "set fl2 = set fl \<union> owned s1 i"
      "view (kmem s2) kd = view (kmem s1) kd"
    using free_memory_ok [OF s1(2)] kd by blast
  have "pn (view (kmem s) kd j) \<in> owned s1 i"
    using s1(3) tablesI [of j "view (kmem s)" kd, OF assms(5,6)] by simp
  then show ?thesis using s1(1,4) s2 \<open>kd \<noteq> i\<close> by auto
qed

text \<open>The small machine with an empty table in page 0 for the addresses from 8 MB.\<close>

definition shared_vm :: vmem where
  "shared_vm = small_vm\<lparr>kmem := store32 (\<lambda>_. 0) (slot 1 2) 7\<rparr>"

lemma shared_view: "view (kmem shared_vm) = put (\<lambda>_ _. 0) 1 2 7"
  by (simp add: shared_vm_def view_store)

theorem free_memory_frees_kernel_table_witness:
  "\<exists>pageDir s1 s2 fl2. setup_memory shared_vm = Inr (Some pageDir, s1) \<and> free_memory pageDir s1 = Inr s2
     \<and> alloc_inv s2 fl2 \<and> 0 \<in> set fl2 \<and> view (kmem s2) 1 2 = 7"
proof -
  have a: "alloc_inv shared_vm [3, 4, 5, 6, 7]" using small_vm_inv by (simp add: shared_vm_def)
  have d: "dir_ok shared_vm 1 [3, 4, 5, 6, 7]"
    unfolding shared_view by (auto simp: dir_inv_def put_apply shared_vm_def)
  have k: "kernelPageDir shared_vm = toPhy 1 + KERNBASE" by (simp add: shared_vm_def)
  have e: "user_part_empty shared_vm 1"
    unfolding user_part_empty_def shared_view by (auto simp: put_apply shared_vm_def small_vm_def)
  have j: "2 < utop_ix" "present (view (kmem shared_vm) 1 2)" unfolding shared_view by (simp_all add: put_apply)
  from free_memory_frees_kernel_table [OF a d k e j] show ?thesis
    unfolding shared_view by (simp add: put_apply)
qed

text \<open>
  \<open>Task::create\<close> calls \<open>setupMemory\<close> after \<open>alloc\<close> has already done so. The page of
  the first directory is then lost: after the task is freed it is neither free nor referred to by the
  task, and its reference count is still 1.
\<close>

lemma setup_twice_leaks:
  assumes "alloc_inv s (i # j # fl)" "dir_ok s kd (i # j # fl)" "kernelPageDir s = toPhy kd + KERNBASE"
    and "tables (view (kmem s)) kd = {}"
  shows "\<exists>s1 s2 s3 fl3. setup_memory s = Inr (Some (toPhy i + KERNBASE), s1)
     \<and> setup_memory s1 = Inr (Some (toPhy j + KERNBASE), s2) \<and> free_memory (toPhy j + KERNBASE) s2 = Inr s3
     \<and> alloc_inv s3 fl3 \<and> set fl3 = set (j # fl) \<and> i \<notin> set fl3 \<and> refCount (pages s3 ! i) = 1"
proof -
  have e: "user_part_empty s kd" using assms(4) unfolding user_part_empty_def tables_def by blast
  obtain s1 where s1: "setup_memory s = Inr (Some (toPhy i + KERNBASE), s1)" "owned_inv s1 i (j # fl)"
      "owned s1 i = {i}" "\<forall>k. k \<noteq> i \<longrightarrow> view (kmem s1) k = view (kmem s) k" "nPages s1 = nPages s"
      "kernelPageDir s1 = kernelPageDir s"
    using setup_memory_ok [OF assms(1-3) e] unfolding assms(4) by blast
  have "kd \<noteq> i" "i \<noteq> j" "i \<notin> set fl"
    using assms(2) alloc_inv_distinct [OF assms(1)] by (auto simp: dir_inv_def)
  then have row: "view (kmem s1) kd = view (kmem s) kd" using s1(4) by simp
  have d1: "dir_ok s1 kd (j # fl)"
    using dir_inv_subset [OF assms(2), of "j # fl"] row s1(5) by (auto simp: dir_inv_def)
  have t1: "tables (view (kmem s1)) kd = {}" using assms(4) row by (simp add: tables_def)
  then have e1: "user_part_empty s1 kd" unfolding user_part_empty_def tables_def by blast
  have k1: "kernelPageDir s1 = toPhy kd + KERNBASE" using s1(6) assms(3) by simp
  obtain s2 where s2: "setup_memory s1 = Inr (Some (toPhy j + KERNBASE), s2)" "owned_inv s2 j fl" "owned s2 j = {j}"
      "\<forall>k. k \<noteq> j \<longrightarrow> pages s2 ! k = pages s1 ! k"
    using setup_memory_ok [OF owned_inv_alloc [OF s1(2)] d1 k1 e1] unfolding t1 by blast
  obtain s3 fl3 where s3: "free_memory (toPhy j + KERNBASE) s2 = Inr s3" "alloc_inv s3 fl3"
      "set fl3 = set fl \<union> owned s2 j" "pages s3 ! i = pages s2 ! i"
  proof -
    have "i \<notin> owned s2 j" using s2(3) \<open>i \<noteq> j\<close> by simp
    then show ?thesis using that free_memory_ok [OF s2(2)] by blast
  qed
  have "refCount (pages s1 ! i) = 1" using owned_inv_ref [OF s1(2), of i] s1(3) by simp
  moreover have "pages s2 ! i = pages s1 ! i" using s2(4) \<open>i \<noteq> j\<close> by simp
  ultimately have "refCount (pages s3 ! i) = 1" using s3(4) by simp
  moreover have "set fl3 = set (j # fl)" using s3(3) s2(3) by simp
  moreover have "i \<notin> set (j # fl)" using \<open>i \<noteq> j\<close> \<open>i \<notin> set fl\<close> by simp
  ultimately show ?thesis using s1(1) s2(1) s3(1,2) by metis
qed

lemma setup_twice_leaks_witness:
  "\<exists>s1 s2 s3 fl3. setup_memory small_vm = Inr (Some (toPhy 3 + KERNBASE), s1)
     \<and> setup_memory s1 = Inr (Some (toPhy 4 + KERNBASE), s2) \<and> free_memory (toPhy 4 + KERNBASE) s2 = Inr s3
     \<and> set fl3 = set [4, 5, 6, 7 :: nat] \<and> refCount (pages s3 ! 3) = 1"
proof -
  have "kernelPageDir small_vm = toPhy 1 + KERNBASE" "tables (view (kmem small_vm)) 1 = {}"
    by (simp_all add: tables_def)
  from setup_twice_leaks [OF small_vm_inv small_dir this] show ?thesis by blast
qed

end
