(* ===== verification/Task.thy ===== *)
theory Task
  imports TaskMem Readline
begin

text \<open>
  Tasks: \<open>kernel/task.cc\<close>, \<open>kernel/task.hh\<close>, \<open>include/task.hh\<close>, the trap frame of \<open>kernel/trap.hh\<close> and
  the random numbers of \<open>lib/random.cc\<close>. A \<open>Task*\<close> is the index of its entry in \<open>Task::array\<close>, \<open>None\<close>
  the null pointer. The kernel's messages are kept as a log of the \<open>print\<close> calls with their
  arguments; how a call is rendered is the subject of \<open>PrintFmt\<close> and \<open>Console\<close>.
\<close>

section \<open>Random numbers\<close>

text \<open>\<open>next\<close> is a C \<open>int\<close>; the division truncates towards zero.\<close>

definition lrandom_next :: "u32 \<Rightarrow> u32" where
  "lrandom_next nxt = nxt * 1103515245 + 12345"

definition lrandom_rand :: "u32 \<Rightarrow> u16 \<times> u32" where
  "lrandom_rand nxt = (let nxt = lrandom_next nxt; v = sint nxt in
     (word_of_int (if v < 0 then - ((- v) div 65536) else v div 65536), nxt))"

section \<open>Data\<close>

record Registers =
  edi :: u32
  esi :: u32
  ebp :: u32
  oesp :: u32
  ebx :: u32
  edx :: u32
  ecx :: u32
  eax :: u32

text \<open>The padding words of the frame are never read and left out.\<close>

record Frame =
  regs :: Registers
  es :: u16
  ds :: u16
  trapType :: u32
  err :: u32
  eip :: u32
  cs :: u16
  eflags :: u32
  esp :: u32
  ss :: u16

definition frame_clear :: Frame where
  "frame_clear = \<lparr>regs = \<lparr>edi = 0, esi = 0, ebp = 0, oesp = 0, ebx = 0, edx = 0, ecx = 0, eax = 0\<rparr>,
     es = 0, ds = 0, trapType = 0, err = 0, eip = 0, cs = 0, eflags = 0, esp = 0, ss = 0\<rparr>"

datatype TaskStatus = free | dying | ready | running | waiting

datatype TaskType = user

record Task =
  nextTask :: "nat option"
  taskId :: u32
  parentId :: u32
  taskName :: "u8 list"
  status :: TaskStatus
  taskType :: TaskType
  trapFrame :: Frame
  pageDir :: u32

definition maxCount :: nat where "maxCount = 0x100"
definition nameLength :: nat where "nameLength = 32"
definition SIZEOF_Task :: u32 where "SIZEOF_Task = 124"

datatype arg = Num u32 | Str string | Res Result

text \<open>
  The kernel's state. \<open>cr3\<close> is the physical address of the directory in use, \<open>io\<close> the keyboard with the
  polls to come and the console, \<open>klog\<close> the messages printed, latest first.
\<close>

record machine =
  vm :: vmem
  tasks :: "Task list"
  freeTasks :: "nat option"
  current :: "nat option"
  cr3 :: u32
  rnd :: u32
  io :: kio
  klog :: "(string \<times> arg list) list"

definition kprint :: "string \<Rightarrow> arg list \<Rightarrow> machine \<Rightarrow> machine" where
  "kprint fmt args m = m\<lparr>klog := (fmt, args) # klog m\<rparr>"

text \<open>Dereferencing a \<open>Task*\<close>, and assigning to the object.\<close>

definition task_at :: "nat \<Rightarrow> machine \<Rightarrow> Task outcome" where
  "task_at i m = (if i < length (tasks m) then Inr (tasks m ! i) else Inl (Fault ''Task*''))"

definition set_task :: "nat \<Rightarrow> Task \<Rightarrow> machine \<Rightarrow> machine" where
  "set_task i t m = m\<lparr>tasks := (tasks m)[i := t]\<rparr>"

definition load_cr3 :: "u32 \<Rightarrow> machine \<Rightarrow> machine outcome" where
  "load_cr3 dir m = bindE (PHY_ADDR dir) (\<lambda>pa. Inr (m\<lparr>vm := lcr3 pa (vm m), cr3 := pa\<rparr>))"

section \<open>Operations\<close>

definition blank_task :: Task where
  "blank_task = \<lparr>nextTask = None, taskId = 0, parentId = 0, taskName = replicate nameLength 0,
     status = free, taskType = user, trapFrame = frame_clear, pageDir = 0\<rparr>"

definition allocArray :: "u32 \<Rightarrow> machine \<Rightarrow> machine outcome option" where
  "allocArray kernEnd m =
     (case bootAlloc kernEnd (SIZEOF_Task * of_nat maxCount) (vm m) of
        Inl e \<Rightarrow> Some (Inl e)
      | Inr (arr, s1) \<Rightarrow>
        let s2 = s1\<lparr>kmem := mem_clear (kmem s1) arr (SIZEOF_Task * of_nat maxCount)\<rparr> in
        (case PHY_ADDR arr of Inl e \<Rightarrow> Some (Inl e)
         | Inr pa \<Rightarrow> (case staticMap (kernelPageDir s2) UENVS (ROUNDUP (SIZEOF_Task * of_nat maxCount) PGSIZE) pa PTE_U s2 of
             None \<Rightarrow> None
           | Some (Inl e) \<Rightarrow> Some (Inl e)
           | Some (Inr s3) \<Rightarrow> Some (Inr (m\<lparr>vm := s3, tasks := replicate maxCount blank_task\<rparr>)))))"

text \<open>The loop of \<open>task::init\<close> runs from the last entry to the first.\<close>

definition link_task :: "nat \<Rightarrow> machine \<Rightarrow> machine outcome" where
  "link_task i m = bindE (task_at i m) (\<lambda>t.
     Inr ((set_task i (t\<lparr>nextTask := freeTasks m\<rparr>) m)\<lparr>freeTasks := Some i\<rparr>))"

definition task_initPerCpu :: "machine \<Rightarrow> machine" where
  "task_initPerCpu m = m\<lparr>vm := (vm m)\<lparr>hwlog := rev [Lgdt, LoadSeg ''gs'' (GD_UD OR 3), LoadSeg ''fs'' (GD_UD OR 3),
     LoadSeg ''es'' GD_KD, LoadSeg ''ds'' GD_KD, LoadSeg ''ss'' GD_KD, Ljmp GD_KT] @ hwlog (vm m)\<rparr>\<rparr>"

definition task_init :: "machine \<Rightarrow> machine outcome" where
  "task_init m = bindE (foldE link_task (rev [0..<maxCount]) (kprint ''Initializing tasks...'' [] m))
     (\<lambda>m. Inr (kprint ''Done'' [] (task_initPerCpu m)))"

definition setupMemory :: "nat \<Rightarrow> machine \<Rightarrow> (Result \<times> machine) outcome" where
  "setupMemory i m = bindE (task_at i m) (\<lambda>t. bindE (setup_memory (vm m)) (\<lambda>(pd, s).
     case pd of None \<Rightarrow> Inr (noMemory, m\<lparr>vm := s\<rparr>)
     | Some d \<Rightarrow> Inr (ok, set_task i (t\<lparr>pageDir := d\<rparr>) (m\<lparr>vm := s\<rparr>))))"

definition new_frame :: Frame where
  "new_frame = frame_clear\<lparr>ds := GD_UD OR 3, es := GD_UD OR 3, cs := GD_UT OR 3, ss := GD_UD OR 3, esp := USTACKTOP\<rparr>"

definition task_alloc :: "u32 \<Rightarrow> machine \<Rightarrow> ((nat option \<times> Result) \<times> machine) outcome" where
  "task_alloc parent m =
     (case freeTasks m of None \<Rightarrow> Inr ((None, noFreeTask), m)
      | Some i \<Rightarrow> bindE (task_at i m) (\<lambda>t0.
          bindE (setupMemory i (m\<lparr>freeTasks := nextTask t0\<rparr>)) (\<lambda>(r, m1).
          if r \<noteq> ok then Inr ((None, r), m1) else
          bindE (task_at i m1) (\<lambda>t.
          let (r1, n1) = lrandom_rand (rnd m1); (r2, n2) = lrandom_rand n1;
              rand = push_bit 16 (ucast r1) OR ucast r2;
              t' = t\<lparr>taskId := (rand AND NOT (of_nat maxCount - 1)) OR of_nat i, parentId := parent,
                    status := ready, taskType := user, trapFrame := new_frame\<rparr> in
          Inr ((Some i, ok), kprint ''[%08x] Allocated task'' [Num (taskId t')] (set_task i t' (m1\<lparr>rnd := n2\<rparr>)))))))"

definition task_free :: "nat \<Rightarrow> machine \<Rightarrow> machine outcome" where
  "task_free i m =
     bindE (task_at i m) (\<lambda>t.
     bindE (if Some i = current m then load_cr3 (kernelPageDir (vm m)) m else Inr m) (\<lambda>m1.
     bindE (free_memory (pageDir t) (vm m1)) (\<lambda>s.
     let t' = t\<lparr>status := free, nextTask := freeTasks m1\<rparr> in
     Inr (kprint ''[%08x] Freed task'' [Num (taskId t')]
       ((set_task i t' (m1\<lparr>vm := s\<rparr>))\<lparr>freeTasks := Some i\<rparr>)))))"

definition loadElf :: "nat \<Rightarrow> u32 \<Rightarrow> machine \<Rightarrow> machine outcome option" where
  "loadElf i binary m =
     (case task_at i m of Inl e \<Rightarrow> Some (Inl e)
      | Inr t \<Rightarrow> (case load_elf (pageDir t) binary (vm m) of
          None \<Rightarrow> None | Some (Inl e) \<Rightarrow> Some (Inl e)
        | Some (Inr (ep, s)) \<Rightarrow> Some (Inr (kprint ''[%08x] Loaded elf'' [Num (taskId t)]
            (set_task i (t\<lparr>trapFrame := (trapFrame t)\<lparr>eip := ep\<rparr>\<rparr>)
              (m\<lparr>vm := s, cr3 := kernelPageDir s - KERNBASE\<rparr>))))))"

text \<open>
  \<open>str::copy(task->name, _name, nameLength)\<close> on the record: at most 32 characters and the terminator.
  With 32 or more the terminator is the byte after \<open>name\<close>, the low byte of \<open>status\<close>, whose values are
  below 256: the status becomes \<open>free\<close>.
\<close>

definition set_name :: "u8 list \<Rightarrow> Task \<Rightarrow> Task" where
  "set_name name t =
     (if length name < nameLength then t\<lparr>taskName := name @ 0 # drop (length name + 1) (taskName t)\<rparr>
      else t\<lparr>taskName := take nameLength name, status := free\<rparr>)"

definition create :: "u32 \<Rightarrow> u8 list \<Rightarrow> machine \<Rightarrow> ((nat option \<times> Result) \<times> machine) outcome option" where
  "create binary name m =
     (case task_alloc 0 m of Inl e \<Rightarrow> Some (Inl e)
      | Inr ((task, r), m1) \<Rightarrow>
        (case task of None \<Rightarrow> Some (Inr ((None, r), m1))
         | Some i \<Rightarrow>
           (case setupMemory i m1 of Inl e \<Rightarrow> Some (Inl e)
            | Inr (r2, m2) \<Rightarrow>
              if r2 \<noteq> ok then Some (Inr ((None, r2), m2)) else
              (case loadElf i binary m2 of None \<Rightarrow> None | Some (Inl e) \<Rightarrow> Some (Inl e)
               | Some (Inr m3) \<Rightarrow> Some (bindE (task_at i m3) (\<lambda>t.
                   Inr ((Some i, ok), kprint ''[%08x] Created task'' [Num (taskId t)]
                     (set_task i (set_name name t) m3))))))))"

text \<open>
  \<open>run\<close> ends with \<open>trapFrame.pop()\<close>, which leaves the kernel: the result is the frame that the
  processor continues with.
\<close>

definition pause_current :: "machine \<Rightarrow> machine outcome" where
  "pause_current m = (case current m of None \<Rightarrow> Inr m
     | Some c \<Rightarrow> bindE (task_at c m) (\<lambda>t.
         Inr (if status t = running then set_task c (t\<lparr>status := ready\<rparr>) m else m)))"

definition run :: "nat \<Rightarrow> bool \<Rightarrow> machine \<Rightarrow> (Frame \<times> machine) outcome" where
  "run i verbose m =
     bindE (if current m = Some i then Inr m else
         bindE (pause_current m) (\<lambda>m1. bindE (task_at i m1) (\<lambda>t.
         load_cr3 (pageDir t) ((set_task i (t\<lparr>status := running\<rparr>) m1)\<lparr>current := Some i\<rparr>)))) (\<lambda>m2.
     bindE (task_at i m2) (\<lambda>t.
       Inr (trapFrame t, if verbose then kprint ''[%08x] Goodbye, kernel!'' [Num (taskId t)] m2 else m2)))"

text \<open>\<open>destroy\<close> up to its call of \<open>monitor::main()\<close>, which does not return.\<close>

definition destroy :: "nat \<Rightarrow> bool \<Rightarrow> machine \<Rightarrow> machine outcome" where
  "destroy i fromKernel m =
     bindE (task_at i m) (\<lambda>t.
     let m1 = kprint ''[%08x] Destroyed by %s'' [Num (taskId t), Str (if fromKernel then ''kernel'' else ''user'')] m in
     bindE (if current m = Some i then load_cr3 (kernelPageDir (vm m1)) (m1\<lparr>current := None\<rparr>) else Inr m1)
       (task_free i))"

end
