(* ===== verification/Syscall.thy ===== *)
theory Syscall
  imports Task
begin

text \<open>
  System calls: \<open>kernel/ksyscall.cc\<close> with the numbers of \<open>include/syscall.hh\<close>. A call that destroys the
  current task ends in \<open>monitor::main()\<close> and does not return to its caller.
\<close>

datatype Num = putChar | putString | getChar | exit

primrec num_code :: "Num \<Rightarrow> u32" where
  "num_code putChar = 0"
| "num_code putString = 1"
| "num_code getChar = 2"
| "num_code exit = 3"

datatype sys_result = Return u32 machine | ToMonitor machine

text \<open>\<open>console::out::putChar\<close> on the machine.\<close>

definition out_putChar :: "u32 \<Rightarrow> machine \<Rightarrow> machine" where
  "out_putChar ch m = m\<lparr>io := kput ch (io m)\<rparr>"

definition sys_putChar :: "u32 \<Rightarrow> machine \<Rightarrow> machine" where
  "sys_putChar c m = (if c AND 0x00ff \<noteq> 0 then out_putChar c m else m)"

text \<open>Reading through the directory in use; a page fault in the kernel panics.\<close>

definition user_load8 :: "u32 \<Rightarrow> machine \<Rightarrow> u8 outcome" where
  "user_load8 va m = (case mmu_walk (kmem (vm m)) (cr3 m + KERNBASE) va of
     None \<Rightarrow> Inl (Panic ''Unhandled page fault from kernel'') | Some a \<Rightarrow> Inr (kmem (vm m) a))"

definition user_load16 :: "u32 \<Rightarrow> machine \<Rightarrow> u16 outcome" where
  "user_load16 va m = bindE (user_load8 va m) (\<lambda>lo. bindE (user_load8 (va + 1) m) (\<lambda>hi.
     Inr (ucast lo OR push_bit 8 (ucast hi))))"

primrec putString_loop :: "u32 \<Rightarrow> nat \<Rightarrow> machine \<Rightarrow> machine outcome" where
  "putString_loop str 0 m = Inr m"
| "putString_loop str (Suc n) m = bindE (user_load16 str m) (\<lambda>ch.
     putString_loop (str + 2) n (out_putChar (ucast ch) m))"

definition sys_putString :: "u32 \<Rightarrow> u32 \<Rightarrow> machine \<Rightarrow> sys_result outcome option" where
  "sys_putString str count m =
     (case current m of None \<Rightarrow> Some (Inl (Fault ''Task*''))
      | Some c \<Rightarrow> (case task_at c m of Inl e \<Rightarrow> Some (Inl e)
        | Inr t \<Rightarrow> (case userCheck (pageDir t) str count PTE_U (vm m) of
            None \<Rightarrow> None
          | Some (Inl e) \<Rightarrow> Some (Inl e)
          | Some (Inr okay) \<Rightarrow> Some
              (if \<not> okay then
                 bindE (destroy c True (kprint ''[%08x] Invalid memory access in [%p, %p)''
                    [Num (taskId t), Num str, Num (str + 2 * count)] m)) (\<lambda>m1. Inr (ToMonitor m1))
               else bindE (putString_loop str (unat count) m) (\<lambda>m1. Inr (Return 0 m1))))))"

definition sys_exit :: "machine \<Rightarrow> sys_result outcome" where
  "sys_exit m = (case current m of None \<Rightarrow> Inl (Fault ''Task*'')
     | Some c \<Rightarrow> bindE (destroy c False m) (\<lambda>m1. Inr (ToMonitor m1)))"

text \<open>The character is returned as a \<open>char\<close>, sign-extended to the result.\<close>

definition sys_getChar :: "machine \<Rightarrow> (u32 \<times> machine) option" where
  "sys_getChar m = map_option (\<lambda>(c, s). (word_of_int (as_char c), m\<lparr>io := s\<rparr>)) (kget (io m))"

definition ksyscall_main :: "u32 \<Rightarrow> u32 \<Rightarrow> u32 \<Rightarrow> machine \<Rightarrow> sys_result outcome option" where
  "ksyscall_main type a1 a2 m =
     (if type = num_code putChar then Some (Inr (Return 0 (sys_putChar a1 m)))
      else if type = num_code putString then sys_putString a1 a2 m
      else if type = num_code exit then Some (sys_exit m)
      else if type = num_code getChar then
        map_option (\<lambda>r. Inr (Return (fst r) (snd r))) (sys_getChar m)
      else Some (Inr (Return 0 m)))"

end
