(* ===== verification/VmUtils.thy ===== *)
theory VmUtils
  imports Syscall
begin

text \<open>
  The memory displays of the monitor: \<open>vmem::utils\<close> in \<open>kernel/vmem.cc\<close>. The loops compare addresses
  with \<open><=\<close> and may not end, which is the value \<open>None\<close>.
\<close>

definition flag_chars :: "string \<times> string" where
  "flag_chars = (''_________SR_'', ''AVLGPDACTUWP'')"

definition flagStr :: "u32 \<Rightarrow> string" where
  "flagStr e = map (\<lambda>i. (if bit e (11 - i) then snd flag_chars else fst flag_chars) ! i) [0..<12]"

definition show_line :: "u32 \<Rightarrow> u32 \<Rightarrow> machine \<Rightarrow> machine outcome" where
  "show_line dir va m =
     (let m1 = kprint ''%p -> '' [Num va] m in
      bindE (findPte dir va False (vm m1)) (\<lambda>(pte, s).
        case pte of None \<Rightarrow> Inr (kprint ''<NOT MAPPED>'' [] m1)
        | Some p \<Rightarrow>
          let phy = PTE_ADDR (load32 (kmem s) p) in
          if nPages s \<le> PGNUM phy then Inr (kprint ''<NOT EXIST>'' [] m1)
          else bindE (fromPhy s phy) (\<lambda>i. bindE (page_at s i) (\<lambda>pg.
            Inr (kprint ''%p  %2d  %s'' [Num phy, Num (ucast (refCount pg)), Str (flagStr (load32 (kmem s) p))] m1)))))"

partial_function (option) show_loop :: "u32 \<Rightarrow> u32 \<Rightarrow> u32 \<Rightarrow> machine \<Rightarrow> machine outcome option" where
  "show_loop dir endV va m =
     (if va \<le> endV then
        (case show_line dir va m of Inl e \<Rightarrow> Some (Inl e)
         | Inr m1 \<Rightarrow> show_loop dir endV (va + PGSIZE) m1)
      else Some (Inr m))"

definition vm_show :: "u32 \<Rightarrow> u32 \<Rightarrow> u32 \<Rightarrow> machine \<Rightarrow> machine outcome option" where
  "vm_show dir beginV endV m =
     show_loop dir (ROUNDDOWN endV PGSIZE) (ROUNDDOWN beginV PGSIZE) (kprint ''VIRTUAL     PHYSICAL  RC  FLAGS'' [] m)"

partial_function (option) dumpV_bytes :: "u32 \<Rightarrow> u32 \<Rightarrow> machine \<Rightarrow> machine outcome option" where
  "dumpV_bytes hi va m =
     (if va \<le> hi then
        (case user_load8 va m of Inl e \<Rightarrow> Some (Inl e)
         | Inr b \<Rightarrow> dumpV_bytes hi (va + 1) (kprint '' %02X'' [Num (ucast b)] m))
      else Some (Inr m))"

partial_function (option) dumpV_loop :: "u32 \<Rightarrow> u32 \<Rightarrow> u32 \<Rightarrow> machine \<Rightarrow> machine outcome option" where
  "dumpV_loop dir endV row m =
     (if row \<le> endV then
        (case findPte dir row False (vm m) of Inl e \<Rightarrow> Some (Inl e)
         | Inr r \<Rightarrow> (case fst r of None \<Rightarrow> Some (Inr (kprint ''  <INVALID>'' [] (kprint ''%p'' [Num row] m)))
            | Some p \<Rightarrow>
              if \<not> present (load32 (kmem (vm m)) p)
              then Some (Inr (kprint ''  <NOT PRESENT>'' [] (kprint ''%p'' [Num row] m)))
              else (case dumpV_bytes (row + 15) row (kprint ''%p'' [Num row] m) of
                  None \<Rightarrow> None
                | Some r2 \<Rightarrow> (case r2 of Inl e \<Rightarrow> Some (Inl e)
                    | Inr m1 \<Rightarrow> dumpV_loop dir endV (row + 16) (kprint ''newline'' [] m1)))))
      else Some (Inr m))"

definition vm_dumpV :: "u32 \<Rightarrow> u32 \<Rightarrow> u32 \<Rightarrow> machine \<Rightarrow> machine outcome option" where
  "vm_dumpV dir beginV endV m =
     dumpV_loop dir (ROUNDUP endV 16) (ROUNDDOWN beginV 16)
       (kprint ''VIRTUAL   0  1  2  3  4  5  6  7  8  9  A  B  C  D  E  F'' [] m)"

text \<open>
  The sixteen bytes of a row; a row at the end of the address space stops at its first byte, since
  the memory size is below it. The flag tells whether the row was complete.
\<close>

primrec dumpP_bytes :: "nat \<Rightarrow> u32 \<Rightarrow> u32 \<Rightarrow> machine \<Rightarrow> (bool \<times> machine) outcome" where
  "dumpP_bytes 0 lim pa m = Inr (True, m)"
| "dumpP_bytes (Suc n) lim pa m =
     (if lim \<le> pa then Inr (False, kprint ''  <INVALID>'' [] m)
      else bindE (KERN_ADDR (vm m) pa) (\<lambda>a.
        dumpP_bytes n lim (pa + 1) (kprint '' %02X'' [Num (ucast (kmem (vm m) a))] m)))"

partial_function (option) dumpP_loop :: "u32 \<Rightarrow> u32 \<Rightarrow> u32 \<Rightarrow> machine \<Rightarrow> machine outcome option" where
  "dumpP_loop lim endP row m =
     (if row \<le> endP then
        (case dumpP_bytes 16 lim row (kprint ''%p'' [Num row] m) of
           Inl e \<Rightarrow> Some (Inl e)
         | Inr r \<Rightarrow> if fst r then dumpP_loop lim endP (row + 16) (kprint ''newline'' [] (snd r)) else Some (Inr (snd r)))
      else Some (Inr m))"

definition vm_dumpP :: "u32 \<Rightarrow> u32 \<Rightarrow> machine \<Rightarrow> machine outcome option" where
  "vm_dumpP beginP endP m =
     dumpP_loop (totalMem (vm m) * 1024) (ROUNDUP endP 16) (ROUNDDOWN beginP 16)
       (kprint ''PHYSICAL  0  1  2  3  4  5  6  7  8  9  A  B  C  D  E  F'' [] m)"

end
