(* ===== verification/Monitor.thy ===== *)
theory Monitor
  imports VmUtils Strtol
begin

text \<open>
  The kernel monitor, \<open>kernel/monitor.cc\<close>: its commands, the dispatcher \<open>parseCmd\<close> and one round of
  the loop \<open>main\<close>. A trap frame pointer is the frame of a task, a frame on the kernel's stack, or null.
  The address of the string literal \<open>s\<close> is \<open>lit s\<close>, that of the constant \<open>WHITESPACE\<close> is \<open>ws\<close>, and
  \<open>buf\<close> is the address of the line buffer \<open>console::in::buf\<close>.
\<close>

datatype frame_ptr = NullFrame | TaskFrame nat | StackFrame Frame

text \<open>
  How a command ends: it returns to the monitor, it switches the machine off or resets it, or it
  leaves the kernel with a frame.
\<close>

datatype cmd_result = Back Result machine | Off machine | Leave Frame machine

datatype func = Echo | Help | Uname | CpuInfo | Clear | Reboot | Shutdown | Backtrace | Vmshow | Vmdumpv
  | Vmdumpp | Runtask | Cont | Si | Fuck | Page

record Command =
  cmd :: string
  desc :: string
  func :: func
  hide :: bool

definition MAX_ARGS :: nat where "MAX_ARGS = 16"

definition commands :: "Command list" where
  "commands =
    [\<lparr>cmd = ''echo'', desc = ''Write colorful arguments to the standard output'', func = Echo, hide = False\<rparr>,
     \<lparr>cmd = ''help'', desc = ''Show this help message'', func = Help, hide = False\<rparr>,
     \<lparr>cmd = ''uname'', desc = ''Print operating system name'', func = Uname, hide = False\<rparr>,
     \<lparr>cmd = ''cpu'', desc = ''Print CPU information'', func = CpuInfo, hide = False\<rparr>,
     \<lparr>cmd = ''clear'', desc = ''Clear the console screen'', func = Clear, hide = False\<rparr>,
     \<lparr>cmd = ''reboot'', desc = ''Restart the system'', func = Reboot, hide = False\<rparr>,
     \<lparr>cmd = ''shut'', desc = ''Shutdown the system'', func = Shutdown, hide = False\<rparr>,
     \<lparr>cmd = ''backtr'', desc = ''Print backtrace'', func = Backtrace, hide = False\<rparr>,
     \<lparr>cmd = ''vmshow'', desc = ''Show memory map at virtual address [%1, %2]'', func = Vmshow, hide = False\<rparr>,
     \<lparr>cmd = ''vmdumpv'', desc = ''Dump the contents at virtual address [%1, %2]'', func = Vmdumpv, hide = False\<rparr>,
     \<lparr>cmd = ''vmdumpp'', desc = ''Dump the contents at physical address [%1, %2]'', func = Vmdumpp, hide = False\<rparr>,
     \<lparr>cmd = ''runtask'', desc = ''Run the initial task'', func = Runtask, hide = False\<rparr>,
     \<lparr>cmd = ''cont'', desc = ''Continue the task'', func = Cont, hide = False\<rparr>,
     \<lparr>cmd = ''si'', desc = ''Single-Instruction debug the task'', func = Si, hide = False\<rparr>,
     \<lparr>cmd = ''fuck'', desc = '''', func = Fuck, hide = True\<rparr>,
     \<lparr>cmd = ''page'', desc = ''Check page statistics'', func = Page, hide = False\<rparr>]"

section \<open>Commands\<close>

text \<open>\<open>i\<close> counts the arguments that are left, from the last.\<close>

fun echo_args :: "u32 list \<Rightarrow> u32 \<Rightarrow> machine \<Rightarrow> machine option" where
  "echo_args [] i m = Some m"
| "echo_args (a # args) i m =
     (case str_count (kmem (vm m)) a of None \<Rightarrow> None
      | Some n \<Rightarrow> echo_args args (i + 1) (kprint ''%<%s '' [Num ((i + n) mod 15 + 1), Num a] m))"

definition echo :: "u32 list \<Rightarrow> machine \<Rightarrow> cmd_result outcome option" where
  "echo argv m = map_option (\<lambda>m1. Inr (Back ok (kprint ''newline'' [] m1))) (echo_args (tl argv) 1 m)"

definition uname :: "(string \<Rightarrow> u32) \<Rightarrow> u32 list \<Rightarrow> machine \<Rightarrow> cmd_result outcome option" where
  "uname lit argv m =
     (if 2 \<le> length argv then
        map_option (\<lambda>r. Inr (Back ok (kprint (if r = 0 then ''Litchi v%s by BugenZhao'' else ''Litchi'') [] m)))
          (str_cmp (kmem (vm m)) (argv ! 1) (lit ''-a''))
      else Some (Inr (Back ok (kprint ''Litchi'' [] m))))"

definition range_args :: "u32 list \<Rightarrow> machine \<Rightarrow> (u32 \<times> u32) option" where
  "range_args argv m = Option.bind (toLong (kmem (vm m)) (argv ! 1) 0) (\<lambda>b.
     if 3 \<le> length argv then map_option (\<lambda>e. (b, e)) (toLong (kmem (vm m)) (argv ! 2) 0) else Some (b, b))"

definition vm_command :: "(u32 \<Rightarrow> u32 \<Rightarrow> machine \<Rightarrow> machine outcome option) \<Rightarrow> u32 list \<Rightarrow> machine \<Rightarrow> cmd_result outcome option" where
  "vm_command display argv m =
     (if length argv \<le> 1 then Some (Inr (Back invalidArg m))
      else case range_args argv m of None \<Rightarrow> None
      | Some (b, e) \<Rightarrow> bindO (display b e m) (\<lambda>m1. Some (Inr (Back ok m1))))"

definition vmshow :: "u32 list \<Rightarrow> machine \<Rightarrow> cmd_result outcome option" where
  "vmshow argv m = vm_command (vm_show (kernelPageDir (vm m))) argv m"

definition vmdumpv :: "u32 list \<Rightarrow> machine \<Rightarrow> cmd_result outcome option" where
  "vmdumpv argv m = vm_command (vm_dumpV (kernelPageDir (vm m))) argv m"

definition vmdumpp :: "u32 list \<Rightarrow> machine \<Rightarrow> cmd_result outcome option" where
  "vmdumpp argv m = vm_command vm_dumpP argv m"

text \<open>\<open>binary\<close> and \<open>name\<close>: the embedded program and its path. The result code of \<open>create\<close> is not looked at.\<close>

definition runtask :: "u32 \<Rightarrow> u8 list \<Rightarrow> machine \<Rightarrow> cmd_result outcome option" where
  "runtask binary name m = bindO (create binary name m) (\<lambda>((task, r), m1).
     case task of None \<Rightarrow> Some (Inl (Fault ''Task*''))
     | Some i \<Rightarrow> Some (bindE (run i True m1) (\<lambda>(f, m2). Inr (Leave f m2))))"

definition FL_TF :: u32 where "FL_TF = 0x100"

definition pop_with :: "(u32 \<Rightarrow> u32) \<Rightarrow> frame_ptr \<Rightarrow> machine \<Rightarrow> cmd_result outcome" where
  "pop_with f tf m =
     (case tf of NullFrame \<Rightarrow> Inr (Back noSuchTask m)
      | TaskFrame i \<Rightarrow> bindE (task_at i m) (\<lambda>t.
          let t' = t\<lparr>trapFrame := (trapFrame t)\<lparr>eflags := f (eflags (trapFrame t))\<rparr>\<rparr> in
          Inr (Leave (trapFrame t') (set_task i t' m)))
      | StackFrame fr \<Rightarrow> Inr (Leave (fr\<lparr>eflags := f (eflags fr)\<rparr>) m))"

definition cont :: "frame_ptr \<Rightarrow> machine \<Rightarrow> cmd_result outcome" where
  "cont tf m = pop_with (\<lambda>x. x AND NOT FL_TF) tf m"

definition si :: "frame_ptr \<Rightarrow> machine \<Rightarrow> cmd_result outcome" where
  "si tf m = pop_with (\<lambda>x. x OR FL_TF) tf m"

definition page_stats :: "machine \<Rightarrow> cmd_result outcome option" where
  "page_stats m = bindO (freeCount (vm m)) (\<lambda>n. Some (Inr (Back ok
     (kprint ''%d free pages (%d KB, %d MB)'' [Num (of_nat n), Num (push_bit 2 (of_nat n)),
        Num (drop_bit 10 (push_bit 2 (of_nat n)))] m))))"

definition help_cmd :: "machine \<Rightarrow> machine" where
  "help_cmd m = fold (\<lambda>c m. if \<not> hide c then kprint ''%<%8s%<: %s'' [Str (cmd c), Str (desc c)] m else m) commands m"

text \<open>\<open>kernel/system.cc\<close>: the machine resets or switches off at one of these writes; the loops after them are its end.\<close>

definition sys_reboot :: "machine \<Rightarrow> machine" where
  "sys_reboot m = m\<lparr>vm := (vm m)\<lparr>hwlog := rev [Cli, Outb 0x64 0xfe] @ hwlog (vm m)\<rparr>\<rparr>"

definition sys_shutdown :: "machine \<Rightarrow> machine" where
  "sys_shutdown m = m\<lparr>vm := (vm m)\<lparr>hwlog := rev [Cli, Outw 0xB004 0x2000, Outw 0x604 0x2000, Outw 0x4004 0x3400] @ hwlog (vm m)\<rparr>\<rparr>"

section \<open>Dispatch\<close>

definition run_command ::
  "(string \<Rightarrow> u32) \<Rightarrow> u32 \<Rightarrow> u8 list \<Rightarrow> func \<Rightarrow> u32 list \<Rightarrow> frame_ptr \<Rightarrow> machine \<Rightarrow> cmd_result outcome option" where
  "run_command lit binary name f argv tf m = (case f of
     Echo \<Rightarrow> echo argv m
   | Help \<Rightarrow> Some (Inr (Back ok (help_cmd m)))
   | Uname \<Rightarrow> uname lit argv m
   | CpuInfo \<Rightarrow> Some (Inr (Back ok (kprint ''Vendor: %s Name: %s'' [] m)))
   | Clear \<Rightarrow> Some (Inr (Back ok (m\<lparr>io := (fst (io m), fst (snd (io m)), console_clear (snd (snd (io m))))\<rparr>)))
   | Reboot \<Rightarrow> Some (Inr (Off (sys_reboot m)))
   | Shutdown \<Rightarrow> Some (Inr (Off (sys_shutdown m)))
   | Backtrace \<Rightarrow> Some (Inr (Back ok (kprint ''Backtrace'' [] m)))
   | Vmshow \<Rightarrow> vmshow argv m
   | Vmdumpv \<Rightarrow> vmdumpv argv m
   | Vmdumpp \<Rightarrow> vmdumpp argv m
   | Runtask \<Rightarrow> runtask binary name m
   | Cont \<Rightarrow> Some (cont tf m)
   | Si \<Rightarrow> Some (si tf m)
   | Fuck \<Rightarrow> Some (Inr (Back fuck m))
   | Page \<Rightarrow> page_stats m)"

fun find_command :: "(string \<Rightarrow> u32) \<Rightarrow> mem \<Rightarrow> u32 \<Rightarrow> Command list \<Rightarrow> func option option" where
  "find_command lit k arg0 [] = Some None"
| "find_command lit k arg0 (c # rest) =
     (case str_cmpCase k arg0 (lit (cmd c)) of None \<Rightarrow> None
      | Some r \<Rightarrow> if r = 0 then Some (Some (func c)) else find_command lit k arg0 rest)"

definition parseCmd ::
  "(string \<Rightarrow> u32) \<Rightarrow> u32 \<Rightarrow> u32 \<Rightarrow> u8 list \<Rightarrow> u32 \<Rightarrow> frame_ptr \<Rightarrow> machine \<Rightarrow> cmd_result outcome option" where
  "parseCmd lit ws binary name line tf m =
     (case str_splitWs ws (kmem (vm m)) line (replicate (MAX_ARGS + 2) 0) (of_nat (MAX_ARGS + 2)) of
        None \<Rightarrow> None
      | Some (argc, k, argv) \<Rightarrow>
        let m1 = m\<lparr>vm := (vm m)\<lparr>kmem := k\<rparr>\<rparr> in
        if argc = int MAX_ARGS + 1 then Some (Inr (Back tooManyArgs m1))
        else if argc = -1 then Some (Inr (Back badSyntax m1))
        else if argv ! 0 = 0 then Some (Inl (Fault ''argv[0]''))
        else (case find_command lit k (argv ! 0) commands of None \<Rightarrow> None
          | Some None \<Rightarrow> Some (Inr (Back badCommand m1))
          | Some (Some f) \<Rightarrow> run_command lit binary name f (take (nat argc) argv) tf m1))"

text \<open>One round of \<open>monitor::main\<close>: prompt, read a line into the buffer, execute it.\<close>

definition prompt :: "machine \<Rightarrow> machine outcome" where
  "prompt m = (case current m of None \<Rightarrow> Inr (kprint ''%<Litchi%<> '' [] m)
     | Some c \<Rightarrow> bindE (task_at c m) (\<lambda>t. Inr (kprint ''%<Litchi%<[%08x]%<> '' [Num (taskId t)] m)))"

definition read_line :: "u32 \<Rightarrow> machine \<Rightarrow> (u8 list \<times> machine) outcome option" where
  "read_line buf m =
     bindO (kreadline_loop kget kput (load_bytes (kmem (vm m)) buf READLINE_BUF_SIZE) 0 (io m)) (\<lambda>(line, s).
     Some (Inr (line, m\<lparr>io := s, vm := (vm m)\<lparr>kmem := store_bytes (kmem (vm m)) buf line\<rparr>\<rparr>)))"

definition report :: "u32 \<Rightarrow> Result \<Rightarrow> machine \<Rightarrow> machine" where
  "report line r m = (if r \<noteq> ok then kprint ''%s: %r'' [Num line, Res r] m else m)"

definition monitor_round ::
  "(string \<Rightarrow> u32) \<Rightarrow> u32 \<Rightarrow> u32 \<Rightarrow> u8 list \<Rightarrow> u32 \<Rightarrow> frame_ptr \<Rightarrow> Result \<Rightarrow> machine \<Rightarrow> cmd_result outcome option" where
  "monitor_round lit ws binary name buf tf lastRet m =
     bindO (Some (prompt m)) (\<lambda>m1. bindO (read_line buf m1) (\<lambda>(line, m2).
     bindO (if line ! 0 \<noteq> 0 then parseCmd lit ws binary name buf tf m2 else Some (Inr (Back lastRet m2))) (\<lambda>r.
     Some (Inr (case r of Back ret m3 \<Rightarrow> Back ret (report buf ret m3) | Off m3 \<Rightarrow> Off m3 | Leave f m3 \<Rightarrow> Leave f m3)))))"

end
