(* ===== verification/Trap.thy ===== *)
theory Trap
  imports Monitor
begin

text \<open>
  Segments, gates and trap handling: \<open>kernel/gdt.c\<close>, \<open>kernel/trap.cc\<close> and \<open>kernel/trap.hh\<close>. The
  handler \<open>trap\<close> does not return: it resumes a frame, or it enters the monitor.
\<close>

section \<open>Descriptor tables\<close>

definition STA_X :: u32 where "STA_X = 0x8"
definition STA_W :: u32 where "STA_W = 0x2"
definition STA_R :: u32 where "STA_R = 0x2"
definition STS_T32A :: u32 where "STS_T32A = 0x9"

definition gdt0 :: "SegDesc list" where
  "gdt0 = [SEG_NULL, SEG (STA_X OR STA_R) 0 0xffffffff 0, SEG STA_W 0 0xffffffff 0,
     SEG (STA_X OR STA_R) 0 0xffffffff 3, SEG STA_W 0 0xffffffff 3, SEG_NULL]"

record TaskState =
  ts_link :: u32
  ts_esp0 :: u32
  ts_ss0 :: u16
  ts_padding1 :: u16
  ts_esp1 :: u32
  ts_ss1 :: u16
  ts_padding2 :: u16
  ts_esp2 :: u32
  ts_ss2 :: u16
  ts_padding3 :: u16
  ts_cr3 :: u32
  ts_eip :: u32
  ts_eflags :: u32
  ts_eax :: u32
  ts_ecx :: u32
  ts_edx :: u32
  ts_ebx :: u32
  ts_esp :: u32
  ts_ebp :: u32
  ts_esi :: u32
  ts_edi :: u32
  ts_es :: u16
  ts_padding4 :: u16
  ts_cs :: u16
  ts_padding5 :: u16
  ts_ss :: u16
  ts_padding6 :: u16
  ts_ds :: u16
  ts_padding7 :: u16
  ts_fs :: u16
  ts_padding8 :: u16
  ts_gs :: u16
  ts_padding9 :: u16
  ts_ldt :: u16
  ts_padding10 :: u16
  ts_t :: u16
  ts_iomb :: u16

definition SIZEOF_TaskState :: u32 where "SIZEOF_TaskState = 104"

text \<open>\<open>initPerCpu\<close>; \<open>ts\<close> is the address of \<open>kernelTS\<close>.\<close>

definition initPerCpu :: "u32 \<Rightarrow> TaskState \<Rightarrow> SegDesc list \<Rightarrow> TaskState \<times> SegDesc list" where
  "initPerCpu ts kernelTS gdt =
     (kernelTS\<lparr>ts_ss0 := GD_KD, ts_esp0 := KSTACKTOP, ts_iomb := ucast SIZEOF_TaskState\<rparr>,
      gdt[unat (drop_bit 3 GD_TSS0) := (SEG16 STS_T32A ts (SIZEOF_TaskState - 1) 0)\<lparr>sd_s := 0\<rparr>])"

definition T_debug :: u32 where "T_debug = 1"
definition T_breakpoint :: u32 where "T_breakpoint = 3"
definition T_pageFault :: u32 where "T_pageFault = 14"
definition T_syscall :: u32 where "T_syscall = 88"

definition trap_init :: "(nat \<Rightarrow> u32) \<Rightarrow> GateDesc list" where
  "trap_init ivt =
     foldl (\<lambda>idt no. idt[no := SETGATE True GD_KT (ivt no) 3])
       (map (\<lambda>i. SETGATE False GD_KT (ivt i) 0) [0..<256]) (map unat [T_syscall, T_breakpoint, T_debug])"

definition describe :: "u32 \<Rightarrow> string" where
  "describe t =
     (case map_of
        [(0, ''Divide Error''), (1, ''Debug''), (2, ''Non-Maskable Interrupt''), (3, ''Breakpoint''),
         (4, ''Overflow''), (5, ''BOUND Range Exceed''), (6, ''Invalid Opcode''), (7, ''Device Not Available''),
         (8, ''Double Fault''), (9, ''Coprocessor Segment''), (10, ''Invalid TSS''), (11, ''Segment Not Present''),
         (12, ''Stack Fault''), (13, ''General Protection''), (14, ''Page Fault''),
         (16, ''x87 FPU Floating-Point Error''), (17, ''Alignment Check''), (18, ''Machine Check''),
         (19, ''SIMD Floating-Point''), (88, ''Litchi Syscall''), (32, ''HW Timer''), (33, ''HW Keyboard''),
         (39, ''HW Spurious''), (51, ''HW Error'')] t of
        Some s \<Rightarrow> s | None \<Rightarrow> ''Unknown Trap'')"

section \<open>Handlers\<close>

text \<open>A handler returns to \<open>trap\<close>, or it ends in the monitor, which gets a frame pointer.\<close>

datatype dispatched = Returned machine | InMonitor frame_ptr machine

definition current_task :: "machine \<Rightarrow> (nat \<times> Task) outcome" where
  "current_task m = (case current m of None \<Rightarrow> Inl (Fault ''Task*'')
     | Some c \<Rightarrow> bindE (task_at c m) (\<lambda>t. Inr (c, t)))"

definition pageFault :: "u32 \<Rightarrow> Frame \<Rightarrow> machine \<Rightarrow> dispatched outcome" where
  "pageFault faultVa tf m =
     (if cs tf AND 3 = 0 then Inl (Panic ''Unhandled page fault from kernel'')
      else bindE (current_task m) (\<lambda>(c, t).
        let m1 = kprint ''[%08x] Unhandled page fault (at %p) [%s, %s, %s]''
              [Num (taskId t), Num faultVa, Str (if err tf AND 4 \<noteq> 0 then ''user'' else ''kernel''),
               Str (if err tf AND 2 \<noteq> 0 then ''write'' else ''read''),
               Str (if err tf AND 1 \<noteq> 0 then ''protection'' else ''not-present'')] m in
        bindE (destroy c True m1) (\<lambda>m2. Inr (InMonitor NullFrame m2))))"

definition syscall :: "Frame \<Rightarrow> machine \<Rightarrow> sys_result outcome option" where
  "syscall tf m = ksyscall_main (eax (regs tf)) (edx (regs tf)) (ecx (regs tf)) m"

definition debug :: "frame_ptr \<Rightarrow> Frame \<Rightarrow> machine \<Rightarrow> dispatched" where
  "debug p tf m = InMonitor p (kprint ''eip = %p'' [Num (eip tf)] m)"

text \<open>\<open>this->regs.eax = ...\<close> for the frame that \<open>p\<close> points to; a frame on the stack is not used again.\<close>

definition set_eax :: "frame_ptr \<Rightarrow> u32 \<Rightarrow> machine \<Rightarrow> machine outcome" where
  "set_eax p v m = (case p of TaskFrame c \<Rightarrow> bindE (task_at c m) (\<lambda>t.
       Inr (set_task c (t\<lparr>trapFrame := (trapFrame t)\<lparr>regs := (regs (trapFrame t))\<lparr>eax := v\<rparr>\<rparr>\<rparr>) m))
     | _ \<Rightarrow> Inr m)"

definition dispatch :: "u32 \<Rightarrow> frame_ptr \<Rightarrow> Frame \<Rightarrow> machine \<Rightarrow> dispatched outcome option" where
  "dispatch faultVa p tf m =
     (if trapType tf = T_pageFault then Some (pageFault faultVa tf m)
      else if trapType tf = T_syscall then
        bindO (syscall tf m) (\<lambda>r. case r of
          Return v m1 \<Rightarrow> Some (bindE (set_eax p v m1) (\<lambda>m2. Inr (Returned m2)))
        | ToMonitor m1 \<Rightarrow> Some (Inr (InMonitor NullFrame m1)))
      else if trapType tf = T_debug \<or> trapType tf = T_breakpoint then Some (Inr (debug p tf m))
      else if cs tf AND 3 = 0 then Some (Inl (Panic ''Unhandled trap from kernel''))
      else Some (bindE (current_task m) (\<lambda>(c, t).
        Inr (InMonitor (TaskFrame c) (kprint ''[%08x] Unhandled trap [%s]''
          [Num (taskId t), Str (describe (trapType tf))] m)))))"

datatype trap_end = Resume Frame machine | Monitor frame_ptr machine

text \<open>\<open>intr\<close>: whether interrupts are enabled; \<open>faultVa\<close>: the contents of \<open>cr2\<close>.\<close>

definition enter :: "Frame \<Rightarrow> machine \<Rightarrow> (frame_ptr \<times> machine) outcome" where
  "enter tf m =
     (if cs tf AND 3 = 3 then
        bindE (current_task m) (\<lambda>(c, t).
        let m1 = set_task c (t\<lparr>trapFrame := tf\<rparr>) m in
        Inr (TaskFrame c, if trapType tf \<noteq> T_syscall
          then kprint ''[%08x] Back to kernel: Trap [%s]'' [Num (taskId t), Str (describe (trapType tf))] m1 else m1))
      else Inr (StackFrame tf, kprint ''Kernel Trap [%s]'' [Str (describe (trapType tf))] m))"

definition trap :: "bool \<Rightarrow> u32 \<Rightarrow> Frame \<Rightarrow> machine \<Rightarrow> trap_end outcome option" where
  "trap intr faultVa tf m =
     bindO (Some (assertE ''!(eflags & FL_IF)'' (\<not> intr))) (\<lambda>_.
     bindO (Some (enter tf m)) (\<lambda>(p, m1).
     bindO (dispatch faultVa p tf m1) (\<lambda>r. case r of
       InMonitor q m2 \<Rightarrow> Some (Inr (Monitor q m2))
     | Returned m2 \<Rightarrow> Some (case current m2 of
         None \<Rightarrow> Inl (Panic ''Task::current'')
       | Some c \<Rightarrow> bindE (run c (trapType tf \<noteq> T_syscall) m2) (\<lambda>(f, m3). Inr (Resume f m3))))))"

end
