(* ===== verification/TaskTable.thy ===== *)
theory TaskTable
  imports Trap
begin

text \<open>
  The invariant of the task table, \<open>Task::array\<close>, \<open>Task::freeTasks\<close> and \<open>Task::current\<close>, and its
  preservation by the operations of \<open>kernel/task.cc\<close>; the operations of the monitor and of the system
  calls that do not touch the table.
\<close>

section \<open>Operations that leave the tasks alone\<close>

definition same_tasks :: "machine \<Rightarrow> machine \<Rightarrow> bool" where
  "same_tasks m m' \<longleftrightarrow> tasks m' = tasks m \<and> freeTasks m' = freeTasks m \<and> current m' = current m \<and> cr3 m' = cr3 m"

lemma same_tasks_refl [simp]: "same_tasks m m"
  by (simp add: same_tasks_def)

lemma same_tasks_trans: "same_tasks a b \<Longrightarrow> same_tasks b c \<Longrightarrow> same_tasks a c"
  by (simp add: same_tasks_def)

lemma same_tasks_upd [simp]:
  "same_tasks m (kprint f args m') = same_tasks m m'" "same_tasks m (m'\<lparr>io := x\<rparr>) = same_tasks m m'"
  "same_tasks m (m'\<lparr>vm := s\<rparr>) = same_tasks m m'" "same_tasks m (out_putChar ch m') = same_tasks m m'"
  by (simp_all add: same_tasks_def kprint_def out_putChar_def)

lemma kprint_fields [simp]:
  "tasks (kprint f args m) = tasks m" "freeTasks (kprint f args m) = freeTasks m" "current (kprint f args m) = current m"
  "cr3 (kprint f args m) = cr3 m" "vm (kprint f args m) = vm m" "io (kprint f args m) = io m" "rnd (kprint f args m) = rnd m"
  by (simp_all add: kprint_def)

lemma putString_same: "putString_loop str n m = Inr m' \<Longrightarrow> same_tasks m m'"
proof (induction n arbitrary: str m)
  case (Suc n)
  then obtain ch where "putString_loop (str + 2) n (out_putChar (ucast (ch :: u16)) m) = Inr m'" by auto
  then have "same_tasks (out_putChar (ucast ch) m) m'" by (rule Suc.IH)
  then show ?case by (rule same_tasks_trans [rotated]) simp
qed simp

lemma show_line_same: "show_line dir va m = Inr m' \<Longrightarrow> same_tasks m m'"
  by (auto simp: show_line_def Let_def split: option.splits if_splits)

lemma show_loop_same: "show_loop dir hi va m = Some r \<Longrightarrow> r = Inr m' \<Longrightarrow> same_tasks m m'"
proof (induction dir hi va m r arbitrary: m' rule: show_loop.raw_induct [rotated, consumes 1])
  case (1 loop dir hi va m r)
  show ?case
  proof (cases "va \<le> hi")
    case True
    then obtain m1 where m1: "show_line dir va m = Inr m1" "loop dir hi (va + PGSIZE) m1 = Some r"
      using 1(2,3) by (auto split: sum.splits)
    show ?thesis using same_tasks_trans [OF show_line_same [OF m1(1)] 1(1) [OF m1(2) 1(3)]] .
  qed (use 1 in auto)
qed

lemma dumpV_bytes_same: "dumpV_bytes hi va m = Some r \<Longrightarrow> r = Inr m' \<Longrightarrow> same_tasks m m'"
proof (induction hi va m r arbitrary: m' rule: dumpV_bytes.raw_induct [rotated, consumes 1])
  case (1 loop hi va m r)
  show ?case
  proof (cases "va \<le> hi")
    case True
    then obtain b where "loop hi (va + 1) (kprint '' %02X'' [Num (ucast (b :: u8))] m) = Some r"
      using 1(2,3) by (auto split: sum.splits)
    from 1(1) [OF this 1(3)] show ?thesis by (rule same_tasks_trans [rotated]) simp
  qed (use 1 in auto)
qed

lemma dumpV_loop_same: "dumpV_loop dir hi row m = Some r \<Longrightarrow> r = Inr m' \<Longrightarrow> same_tasks m m'"
proof (induction dir hi row m r arbitrary: m' rule: dumpV_loop.raw_induct [rotated, consumes 1])
  case (1 loop dir hi row m r)
  show ?case
  proof (cases "row \<le> hi")
    case True
    then obtain pte s where f: "findPte dir row False (vm m) = Inr (pte, s)" using 1(2,3) by (auto split: sum.splits)
    show ?thesis
    proof (cases "pte = None \<or> \<not> present (load32 (kmem (vm m)) (the pte))")
      case False
      then obtain r2 where "dumpV_bytes (row + 15) row (kprint ''%p'' [Num row] m) = Some r2"
          "(case r2 of Inl e \<Rightarrow> Some (Inl e) | Inr m1 \<Rightarrow> loop dir hi (row + 16) (kprint ''newline'' [] m1)) = Some r"
        using 1(2) f True by (auto split: option.splits)
      moreover then obtain m1 where "r2 = Inr m1" using 1(3) by (cases r2) auto
      ultimately have "same_tasks (kprint ''%p'' [Num row] m) m1" "same_tasks (kprint ''newline'' [] m1) m'"
        using dumpV_bytes_same 1(1) [OF _ 1(3)] by auto
      then show ?thesis by (simp add: same_tasks_def)
    qed (use 1(2,3) f True in \<open>auto split: option.splits\<close>)
  qed (use 1 in auto)
qed

lemma dumpP_bytes_same: "dumpP_bytes n lim pa m = Inr r \<Longrightarrow> same_tasks m (snd r)"
proof (induction n arbitrary: pa m)
  case (Suc n)
  show ?case
  proof (cases "lim \<le> pa")
    case False
    then obtain b where "dumpP_bytes n lim (pa + 1) (kprint '' %02X'' [Num (ucast (b :: u8))] m) = Inr r"
      using Suc.prems by auto
    from Suc.IH [OF this] show ?thesis by (rule same_tasks_trans [rotated]) simp
  qed (use Suc in auto)
qed auto

lemma dumpP_loop_same: "dumpP_loop lim hi row m = Some r \<Longrightarrow> r = Inr m' \<Longrightarrow> same_tasks m m'"
proof (induction lim hi row m r arbitrary: m' rule: dumpP_loop.raw_induct [rotated, consumes 1])
  case (1 loop lim hi row m r)
  show ?case
  proof (cases "row \<le> hi")
    case True
    then obtain q where q: "dumpP_bytes 16 lim row (kprint ''%p'' [Num row] m) = Inr q"
        "(if fst q then loop lim hi (row + 16) (kprint ''newline'' [] (snd q)) else Some (Inr (snd q))) = Some r"
      using 1(2,3) by (auto split: sum.splits)
    have "same_tasks m (snd q)" using dumpP_bytes_same [OF q(1)] by (rule same_tasks_trans [rotated]) simp
    moreover have "same_tasks (snd q) m'"
    proof (cases "fst q")
      case True
      then have "loop lim hi (row + 16) (kprint ''newline'' [] (snd q)) = Some r" using q(2) by simp
      from 1(1) [OF this 1(3)] show ?thesis by (rule same_tasks_trans [rotated]) simp
    qed (use q(2) 1(3) in auto)
    ultimately show ?thesis by (rule same_tasks_trans)
  qed (use 1 in auto)
qed

lemma echo_same: "echo_args args i m = Some m' \<Longrightarrow> same_tasks m m'"
proof (induction args i m rule: echo_args.induct)
  case (2 a args i m)
  then obtain n where "str_count (kmem (vm m)) a = Some n" by (auto split: option.splits)
  with 2 show ?case by (auto intro: same_tasks_trans [rotated])
qed simp

section \<open>The task table\<close>

primrec task_path :: "Task list \<Rightarrow> nat option \<Rightarrow> nat list \<Rightarrow> bool" where
  "task_path ts p [] \<longleftrightarrow> p = None"
| "task_path ts p (i # is) \<longleftrightarrow> p = Some i \<and> i < length ts \<and> task_path ts (nextTask (ts ! i)) is"

lemma task_path_update [simp]: "i \<notin> set is \<Longrightarrow> task_path (ts[i := x]) p is \<longleftrightarrow> task_path ts p is"
  by (induction "is" arbitrary: p) auto

lemma task_path_lt: "task_path ts p is \<Longrightarrow> i \<in> set is \<Longrightarrow> i < length ts"
  by (induction "is" arbitrary: p) auto

text \<open>A frame that continues user code with interrupts disabled; what a task needs to be the current one.\<close>

definition FL_IF :: u32 where "FL_IF = 0x200"

definition user_frame :: "Frame \<Rightarrow> bool" where
  "user_frame f \<longleftrightarrow> cs f AND 3 = 3 \<and> eflags f AND FL_IF = 0"

definition can_be_current :: "nat \<Rightarrow> Task \<Rightarrow> bool" where
  "can_be_current i t \<longleftrightarrow> user_frame (trapFrame t) \<and> taskId t AND 0xFF = of_nat i"

text \<open>
  The invariant of the task table with the list \<open>fl\<close> of free slots: slots on the list are free, the
  current task is not on it and is the one that is running.
\<close>

definition task_inv :: "machine \<Rightarrow> nat list \<Rightarrow> bool" where
  "task_inv m fl \<longleftrightarrow> length (tasks m) = 256 \<and> task_path (tasks m) (freeTasks m) fl \<and> distinct fl
     \<and> (\<forall>i\<in>set fl. status (tasks m ! i) = free)
     \<and> (\<forall>c. current m = Some c \<longrightarrow> c < 256 \<and> c \<notin> set fl \<and> status (tasks m ! c) = running \<and> can_be_current c (tasks m ! c))
     \<and> (\<forall>i<256. status (tasks m ! i) = running \<longrightarrow> current m = Some i)"

definition cr3_ok :: "machine \<Rightarrow> bool" where
  "cr3_ok m \<longleftrightarrow> (\<forall>c. current m = Some c \<longrightarrow> cr3 m + KERNBASE = pageDir (tasks m ! c))"

lemma same_tasks_inv: "same_tasks m m' \<Longrightarrow> task_inv m' fl = task_inv m fl \<and> cr3_ok m' = cr3_ok m"
  by (simp add: same_tasks_def task_inv_def cr3_ok_def)

lemma task_inv_cong:
  "tasks m' = tasks m \<Longrightarrow> freeTasks m' = freeTasks m \<Longrightarrow> current m' = current m \<Longrightarrow> task_inv m' fl = task_inv m fl"
  by (simp add: task_inv_def)

lemma task_inv_length: "task_inv m fl \<Longrightarrow> length (tasks m) = 256"
  and task_inv_path: "task_inv m fl \<Longrightarrow> task_path (tasks m) (freeTasks m) fl"
  and task_inv_distinct: "task_inv m fl \<Longrightarrow> distinct fl"
  and task_inv_free: "task_inv m fl \<Longrightarrow> i \<in> set fl \<Longrightarrow> status (tasks m ! i) = free"
  and task_inv_current: "task_inv m fl \<Longrightarrow> current m = Some c \<Longrightarrow>
        c < 256 \<and> c \<notin> set fl \<and> status (tasks m ! c) = running \<and> can_be_current c (tasks m ! c)"
  and task_inv_running: "task_inv m fl \<Longrightarrow> i < 256 \<Longrightarrow> status (tasks m ! i) = running \<Longrightarrow> current m = Some i"
  unfolding task_inv_def by blast+

lemma task_invI:
  assumes "length (tasks m) = 256" "task_path (tasks m) (freeTasks m) fl" "distinct fl"
    "\<And>i. i \<in> set fl \<Longrightarrow> status (tasks m ! i) = free"
    "\<And>c. current m = Some c \<Longrightarrow> c < 256 \<and> c \<notin> set fl \<and> status (tasks m ! c) = running \<and> can_be_current c (tasks m ! c)"
    "\<And>i. i < 256 \<Longrightarrow> status (tasks m ! i) = running \<Longrightarrow> current m = Some i"
  shows "task_inv m fl"
  unfolding task_inv_def using assms by blast

lemma set_task_fields [simp]:
  "freeTasks (set_task i t m) = freeTasks m" "current (set_task i t m) = current m" "cr3 (set_task i t m) = cr3 m"
  "tasks (set_task i t m) = (tasks m)[i := t]" "vm (set_task i t m) = vm m" "io (set_task i t m) = io m"
  by (simp_all add: set_task_def)

lemma task_at_Inr [simp]: "task_at i m = Inr t \<longleftrightarrow> i < length (tasks m) \<and> t = tasks m ! i"
  by (auto simp: task_at_def)

lemma task_inv_update:
  assumes inv: "task_inv m fl" and i: "i \<notin> set fl"
    and c: "current m = Some i \<Longrightarrow> status t = running \<and> can_be_current i t"
    and n: "current m \<noteq> Some i \<Longrightarrow> status t \<noteq> running"
  shows "task_inv (set_task i t m) fl"
proof (rule task_invI)
  show "status (tasks (set_task i t m) ! j) = free" if "j \<in> set fl" for j
    using task_inv_free [OF inv that] i that by (cases "j = i") simp_all
  show "j < 256 \<and> j \<notin> set fl \<and> status (tasks (set_task i t m) ! j) = running \<and> can_be_current j (tasks (set_task i t m) ! j)"
    if "current (set_task i t m) = Some j" for j
  proof -
    have cur: "current m = Some j" using that by simp
    show ?thesis using task_inv_current [OF inv cur] task_inv_length [OF inv] c cur by (cases "j = i") simp_all
  qed
  show "current (set_task i t m) = Some j" if "j < 256" "status (tasks (set_task i t m) ! j) = running" for j
  proof (cases "j = i")
    case True
    then show ?thesis using that n task_inv_length [OF inv] by (cases "current m = Some i") simp_all
  next
    case False
    then show ?thesis using task_inv_running [OF inv that(1)] that(2) by simp
  qed
qed (use task_inv_length [OF inv] task_inv_path [OF inv] task_inv_distinct [OF inv] i in simp_all)

text \<open>Taking the first free slot, and giving a slot back.\<close>

lemma task_inv_take:
  assumes "task_inv m (i # fl)"
  shows "task_inv (m\<lparr>freeTasks := nextTask (tasks m ! i)\<rparr>) fl" "i \<notin> set fl" "i < 256" "current m \<noteq> Some i"
proof -
  note inv = assms
  show i: "i \<notin> set fl" "i < 256" using task_inv_distinct [OF inv] task_inv_path [OF inv] task_inv_length [OF inv] by simp_all
  show "current m \<noteq> Some i" using task_inv_current [OF inv, of i] by auto
  show "task_inv (m\<lparr>freeTasks := nextTask (tasks m ! i)\<rparr>) fl"
  proof (rule task_invI)
    show "status (tasks (m\<lparr>freeTasks := nextTask (tasks m ! i)\<rparr>) ! j) = free" if "j \<in> set fl" for j
      using task_inv_free [OF inv, of j] that by simp
    show "c < 256 \<and> c \<notin> set fl \<and> status (tasks (m\<lparr>freeTasks := nextTask (tasks m ! i)\<rparr>) ! c) = running
        \<and> can_be_current c (tasks (m\<lparr>freeTasks := nextTask (tasks m ! i)\<rparr>) ! c)"
      if "current (m\<lparr>freeTasks := nextTask (tasks m ! i)\<rparr>) = Some c" for c
      using task_inv_current [OF inv, of c] that by simp
    show "current (m\<lparr>freeTasks := nextTask (tasks m ! i)\<rparr>) = Some j"
      if "j < 256" "status (tasks (m\<lparr>freeTasks := nextTask (tasks m ! i)\<rparr>) ! j) = running" for j
      using task_inv_running [OF inv, of j] that by simp
  qed (use task_inv_length [OF inv] task_inv_path [OF inv] task_inv_distinct [OF inv] in simp_all)
qed

lemma task_inv_give:
  assumes inv: "task_inv m fl" and i: "i \<notin> set fl" "i < 256" "current m \<noteq> Some i"
    and t: "nextTask t = freeTasks m" "status t = free"
  shows "task_inv ((set_task i t m)\<lparr>freeTasks := Some i\<rparr>) (i # fl)"
proof -
  let ?m = "set_task i t m"
  have inv1: "task_inv ?m fl" by (rule task_inv_update [OF inv i(1)]) (use i t in simp_all)
  show ?thesis
  proof (rule task_invI)
    show "status (tasks (?m\<lparr>freeTasks := Some i\<rparr>) ! j) = free" if "j \<in> set (i # fl)" for j
      using task_inv_free [OF inv1, of j] that t i task_inv_length [OF inv] by (cases "j = i") simp_all
    show "c < 256 \<and> c \<notin> set (i # fl) \<and> status (tasks (?m\<lparr>freeTasks := Some i\<rparr>) ! c) = running
        \<and> can_be_current c (tasks (?m\<lparr>freeTasks := Some i\<rparr>) ! c)"
      if "current (?m\<lparr>freeTasks := Some i\<rparr>) = Some c" for c
    proof -
      have cur: "current ?m = Some c" "c \<noteq> i" using that i(3) by auto
      then show ?thesis using task_inv_current [OF inv1 cur(1)] by simp
    qed
    show "current (?m\<lparr>freeTasks := Some i\<rparr>) = Some j"
      if "j < 256" "status (tasks (?m\<lparr>freeTasks := Some i\<rparr>) ! j) = running" for j
      using task_inv_running [OF inv1, of j] that by simp
  qed (use task_inv_length [OF inv] task_inv_path [OF inv] task_inv_distinct [OF inv] i t in simp_all)
qed

section \<open>Task operations\<close>

lemma load_cr3_Inr [simp]:
  "load_cr3 dir m = Inr m' \<longleftrightarrow> \<not> dir < KERNBASE \<and> m' = m\<lparr>vm := lcr3 (dir - KERNBASE) (vm m), cr3 := dir - KERNBASE\<rparr>"
  by (auto simp: load_cr3_def PHY_ADDR_def)

lemma task_inv_vm [simp]: "task_inv (m\<lparr>vm := s\<rparr>) fl = task_inv m fl" "task_inv (m\<lparr>cr3 := a\<rparr>) fl = task_inv m fl"
  "task_inv (m\<lparr>rnd := r\<rparr>) fl = task_inv m fl" "task_inv (kprint f args m) fl = task_inv m fl"
  "task_inv (m\<lparr>io := x\<rparr>) fl = task_inv m fl"
  by (simp_all add: task_inv_def kprint_def)

lemma task_inv_drop_current:
  assumes inv: "task_inv m fl" and c: "current m = Some c" and t: "status t \<noteq> running"
  shows "task_inv ((set_task c t m)\<lparr>current := None\<rparr>) fl"
proof (rule task_invI)
  note cur = task_inv_current [OF inv c]
  show "status (tasks ((set_task c t m)\<lparr>current := None\<rparr>) ! j) = free" if "j \<in> set fl" for j
    using task_inv_free [OF inv that] cur that by (cases "j = c") auto
  show "current ((set_task c t m)\<lparr>current := None\<rparr>) = Some j"
    if "j < 256" "status (tasks ((set_task c t m)\<lparr>current := None\<rparr>) ! j) = running" for j
    using task_inv_running [OF inv that(1)] that(2) c t cur task_inv_length [OF inv] by (cases "j = c") simp_all
qed (use task_inv_length [OF inv] task_inv_path [OF inv] task_inv_distinct [OF inv] task_inv_current [OF inv c] in simp_all)

lemma destroy_inv:
  assumes inv: "task_inv m fl" and c: "current m = Some c" and d: "destroy c b m = Inr m'"
  shows "task_inv m' (c # fl) \<and> current m' = None"
proof -
  note cur = task_inv_current [OF inv c]
  let ?t = "(tasks m ! c)\<lparr>status := free, nextTask := freeTasks m\<rparr>"
  let ?m = "(set_task c ?t m)\<lparr>current := None\<rparr>"
  have f: "tasks m' = (tasks m)[c := ?t]" "freeTasks m' = Some c" "current m' = None"
    using d cur c by (auto simp: destroy_def task_free_def Let_def)
  have 1: "task_inv ?m fl" by (rule task_inv_drop_current [OF inv c]) simp
  have "task_inv ((set_task c ?t ?m)\<lparr>freeTasks := Some c\<rparr>) (c # fl)"
    by (rule task_inv_give [OF 1]) (use cur in simp_all)
  then have "task_inv m' (c # fl)" by (rule task_inv_cong [THEN iffD2, rotated -1]) (simp_all add: f)
  then show ?thesis using f(3) by simp
qed

lemma task_inv_make_current:
  assumes inv: "task_inv m fl" and n: "current m = None" and i: "i \<notin> set fl" "i < 256"
    and t: "status t = running" "can_be_current i t"
  shows "task_inv ((set_task i t m)\<lparr>current := Some i\<rparr>) fl"
proof (rule task_invI)
  have len: "length (tasks m) = 256" by (rule task_inv_length [OF inv])
  show "status (tasks ((set_task i t m)\<lparr>current := Some i\<rparr>) ! j) = free" if "j \<in> set fl" for j
    using task_inv_free [OF inv that] i that by (cases "j = i") auto
  show "c < 256 \<and> c \<notin> set fl \<and> status (tasks ((set_task i t m)\<lparr>current := Some i\<rparr>) ! c) = running
      \<and> can_be_current c (tasks ((set_task i t m)\<lparr>current := Some i\<rparr>) ! c)"
    if "current ((set_task i t m)\<lparr>current := Some i\<rparr>) = Some c" for c
    using that i t len by auto
  show "current ((set_task i t m)\<lparr>current := Some i\<rparr>) = Some j"
    if "j < 256" "status (tasks ((set_task i t m)\<lparr>current := Some i\<rparr>) ! j) = running" for j
    using task_inv_running [OF inv that(1)] that(2) n len by (cases "j = i") simp_all
qed (use task_inv_length [OF inv] task_inv_path [OF inv] task_inv_distinct [OF inv] i in simp_all)

lemma run_inv:
  assumes inv: "task_inv m fl" and i: "i \<notin> set fl" "i < 256" "current m \<noteq> Some i" "can_be_current i (tasks m ! i)"
    and r: "run i v m = Inr (f, m')"
  shows "task_inv m' fl \<and> cr3_ok m' \<and> current m' = Some i \<and> f = trapFrame (tasks m' ! i)"
proof -
  note len = task_inv_length [OF inv]
  obtain m2 where m2: "bindE (pause_current m) (\<lambda>m1. bindE (task_at i m1) (\<lambda>t.
        load_cr3 (pageDir t) ((set_task i (t\<lparr>status := running\<rparr>) m1)\<lparr>current := Some i\<rparr>))) = Inr m2"
    and f: "i < length (tasks m2)" "f = trapFrame (tasks m2 ! i)" and eq: "same_tasks m2 m'"
    using r i(3) unfolding run_def by (cases v) auto
  obtain m1 where p: "pause_current m = Inr m1" and l1: "i < length (tasks m1)" and d: "\<not> pageDir (tasks m1 ! i) < KERNBASE"
    and e: "tasks m2 = (tasks m1)[i := (tasks m1 ! i)\<lparr>status := running\<rparr>]" "freeTasks m2 = freeTasks m1"
      "current m2 = Some i" "cr3 m2 = pageDir (tasks m1 ! i) - KERNBASE"
    using m2 by auto
  have q: "tasks m' = (tasks m1)[i := (tasks m1 ! i)\<lparr>status := running\<rparr>]" "freeTasks m' = freeTasks m1"
      "current m' = Some i" "cr3 m' = pageDir (tasks m1 ! i) - KERNBASE" "f = trapFrame (tasks m1 ! i)"
    using e f l1 eq by (simp_all add: same_tasks_def)
  have m1: "task_inv (m1\<lparr>current := None\<rparr>) fl \<and> tasks m1 ! i = tasks m ! i"
  proof (cases "current m")
    case None
    then have "m1 = m" using p by (simp add: pause_current_def)
    then show ?thesis using inv None task_inv_cong [of "m\<lparr>current := None\<rparr>" m fl] by simp
  next
    case (Some c)
    note cur = task_inv_current [OF inv Some]
    have "m1 = set_task c ((tasks m ! c)\<lparr>status := ready\<rparr>) m"
      using p Some cur len by (simp add: pause_current_def)
    then show ?thesis using task_inv_drop_current [OF inv Some, of "(tasks m ! c)\<lparr>status := ready\<rparr>"] i(3) Some by auto
  qed
  let ?t = "(tasks m ! i)\<lparr>status := running\<rparr>"
  have "task_inv ((set_task i ?t (m1\<lparr>current := None\<rparr>))\<lparr>current := Some i\<rparr>) fl"
    by (rule task_inv_make_current) (use m1 i in \<open>simp_all add: can_be_current_def\<close>)
  then have "task_inv m' fl" by (rule task_inv_cong [THEN iffD2, rotated -1]) (use q m1 in simp_all)
  then show ?thesis using q l1 by (simp add: cr3_ok_def)
qed

lemma run_current: "current m = Some c \<Longrightarrow> run c v m = Inr (f, m') \<Longrightarrow> same_tasks m m' \<and> f = trapFrame (tasks m ! c)"
  by (auto simp: run_def split: if_splits)

lemma id_index: "i < 256 \<Longrightarrow> ((x AND NOT (of_nat maxCount - 1)) OR of_nat i) AND 0xFF = (of_nat i :: u32)"
proof -
  assume i: "i < 256"
  have m: "(of_nat maxCount - 1 :: u32) = mask 8" "(0xFF :: u32) = mask 8" by (simp_all add: maxCount_def mask_eq_exp_minus_1)
  have "of_nat i AND mask 8 = (of_nat i :: u32)" by (rule unat_inj32) (use i in \<open>simp add: unat_and_mask\<close>)
  then show ?thesis unfolding m by (simp add: bit.conj_disj_distrib2 and.assoc)
qed

lemma setupMemory_fields:
  assumes "setupMemory i m = Inr (r, m')" "r = ok"
  shows "i < length (tasks m) \<and> (\<exists>d. tasks m' = (tasks m)[i := (tasks m ! i)\<lparr>pageDir := d\<rparr>])
     \<and> freeTasks m' = freeTasks m \<and> current m' = current m \<and> cr3 m' = cr3 m"
proof -
  obtain d s where i: "i < length (tasks m)" and m': "m' = set_task i ((tasks m ! i)\<lparr>pageDir := d\<rparr>) (m\<lparr>vm := s\<rparr>)"
    using assms by (auto simp: setupMemory_def split: option.splits)
  have "tasks m' = (tasks m)[i := (tasks m ! i)\<lparr>pageDir := d\<rparr>]" by (simp add: m')
  then show ?thesis using i by (auto simp: m')
qed

lemma task_alloc_fields:
  assumes "task_alloc p m = Inr ((Some i, r), m')"
  shows "\<exists>t. freeTasks m = Some i \<and> i < length (tasks m) \<and> tasks m' = (tasks m)[i := t] \<and> status t = ready
     \<and> trapFrame t = new_frame \<and> (i < 256 \<longrightarrow> taskId t AND 0xFF = of_nat i) \<and> r = ok
     \<and> freeTasks m' = nextTask (tasks m ! i) \<and> current m' = current m"
proof -
  obtain i' where fr: "freeTasks m = Some i'" using assms by (auto simp: task_alloc_def split: option.splits)
  obtain r1 m1 where s: "setupMemory i' (m\<lparr>freeTasks := nextTask (tasks m ! i')\<rparr>) = Inr (r1, m1)" "r1 = ok" "i' = i"
    using assms fr by (auto simp: task_alloc_def Let_def split: if_splits prod.splits)
  note f = setupMemory_fields [OF s(1,2)]
  then show ?thesis
    using assms fr s id_index by (auto simp: task_alloc_def Let_def split: prod.splits)
qed

lemma loadElf_fields:
  "loadElf i b m = Some (Inr m') \<Longrightarrow> i < length (tasks m) \<and> freeTasks m' = freeTasks m \<and> current m' = current m
     \<and> (\<exists>e. tasks m' = (tasks m)[i := (tasks m ! i)\<lparr>trapFrame := (trapFrame (tasks m ! i))\<lparr>eip := e\<rparr>\<rparr>])"
  by (auto simp: loadElf_def task_at_def split: option.splits sum.splits if_splits)

lemma set_name_fields [simp]:
  "trapFrame (set_name nm t) = trapFrame t" "taskId (set_name nm t) = taskId t" "pageDir (set_name nm t) = pageDir t"
  "status t \<noteq> running \<Longrightarrow> status (set_name nm t) \<noteq> running"
  by (simp_all add: set_name_def)

lemma create_fields:
  assumes "create b nm m = Some (Inr ((Some i, r), m'))" "length (tasks m) = 256"
  shows "\<exists>t. freeTasks m = Some i \<and> i < 256 \<and> tasks m' = (tasks m)[i := t] \<and> status t \<noteq> running \<and> can_be_current i t
     \<and> freeTasks m' = nextTask (tasks m ! i) \<and> current m' = current m"
proof -
  obtain r1 m1 where a1: "task_alloc 0 m = Inr ((Some i, r1), m1)"
    and a2: "\<exists>r2 m2. setupMemory i m1 = Inr (r2, m2) \<and> r2 = ok \<and> (\<exists>m3. loadElf i b m2 = Some (Inr m3)
      \<and> m' = kprint ''[%08x] Created task'' [Num (taskId (tasks m3 ! i))] (set_task i (set_name nm (tasks m3 ! i)) m3))"
    using assms(1) by (auto simp: create_def split: sum.splits option.splits if_splits prod.splits)
  obtain m2 m3 where a: "setupMemory i m1 = Inr (ok, m2)" "loadElf i b m2 = Some (Inr m3)"
      "m' = kprint ''[%08x] Created task'' [Num (taskId (tasks m3 ! i))] (set_task i (set_name nm (tasks m3 ! i)) m3)"
    using a2 by blast
  obtain t1 where 1: "freeTasks m = Some i" "i < 256" "tasks m1 = (tasks m)[i := t1]" "status t1 = ready" "trapFrame t1 = new_frame"
      "taskId t1 AND 0xFF = of_nat i" "freeTasks m1 = nextTask (tasks m ! i)" "current m1 = current m"
    using task_alloc_fields [OF a1] assms(2) by auto
  obtain d where 2: "tasks m2 = (tasks m1)[i := (tasks m1 ! i)\<lparr>pageDir := d\<rparr>]" "freeTasks m2 = freeTasks m1" "current m2 = current m1"
    using setupMemory_fields [OF a(1) refl] by blast
  obtain e where 3: "tasks m3 = (tasks m2)[i := (tasks m2 ! i)\<lparr>trapFrame := (trapFrame (tasks m2 ! i))\<lparr>eip := e\<rparr>\<rparr>]"
      "freeTasks m3 = freeTasks m2" "current m3 = current m2"
    using loadElf_fields [OF a(2)] by blast
  let ?t = "set_name nm (tasks m3 ! i)"
  have cs: "user_frame new_frame" by (simp add: user_frame_def new_frame_def frame_clear_def GD_UT_def)
  have t3: "tasks m3 ! i = t1\<lparr>pageDir := d, trapFrame := new_frame\<lparr>eip := e\<rparr>\<rparr>" using 1 2 3 assms(2) by simp
  have "tasks m' = (tasks m)[i := ?t]" using 1 2 3 assms(2) by (simp add: a(3))
  moreover have "status ?t \<noteq> running \<and> can_be_current i ?t" using t3 1 cs by (simp add: can_be_current_def user_frame_def)
  ultimately show ?thesis using 1 2 3 by (auto simp: a(3))
qed

end
