(* ===== verification/System.thy ===== *)
theory System
  imports TaskTable
begin

text \<open>
  The kernel as a transition system. Between two transitions either user code runs or the monitor
  waits for a command; a transition is a write of the user code, a trap with its handler, or one round
  of the monitor. The theory shows what every reachable state satisfies.
\<close>

section \<open>Initial state\<close>

lemma link_tasks:
  "n \<le> length (tasks m) \<Longrightarrow> task_path (tasks m) (freeTasks m) is \<Longrightarrow> \<forall>i\<in>set is. n \<le> i \<Longrightarrow>
   \<exists>m'. foldE link_task (rev [0..<n]) m = Inr m' \<and> task_path (tasks m') (freeTasks m') ([0..<n] @ is)
      \<and> length (tasks m') = length (tasks m) \<and> current m' = current m \<and> cr3 m' = cr3 m
      \<and> (\<forall>i<length (tasks m). status (tasks m' ! i) = status (tasks m ! i))"
proof (induction n arbitrary: m "is")
  case 0
  then show ?case by simp
next
  case (Suc n)
  let ?t = "(tasks m ! n)\<lparr>nextTask := freeTasks m\<rparr>"
  let ?m = "(set_task n ?t m)\<lparr>freeTasks := Some n\<rparr>"
  have l: "link_task n m = Inr ?m" using Suc.prems(1) by (simp add: link_task_def task_at_def)
  have n: "n \<notin> set is" using Suc.prems(3) by auto
  have "task_path (tasks ?m) (freeTasks ?m) (n # is)" using Suc.prems(1,2) n by simp
  moreover have "\<forall>i\<in>set (n # is). n \<le> i" using Suc.prems(3) by auto
  ultimately obtain m' where m': "foldE link_task (rev [0..<n]) ?m = Inr m'"
      "task_path (tasks m') (freeTasks m') ([0..<n] @ n # is)" "length (tasks m') = length (tasks ?m)"
      "current m' = current ?m" "cr3 m' = cr3 ?m" "\<forall>i<length (tasks ?m). status (tasks m' ! i) = status (tasks ?m ! i)"
    using Suc.IH [of ?m "n # is"] Suc.prems(1) by auto
  have "status (tasks m' ! i) = status (tasks m ! i)" if "i < length (tasks m)" for i
    using m'(6) that by (cases "i = n") auto
  then show ?case using l m' by simp
qed

definition booted :: "machine \<Rightarrow> bool" where
  "booted m \<longleftrightarrow> tasks m = replicate maxCount blank_task \<and> freeTasks m = None \<and> current m = None"

lemma task_initPerCpu_same [simp]:
  "tasks (task_initPerCpu m) = tasks m" "freeTasks (task_initPerCpu m) = freeTasks m" "current (task_initPerCpu m) = current m"
  by (simp_all add: task_initPerCpu_def)

lemma task_init_ok:
  assumes "booted m"
  shows "\<exists>m'. task_init m = Inr m' \<and> task_inv m' [0..<maxCount] \<and> current m' = None"
proof -
  let ?m = "kprint ''Initializing tasks...'' [] m"
  have len: "length (tasks ?m) = 256" using assms by (simp add: booted_def maxCount_def)
  have st: "status (tasks ?m ! i) = free" if "i < 256" for i
    using assms that by (simp add: booted_def maxCount_def blank_task_def)
  obtain m' where m': "foldE link_task (rev [0..<maxCount]) ?m = Inr m'"
      "task_path (tasks m') (freeTasks m') ([0..<maxCount] @ [])" "length (tasks m') = length (tasks ?m)"
      "current m' = current ?m" "\<forall>i<length (tasks ?m). status (tasks m' ! i) = status (tasks ?m ! i)"
    using link_tasks [of maxCount ?m "[]"] assms len by (auto simp: booted_def maxCount_def simp del: upt_rec_numeral)
  have cur: "current m' = None" using m'(4) assms by (simp add: booted_def)
  have st': "status (tasks m' ! i) = free" if "i < 256" for i using m'(5) st [OF that] that len by simp
  have "task_inv (kprint ''Done'' [] (task_initPerCpu m')) [0..<maxCount]"
  proof (rule task_invI)
    show "status (tasks (kprint ''Done'' [] (task_initPerCpu m')) ! i) = free" if "i \<in> set [0..<maxCount]" for i
      using that st' by (simp add: maxCount_def del: upt_rec_numeral)
    show "current (kprint ''Done'' [] (task_initPerCpu m')) = Some i"
      if "i < 256" "status (tasks (kprint ''Done'' [] (task_initPerCpu m')) ! i) = running" for i using that st' by simp
  qed (use m'(2,3) len cur in \<open>simp_all del: upt_rec_numeral\<close>)
  then show ?thesis using m'(1) cur by (simp add: task_init_def del: upt_rec_numeral)
qed

section \<open>System calls and traps\<close>

lemma destroy_gone:
  "task_inv m fl \<Longrightarrow> current m = Some c \<Longrightarrow> destroy c b m = Inr m' \<Longrightarrow> (\<exists>fl. task_inv m' fl) \<and> current m' = None"
  using destroy_inv by blast

lemma sys_putString_inv:
  assumes inv: "task_inv m fl" and c: "current m = Some c" and s: "sys_putString a n m = Some (Inr r)"
  shows "case r of Return v m' \<Rightarrow> same_tasks m m' | ToMonitor m' \<Rightarrow> (\<exists>fl. task_inv m' fl) \<and> current m' = None"
proof -
  obtain okay where u: "userCheck (pageDir (tasks m ! c)) a n PTE_U (vm m) = Some (Inr okay)"
    using s c by (auto simp: sys_putString_def split: option.splits sum.splits)
  show ?thesis
  proof (cases okay)
    case True
    then obtain m1 where "putString_loop a (unat n) m = Inr m1" "r = Return 0 m1"
      using s c u by (auto simp: sys_putString_def split: sum.splits)
    then show ?thesis using putString_same by simp
  next
    case False
    then obtain m1 f args where m1: "destroy c True (kprint f args m) = Inr m1" "r = ToMonitor m1"
      using s c u by (auto simp: sys_putString_def split: sum.splits)
    have "task_inv (kprint f args m) fl" "current (kprint f args m) = Some c" using inv c by simp_all
    then show ?thesis using destroy_gone [OF _ _ m1(1)] m1(2) by simp
  qed
qed

lemma ksyscall_inv:
  assumes inv: "task_inv m fl" and c: "current m = Some c" and s: "ksyscall_main n a1 a2 m = Some (Inr r)"
  shows "case r of Return v m' \<Rightarrow> same_tasks m m' | ToMonitor m' \<Rightarrow> (\<exists>fl. task_inv m' fl) \<and> current m' = None"
proof -
  consider (put) "n = num_code putChar" | (str) "n = num_code putString" | (ex) "n = num_code exit"
    | (get) "n = num_code getChar" | (other) "\<forall>x. n \<noteq> num_code x"
    by (metis Num.exhaust)
  then show ?thesis
  proof cases
    case put
    then show ?thesis using s by (auto simp: ksyscall_main_def sys_putChar_def split: if_splits)
  next
    case str
    then show ?thesis using s sys_putString_inv [OF inv c, of a1 a2 r] by (simp add: ksyscall_main_def)
  next
    case ex
    then obtain m1 where "destroy c False m = Inr m1" "r = ToMonitor m1"
      using s c by (auto simp: ksyscall_main_def sys_exit_def)
    then show ?thesis using destroy_gone [OF inv c] by simp
  next
    case get
    then obtain ch st where "r = Return ch (m\<lparr>io := st\<rparr>)"
      using s by (auto simp: ksyscall_main_def sys_getChar_def)
    then show ?thesis by simp
  next
    case other
    then have "r = Return 0 m"
      using s other [THEN spec [of _ putChar]] other [THEN spec [of _ putString]] other [THEN spec [of _ exit]]
        other [THEN spec [of _ getChar]] by (simp only: ksyscall_main_def if_False option.inject sum.inject)
    then show ?thesis by simp
  qed
qed

text \<open>The frame pointer the monitor gets matches the current task.\<close>

definition frame_ok :: "frame_ptr \<Rightarrow> machine \<Rightarrow> bool" where
  "frame_ok p m \<longleftrightarrow> (case p of NullFrame \<Rightarrow> current m = None | TaskFrame c \<Rightarrow> current m = Some c | StackFrame f \<Rightarrow> False)"

definition kernel_ok :: "machine \<Rightarrow> bool" where
  "kernel_ok m \<longleftrightarrow> (\<exists>fl. task_inv m fl) \<and> cr3_ok m"

lemma kernel_ok_same: "same_tasks m m' \<Longrightarrow> kernel_ok m' = kernel_ok m"
  using same_tasks_inv by (simp add: kernel_ok_def)

lemma same_tasks_kernel: "same_tasks m m' \<Longrightarrow> kernel_ok m \<Longrightarrow> kernel_ok m'"
  by (simp add: kernel_ok_same)

lemma kernel_ok_kprint [simp]: "kernel_ok (kprint f args m) = kernel_ok m"
  by (rule kernel_ok_same) simp

lemma same_tasks_current: "same_tasks m m' \<Longrightarrow> current m' = current m"
  by (simp add: same_tasks_def)

lemma kernel_ok_none: "task_inv m fl \<Longrightarrow> current m = None \<Longrightarrow> kernel_ok m"
  by (auto simp: kernel_ok_def cr3_ok_def)

lemma kernel_ok_current:
  assumes "kernel_ok m" "current m = Some c" "status t = running" "can_be_current c t" "pageDir t = pageDir (tasks m ! c)"
  shows "kernel_ok (set_task c t m)"
proof -
  obtain fl where fl: "task_inv m fl" "cr3_ok m" using assms(1) by (auto simp: kernel_ok_def)
  have "c < length (tasks m)" "c \<notin> set fl" using task_inv_current [OF fl(1) assms(2)] task_inv_length [OF fl(1)] by auto
  then have "task_inv (set_task c t m) fl" "cr3_ok (set_task c t m)"
    using task_inv_update [OF fl(1)] assms fl(2) by (auto simp: cr3_ok_def)
  then show ?thesis by (auto simp: kernel_ok_def)
qed

lemma kernel_ok_task:
  assumes "kernel_ok m" "current m = Some c"
  shows "c < length (tasks m) \<and> c < 256 \<and> status (tasks m ! c) = running \<and> can_be_current c (tasks m ! c)"
  using assms task_inv_current task_inv_length unfolding kernel_ok_def by metis

lemma set_eax_ok:
  assumes ok: "kernel_ok m" and c: "current m = Some c" and s: "set_eax (TaskFrame c) v m = Inr m'"
  shows "kernel_ok m' \<and> current m' = Some c"
proof -
  note t = kernel_ok_task [OF ok c]
  let ?t = "(tasks m ! c)\<lparr>trapFrame := (trapFrame (tasks m ! c))\<lparr>regs := (regs (trapFrame (tasks m ! c)))\<lparr>eax := v\<rparr>\<rparr>\<rparr>"
  have "m' = set_task c ?t m" using s t by (simp add: set_eax_def)
  moreover have "kernel_ok (set_task c ?t m)"
    by (rule kernel_ok_current [OF ok c]) (use t in \<open>simp_all add: can_be_current_def user_frame_def\<close>)
  ultimately show ?thesis using c by simp
qed

lemma dispatch_ok:
  assumes ok: "kernel_ok m" and c: "current m = Some c" and u: "user_frame tf"
    and d: "dispatch va (TaskFrame c) tf m = Some (Inr r)"
  shows "case r of Returned m' \<Rightarrow> kernel_ok m' \<and> current m' = Some c | InMonitor p m' \<Rightarrow> kernel_ok m' \<and> frame_ok p m'"
proof -
  obtain fl where inv: "task_inv m fl" using ok by (auto simp: kernel_ok_def)
  have cs: "cs tf AND 3 \<noteq> 0" using u by (simp add: user_frame_def)
  note lt = kernel_ok_task [OF ok c]
  consider (pf) "trapType tf = T_pageFault" | (sys) "trapType tf = T_syscall" | (dbg) "trapType tf = T_debug \<or> trapType tf = T_breakpoint"
    | (other) "trapType tf \<notin> {T_pageFault, T_syscall, T_debug, T_breakpoint}" by blast
  then show ?thesis
  proof cases
    case pf
    then obtain f args m2 where m2: "destroy c True (kprint f args m) = Inr m2" "r = InMonitor NullFrame m2"
      using d cs c lt by (auto simp: dispatch_def pageFault_def current_task_def)
    have "task_inv (kprint f args m) fl" "current (kprint f args m) = Some c" using inv c by simp_all
    then have "(\<exists>fl. task_inv m2 fl) \<and> current m2 = None" by (rule destroy_gone [OF _ _ m2(1)])
    then show ?thesis using m2(2) kernel_ok_none by (auto simp: frame_ok_def)
  next
    case sys
    then obtain q where q: "syscall tf m = Some (Inr q)"
        "(case q of Return v m1 \<Rightarrow> Some (bindE (set_eax (TaskFrame c) v m1) (\<lambda>m2. Inr (Returned m2)))
          | ToMonitor m1 \<Rightarrow> Some (Inr (InMonitor NullFrame m1))) = Some (Inr r)"
      using d by (auto simp: dispatch_def T_pageFault_def T_syscall_def)
    have ks: "case q of Return v m' \<Rightarrow> same_tasks m m' | ToMonitor m' \<Rightarrow> (\<exists>fl. task_inv m' fl) \<and> current m' = None"
      using q(1) ksyscall_inv [OF inv c] by (simp add: syscall_def)
    show ?thesis
    proof (cases q)
      case (Return v m1)
      then obtain m2 where m2: "set_eax (TaskFrame c) v m1 = Inr m2" "r = Returned m2" using q(2) by auto
      have "same_tasks m m1" using ks Return by simp
      then have "kernel_ok m1" "current m1 = Some c" using same_tasks_kernel [OF _ ok] same_tasks_current c by auto
      note g = set_eax_ok [OF this m2(1)]
      show ?thesis unfolding m2(2) using g by simp
    next
      case (ToMonitor m1)
      then show ?thesis using ks q(2) kernel_ok_none by (auto simp: frame_ok_def)
    qed
  next
    case dbg
    then have "r = debug (TaskFrame c) tf m"
      using d by (auto simp: dispatch_def T_pageFault_def T_syscall_def T_debug_def T_breakpoint_def)
    then show ?thesis using ok c by (simp add: debug_def frame_ok_def)
  next
    case other
    then obtain f args where "r = InMonitor (TaskFrame c) (kprint f args m)"
      using d cs c lt by (auto simp: dispatch_def current_task_def)
    then show ?thesis using ok c by (simp add: frame_ok_def)
  qed
qed

lemma trap_ok:
  assumes ok: "kernel_ok m" and c: "current m = Some c" and u: "user_frame tf"
    and t: "trap intr va tf m = Some (Inr r)"
  shows "case r of Resume f m' \<Rightarrow> kernel_ok m' \<and> user_frame f \<and> current m' \<noteq> None
    | Monitor p m' \<Rightarrow> kernel_ok m' \<and> frame_ok p m'"
proof -
  note lt = kernel_ok_task [OF ok c]
  let ?m = "set_task c ((tasks m ! c)\<lparr>trapFrame := tf\<rparr>) m"
  obtain p m1 d where e: "enter tf m = Inr (p, m1)" "dispatch va p tf m1 = Some (Inr d)"
    and d: "(case d of InMonitor q m2 \<Rightarrow> Some (Inr (Monitor q m2))
     | Returned m2 \<Rightarrow> Some (case current m2 of None \<Rightarrow> Inl (Panic ''Task::current'')
         | Some c \<Rightarrow> bindE (run c (trapType tf \<noteq> T_syscall) m2) (\<lambda>(f, m3). Inr (Resume f m3)))) = Some (Inr r)"
    using t by (auto simp: trap_def)
  have m1: "p = TaskFrame c \<and> same_tasks ?m m1" using e(1) u c lt by (auto simp: enter_def user_frame_def current_task_def Let_def)
  have "kernel_ok ?m" by (rule kernel_ok_current [OF ok c]) (use lt u in \<open>simp_all add: can_be_current_def\<close>)
  then have ok1: "kernel_ok m1" "current m1 = Some c" using m1 c same_tasks_kernel [of ?m m1] same_tasks_current [of ?m m1] by simp_all
  have dd: "dispatch va (TaskFrame c) tf m1 = Some (Inr d)" using e(2) m1 by simp
  note dd = dispatch_ok [OF ok1 u dd]
  show ?thesis
  proof (cases d)
    case (InMonitor q m2)
    then show ?thesis using d dd by auto
  next
    case (Returned m2)
    then have m2: "kernel_ok m2" "current m2 = Some c" using dd by auto
    then obtain f m3 where r: "run c (trapType tf \<noteq> T_syscall) m2 = Inr (f, m3)" "r = Resume f m3"
      using d Returned by auto
    have "same_tasks m2 m3 \<and> f = trapFrame (tasks m2 ! c)" by (rule run_current [OF m2(2) r(1)])
    moreover have "user_frame (trapFrame (tasks m2 ! c))" using kernel_ok_task [OF m2] by (simp add: can_be_current_def)
    ultimately show ?thesis unfolding r(2) using same_tasks_kernel [OF _ m2(1)] same_tasks_current [of m2 m3] m2(2) by simp
  qed
qed

section \<open>Monitor commands\<close>

text \<open>What a command leaves behind when it returns to the monitor, and when it leaves the kernel.\<close>

definition cmd_post :: "machine \<Rightarrow> cmd_result \<Rightarrow> bool" where
  "cmd_post m r \<longleftrightarrow> (case r of Back ret m' \<Rightarrow> same_tasks m m' | Off m' \<Rightarrow> True
     | Leave f m' \<Rightarrow> kernel_ok m' \<and> user_frame f \<and> current m' \<noteq> None)"

lemma cmd_post_Back [simp]: "cmd_post m (Back ret m') = same_tasks m m'"
  by (simp add: cmd_post_def)

lemma vm_command_post:
  assumes v: "vm_command d argv m = Some (Inr r)" and d: "\<And>b e m'. d b e m = Some (Inr m') \<Longrightarrow> same_tasks m m'"
  shows "cmd_post m r"
proof -
  consider "r = Back invalidArg m" | b e m1 where "d b e m = Some (Inr m1)" "r = Back ok m1"
    using v by (auto simp: vm_command_def split: if_splits option.splits)
  then show ?thesis by cases (use d in simp_all)
qed

lemma same_tasks_kprint_left [simp]: "same_tasks (kprint f args m) m' = same_tasks m m'"
  by (simp add: same_tasks_def)

lemma vm_show_same: "vm_show dir b e m = Some (Inr m') \<Longrightarrow> same_tasks m m'"
  unfolding vm_show_def by (drule show_loop_same [OF _ refl]) simp

lemma vm_dumpV_same: "vm_dumpV dir b e m = Some (Inr m') \<Longrightarrow> same_tasks m m'"
  unfolding vm_dumpV_def by (drule dumpV_loop_same [OF _ refl]) simp

lemma vm_dumpP_same: "vm_dumpP b e m = Some (Inr m') \<Longrightarrow> same_tasks m m'"
  unfolding vm_dumpP_def by (drule dumpP_loop_same [OF _ refl]) simp

lemma fold_same: "(\<And>x m. same_tasks m (f x m)) \<Longrightarrow> same_tasks m (fold f xs m)"
proof (induction xs arbitrary: m)
  case (Cons x xs)
  have "same_tasks m (f x m)" "same_tasks (f x m) (fold f xs (f x m))" using Cons by auto
  then show ?case using same_tasks_trans by (simp only: fold_simps)
qed simp

lemma runtask_post:
  assumes ok: "kernel_ok m" and r: "runtask b nm m = Some (Inr r)"
  shows "cmd_post m r"
proof -
  obtain fl where inv: "task_inv m fl" using ok by (auto simp: kernel_ok_def)
  obtain i e m1 f m2 where c: "create b nm m = Some (Inr ((Some i, e), m1))" "run i True m1 = Inr (f, m2)" "r = Leave f m2"
    using r by (auto simp: runtask_def split: option.splits)
  obtain t where t: "freeTasks m = Some i" "i < 256" "tasks m1 = (tasks m)[i := t]" "status t \<noteq> running" "can_be_current i t"
      "freeTasks m1 = nextTask (tasks m ! i)" "current m1 = current m"
    using create_fields [OF c(1) task_inv_length [OF inv]] by blast
  obtain fl' where fl: "fl = i # fl'" using task_inv_path [OF inv] t(1) by (cases fl) auto
  note k = task_inv_take [OF inv [unfolded fl]]
  let ?m = "set_task i t (m\<lparr>freeTasks := nextTask (tasks m ! i)\<rparr>)"
  have "task_inv ?m fl'" by (rule task_inv_update [OF k(1,2)]) (use k(4) t(4) in simp_all)
  then have "task_inv m1 fl'" by (rule task_inv_cong [THEN iffD2, rotated -1]) (simp_all add: t)
  moreover have "tasks m1 ! i = t" using t(2,3) task_inv_length [OF inv] by simp
  ultimately have "task_inv m2 fl' \<and> cr3_ok m2 \<and> current m2 = Some i \<and> f = trapFrame (tasks m2 ! i)"
    by (intro run_inv [OF _ k(2) t(2) _ _ c(2)]) (use k(4) t in simp_all)
  moreover then have "kernel_ok m2" "current m2 = Some i" by (auto simp: kernel_ok_def)
  ultimately show ?thesis using c(3) kernel_ok_task [of m2 i] by (simp add: cmd_post_def can_be_current_def)
qed

lemma pop_with_post:
  assumes ok: "kernel_ok m" "frame_ok tf m" and f: "\<And>x. x AND FL_IF = 0 \<Longrightarrow> g x AND FL_IF = 0" and p: "pop_with g tf m = Inr r"
  shows "cmd_post m r"
proof (cases tf)
  case NullFrame
  then show ?thesis using p by (auto simp: pop_with_def)
next
  case (StackFrame x)
  then show ?thesis using ok by (simp add: frame_ok_def)
next
  case (TaskFrame i)
  then have c: "current m = Some i" using ok by (simp add: frame_ok_def)
  note t = kernel_ok_task [OF ok(1) c]
  let ?t = "(tasks m ! i)\<lparr>trapFrame := (trapFrame (tasks m ! i))\<lparr>eflags := g (eflags (trapFrame (tasks m ! i)))\<rparr>\<rparr>"
  have r: "r = Leave (trapFrame ?t) (set_task i ?t m)" using p TaskFrame t by (auto simp: pop_with_def)
  have u: "can_be_current i ?t" using t f by (simp add: can_be_current_def user_frame_def)
  have "kernel_ok (set_task i ?t m)" by (rule kernel_ok_current [OF ok(1) c]) (use t u in simp_all)
  then show ?thesis using u c unfolding r by (simp add: cmd_post_def can_be_current_def)
qed

lemma run_command_post:
  assumes ok: "kernel_ok m" "frame_ok tf m" and r: "run_command lit b nm f argv tf m = Some (Inr r)"
  shows "cmd_post m r"
proof (cases f)
  case Echo
  then show ?thesis using r echo_same by (auto simp: run_command_def echo_def)
next
  case Help
  then show ?thesis using r by (auto simp: run_command_def help_cmd_def intro!: fold_same)
next
  case Uname
  then show ?thesis using r by (auto simp: run_command_def uname_def split: if_splits)
next
  case Vmshow
  then show ?thesis using r vm_command_post [OF _ vm_show_same] by (simp add: run_command_def vmshow_def)
next
  case Vmdumpv
  then show ?thesis using r vm_command_post [OF _ vm_dumpV_same] by (simp add: run_command_def vmdumpv_def)
next
  case Vmdumpp
  then show ?thesis using r vm_command_post [OF _ vm_dumpP_same] by (simp add: run_command_def vmdumpp_def)
next
  case Runtask
  then show ?thesis using r runtask_post [OF ok(1)] by (simp add: run_command_def)
next
  case Cont
  have "(x AND NOT FL_TF) AND FL_IF = 0" if "x AND FL_IF = 0" for x
    using that by (simp add: FL_TF_def FL_IF_def and.assoc)
  from pop_with_post [OF ok this] show ?thesis using r Cont by (simp add: run_command_def cont_def)
next
  case Si
  have "(x OR FL_TF) AND FL_IF = 0" if "x AND FL_IF = 0" for x
    using that by (simp add: FL_TF_def FL_IF_def bit.conj_disj_distrib2)
  from pop_with_post [OF ok this] show ?thesis using r Si by (simp add: run_command_def si_def)
next
  case Page
  then show ?thesis using r by (auto simp: run_command_def page_stats_def)
qed (use r in \<open>auto simp: run_command_def cmd_post_def\<close>)

lemma frame_ok_same: "same_tasks m m' \<Longrightarrow> frame_ok p m' = frame_ok p m"
  by (simp add: frame_ok_def same_tasks_def split: frame_ptr.split)

lemma cmd_post_same: "same_tasks m m' \<Longrightarrow> cmd_post m' r \<Longrightarrow> cmd_post m r"
  unfolding cmd_post_def using same_tasks_trans by (auto split: cmd_result.splits)

lemma parseCmd_post:
  assumes ok: "kernel_ok m" "frame_ok tf m" and r: "parseCmd lit ws b nm line tf m = Some (Inr r)"
  shows "cmd_post m r"
proof -
  obtain argc k argv where s: "str_splitWs ws (kmem (vm m)) line (replicate (MAX_ARGS + 2) 0) (of_nat (MAX_ARGS + 2)) = Some (argc, k, argv)"
    using r by (auto simp: parseCmd_def split: option.splits)
  let ?m = "m\<lparr>vm := (vm m)\<lparr>kmem := k\<rparr>\<rparr>"
  have same: "same_tasks m ?m" by simp
  consider ret where "r = Back ret ?m" | f where "run_command lit b nm f (take (nat argc) argv) tf ?m = Some (Inr r)"
    using r unfolding parseCmd_def s by (auto simp: Let_def split: if_splits option.splits)
  then show ?thesis
  proof cases
    case 2
    have "cmd_post ?m r"
      by (rule run_command_post [OF same_tasks_kernel [OF same ok(1)] _ 2]) (use ok(2) frame_ok_same [OF same] in simp)
    then show ?thesis by (rule cmd_post_same [OF same])
  qed simp
qed

lemma monitor_round_post:
  assumes ok: "kernel_ok m" "frame_ok tf m" and r: "monitor_round lit ws b nm buf tf lastRet m = Some (Inr r)"
  shows "cmd_post m r"
proof -
  obtain m1 line m2 r1 where 1: "prompt m = Inr m1" and 2: "read_line buf m1 = Some (Inr (line, m2))"
    and 3: "(if line ! 0 \<noteq> 0 then parseCmd lit ws b nm buf tf m2 else Some (Inr (Back lastRet m2))) = Some (Inr r1)"
    and r: "r = (case r1 of Back ret m3 \<Rightarrow> Back ret (report buf ret m3) | Off m3 \<Rightarrow> Off m3 | Leave f m3 \<Rightarrow> Leave f m3)"
    using r unfolding monitor_round_def by auto
  have "same_tasks m m1" using 1 by (auto simp: prompt_def split: option.splits)
  moreover have "same_tasks m1 m2" using 2 by (auto simp: read_line_def)
  ultimately have same: "same_tasks m m2" by (rule same_tasks_trans)
  have "cmd_post m2 r1"
    using 3 parseCmd_post [OF same_tasks_kernel [OF same ok(1)] frame_ok_same [OF same, THEN iffD2, OF ok(2)]]
    by (auto split: if_splits)
  then have "cmd_post m2 r" unfolding r by (auto simp: cmd_post_def report_def split: cmd_result.splits)
  then show ?thesis by (rule cmd_post_same [OF same])
qed

section \<open>Transitions\<close>

text \<open>
  What runs between two transitions: the user code of the current task, or the monitor with its frame
  pointer and the last result. The processor lets user code write where both levels of the directory
  say present, user and writable.
\<close>

datatype mode = UserMode Frame | MonitorMode frame_ptr Result

definition user_write :: "u32 \<Rightarrow> u8 \<Rightarrow> machine \<Rightarrow> machine option" where
  "user_write va b m =
     (let k = kmem (vm m); dir = cr3 m + KERNBASE; pde = load32 k (dir + 4 * PDX va);
          pte = load32 k (PTE_ADDR pde + KERNBASE + 4 * PTX va); perm = PTE_P OR PTE_U OR PTE_W in
      if pde AND perm = perm \<and> pte AND perm = perm
      then Some (m\<lparr>vm := (vm m)\<lparr>kmem := k(PTE_ADDR pte + KERNBASE + PGOFF va := b)\<rparr>\<rparr>) else None)"

text \<open>
  A trap from user code finds the code and stack selectors of ring 3 and the interrupt flag of the
  frame that was resumed in the frame that the processor pushes; only with that flag set can the
  handler start with interrupts enabled.
\<close>

inductive kstep :: "((string \<Rightarrow> u32) \<times> u32 \<times> u32 \<times> u8 list \<times> u32) \<Rightarrow> mode \<times> machine \<Rightarrow> mode \<times> machine \<Rightarrow> bool"
  for env where
  user_write: "user_write va b m = Some m' \<Longrightarrow> kstep env (UserMode f, m) (UserMode f, m')"
| trap_resume: "cs tf AND 3 = 3 \<Longrightarrow> eflags tf AND FL_IF = eflags f AND FL_IF \<Longrightarrow>
    trap (eflags tf AND FL_IF \<noteq> 0) va tf m = Some (Inr (Resume f' m')) \<Longrightarrow> kstep env (UserMode f, m) (UserMode f', m')"
| trap_monitor: "cs tf AND 3 = 3 \<Longrightarrow> eflags tf AND FL_IF = eflags f AND FL_IF \<Longrightarrow>
    trap (eflags tf AND FL_IF \<noteq> 0) va tf m = Some (Inr (Monitor p m')) \<Longrightarrow> kstep env (UserMode f, m) (MonitorMode p ok, m')"
| command_back: "env = (lit, ws, binary, name, buf) \<Longrightarrow>
    monitor_round lit ws binary name buf p r m = Some (Inr (Back r' m')) \<Longrightarrow> kstep env (MonitorMode p r, m) (MonitorMode p r', m')"
| command_leave: "env = (lit, ws, binary, name, buf) \<Longrightarrow>
    monitor_round lit ws binary name buf p r m = Some (Inr (Leave f m')) \<Longrightarrow> kstep env (MonitorMode p r, m) (UserMode f, m')"

inductive_cases kstep_userE: "kstep env (UserMode f, m) c"
inductive_cases kstep_monitorE: "kstep env (MonitorMode p r, m) c"

definition mode_ok :: "mode \<Rightarrow> machine \<Rightarrow> bool" where
  "mode_ok md m \<longleftrightarrow> (case md of UserMode f \<Rightarrow> user_frame f \<and> current m \<noteq> None | MonitorMode p r \<Rightarrow> frame_ok p m)"

lemma kstep_ok: "kstep env c c' \<Longrightarrow> kernel_ok (snd c) \<Longrightarrow> mode_ok (fst c) (snd c) \<Longrightarrow> kernel_ok (snd c') \<and> mode_ok (fst c') (snd c')"
proof (induction rule: kstep.induct)
  case (user_write va b m m' f)
  have "same_tasks m m'" using user_write(1) by (auto simp: user_write_def Let_def split: if_splits)
  then show ?case using user_write same_tasks_kernel same_tasks_current by (simp add: mode_ok_def)
next
  case (trap_resume tf f va m f' m')
  obtain c where c: "current m = Some c" using trap_resume by (auto simp: mode_ok_def)
  have u: "user_frame tf" using trap_resume by (simp add: user_frame_def mode_ok_def)
  show ?case using trap_ok [OF _ c u trap_resume(3)] trap_resume(4) by (simp add: mode_ok_def)
next
  case (trap_monitor tf f va m p m')
  obtain c where c: "current m = Some c" using trap_monitor by (auto simp: mode_ok_def)
  have u: "user_frame tf" using trap_monitor by (simp add: user_frame_def mode_ok_def)
  show ?case using trap_ok [OF _ c u trap_monitor(3)] trap_monitor(4) by (simp add: mode_ok_def)
next
  case (command_back lit ws binary name buf p r m r' m')
  then have "frame_ok p m" "kernel_ok m" by (simp_all add: mode_ok_def)
  moreover from this have "same_tasks m m'" using monitor_round_post [OF _ _ command_back(2)] by simp
  ultimately show ?case using frame_ok_same same_tasks_kernel by (simp add: mode_ok_def)
next
  case (command_leave lit ws binary name buf p r m f m')
  then show ?case using monitor_round_post [OF _ _ command_leave(2)] by (simp add: mode_ok_def cmd_post_def)
qed

lemma reachable_ok:
  assumes "(kstep env)\<^sup>*\<^sup>* c c'" "kernel_ok (snd c)" "mode_ok (fst c) (snd c)"
  shows "kernel_ok (snd c') \<and> mode_ok (fst c') (snd c')"
  using assms by (induction rule: rtranclp_induct) (use kstep_ok in blast)+

lemma boot_ok:
  assumes "booted m" "task_init m = Inr m0"
  shows "kernel_ok m0 \<and> mode_ok (MonitorMode NullFrame ok) m0"
  using task_init_ok [OF assms(1)] assms(2) by (auto simp: mode_ok_def frame_ok_def intro: kernel_ok_none)

lemma kernel_ok_slots:
  assumes "kernel_ok m"
  shows "\<exists>fl. task_path (tasks m) (freeTasks m) fl \<and> distinct fl
      \<and> (\<forall>i\<in>set fl. i < 256 \<and> status (tasks m ! i) = free \<and> current m \<noteq> Some i)"
proof -
  obtain fl where inv: "task_inv m fl" using assms by (auto simp: kernel_ok_def)
  have "i < 256 \<and> status (tasks m ! i) = free \<and> current m \<noteq> Some i" if "i \<in> set fl" for i
    using task_path_lt [OF task_inv_path [OF inv] that] task_inv_length [OF inv] task_inv_free [OF inv that]
      task_inv_current [OF inv, of i] that by auto
  then show ?thesis using task_inv_path [OF inv] task_inv_distinct [OF inv] by blast
qed

lemma kernel_ok_running: "kernel_ok m \<Longrightarrow> i < 256 \<Longrightarrow> status (tasks m ! i) = running \<Longrightarrow> current m = Some i"
  by (auto simp: kernel_ok_def task_inv_running)

lemma kernel_ok_cr3: "kernel_ok m \<Longrightarrow> current m = Some c \<Longrightarrow> cr3 m + KERNBASE = pageDir (tasks m ! c)"
  by (simp add: kernel_ok_def cr3_ok_def)

section \<open>Properties\<close>


text \<open>Concrete machines: one with a running task in the first slot, and one just booted.\<close>

definition one_task :: "vmem \<Rightarrow> u32 \<Rightarrow> machine" where
  "one_task s dir = \<lparr>vm = s,
     tasks = (replicate 256 blank_task)[0 := blank_task\<lparr>status := running, trapFrame := new_frame, pageDir := dir\<rparr>],
     freeTasks = None, current = Some 0, cr3 = dir - KERNBASE, rnd = 1, io = typed_line, klog = []\<rparr>"

lemma new_frame_user: "user_frame new_frame"
  by (simp add: user_frame_def new_frame_def frame_clear_def GD_UT_def)

lemma one_task_simps [simp]:
  "current (one_task s dir) = Some 0" "vm (one_task s dir) = s" "cr3 (one_task s dir) = dir - KERNBASE"
  "pageDir (tasks (one_task s dir) ! 0) = dir" "io (one_task s dir) = typed_line" "length (tasks (one_task s dir)) = 256"
  "freeTasks (one_task s dir) = None" "trapFrame (tasks (one_task s dir) ! 0) = new_frame"
  by (simp_all add: one_task_def)

lemma one_task_ok: "kernel_ok (one_task s dir)"
proof -
  have st: "status (tasks (one_task s dir) ! i) = (if i = 0 then running else free)" if "i < 256" for i
    using that by (simp add: one_task_def blank_task_def)
  have c: "can_be_current 0 (tasks (one_task s dir) ! 0)"
    using new_frame_user by (simp add: can_be_current_def) (simp add: one_task_def blank_task_def)
  have "task_inv (one_task s dir) []"
  proof (rule task_invI)
    show "i < 256 \<and> i \<notin> set [] \<and> status (tasks (one_task s dir) ! i) = running \<and> can_be_current i (tasks (one_task s dir) ! i)"
      if "current (one_task s dir) = Some i" for i
      using that st [of 0] c by simp
    show "current (one_task s dir) = Some i" if "i < 256" "status (tasks (one_task s dir) ! i) = running" for i
      using that st by (cases "i = 0") simp_all
  qed simp_all
  then show ?thesis by (auto simp: kernel_ok_def cr3_ok_def)
qed

definition booted_machine :: machine where
  "booted_machine = \<lparr>vm = small_vm, tasks = replicate maxCount blank_task, freeTasks = None, current = None,
     cr3 = 0x1000, rnd = 1, io = typed_line, klog = []\<rparr>"


text \<open>What \<open>destroy\<close> does to the current task.\<close>

lemma destroy_current:
  assumes "c < length (tasks m)" "current m = Some c" "pageDir (tasks m ! c) = toPhy d + KERNBASE"
    and "owned_inv (vm m) d fl" "\<not> kernelPageDir (vm m) < KERNBASE"
  shows "\<exists>m' fl'. destroy c b m = Inr m' \<and> current m' = None \<and> cr3 m' = kernelPageDir (vm m) - KERNBASE \<and> io m' = io m
    \<and> freeTasks m' = Some c \<and> tasks m' = (tasks m)[c := (tasks m ! c)\<lparr>status := free, nextTask := freeTasks m\<rparr>]
    \<and> alloc_inv (vm m') fl' \<and> set fl' = set fl \<union> owned (vm m) d"
proof -
  let ?s = "lcr3 (kernelPageDir (vm m) - KERNBASE) (vm m)"
  have "owned_inv ?s d fl" "owned ?s d = owned (vm m) d"
    using assms(4) by (simp_all add: owned_inv_def owned_def lcr3_def)
  then obtain s' fl' where s': "free_memory (toPhy d + KERNBASE) ?s = Inr s'" "alloc_inv s' fl'" "set fl' = set fl \<union> owned (vm m) d"
    using free_memory_ok [of ?s d fl] by auto
  obtain m' where "destroy c b m = Inr m'" "current m' = None" "vm m' = s'" "cr3 m' = kernelPageDir (vm m) - KERNBASE" "io m' = io m"
      "freeTasks m' = Some c" "tasks m' = (tasks m)[c := (tasks m ! c)\<lparr>status := free, nextTask := freeTasks m\<rparr>]"
    using assms(1,2,3,5) s'(1) by (simp add: destroy_def task_free_def Let_def)
  then show ?thesis using s'(2,3) by blast
qed

text \<open>A page fault of user code ends the current task and no other one.\<close>

lemma page_fault_kills_only_current:
  assumes "kernel_ok m" "current m = Some c" "user_frame tf" "trapType tf = T_pageFault"
    and "pageDir (tasks m ! c) = toPhy d + KERNBASE" "owned_inv (vm m) d fl" "\<not> kernelPageDir (vm m) < KERNBASE"
  shows "\<exists>m' fl'. trap False va tf m = Some (Inr (Monitor NullFrame m')) \<and> current m' = None
    \<and> cr3 m' = kernelPageDir (vm m) - KERNBASE \<and> io m' = io m
    \<and> freeTasks m' = Some c \<and> status (tasks m' ! c) = free \<and> nextTask (tasks m' ! c) = freeTasks m
    \<and> (\<forall>i. i \<noteq> c \<longrightarrow> tasks m' ! i = tasks m ! i)
    \<and> alloc_inv (vm m') fl' \<and> set fl' = set fl \<union> owned (vm m) d"
proof -
  note t = kernel_ok_task [OF assms(1,2)]
  have cs: "cs tf AND 3 = 3" using assms(3) by (simp add: user_frame_def)
  let ?m1 = "kprint ''[%08x] Back to kernel: Trap [%s]'' [Num (taskId (tasks m ! c)), Str (describe (trapType tf))]
    (set_task c ((tasks m ! c)\<lparr>trapFrame := tf\<rparr>) m)"
  have e: "enter tf m = Inr (TaskFrame c, ?m1)"
    using cs assms(2,4) t by (simp add: enter_def current_task_def Let_def T_pageFault_def T_syscall_def)
  have d: "\<exists>m' fl'. destroy c True (kprint f args ?m1) = Inr m' \<and> current m' = None \<and> cr3 m' = kernelPageDir (vm m) - KERNBASE \<and> io m' = io m
    \<and> freeTasks m' = Some c \<and> tasks m' = (tasks m)[c := (tasks m ! c)\<lparr>trapFrame := tf, status := free, nextTask := freeTasks m\<rparr>]
    \<and> alloc_inv (vm m') fl' \<and> set fl' = set fl \<union> owned (vm m) d" for f args
    using destroy_current [of c "kprint f args ?m1" d fl True] assms(2,5,6,7) t by simp
  have p: "\<exists>f args. pageFault va tf ?m1 = bindE (destroy c True (kprint f args ?m1)) (\<lambda>m'. Inr (InMonitor NullFrame m'))"
    using cs assms(2) t by (simp add: pageFault_def current_task_def task_at_def Let_def) blast
  obtain m' fl' where m': "pageFault va tf ?m1 = Inr (InMonitor NullFrame m')" "current m' = None"
      "cr3 m' = kernelPageDir (vm m) - KERNBASE" "io m' = io m" "freeTasks m' = Some c"
      "tasks m' = (tasks m)[c := (tasks m ! c)\<lparr>trapFrame := tf, status := free, nextTask := freeTasks m\<rparr>]"
      "alloc_inv (vm m') fl'" "set fl' = set fl \<union> owned (vm m) d"
    using p d by force
  have "trap False va tf m = Some (Inr (Monitor NullFrame m'))"
    using assms(4) m'(1) by (simp add: trap_def e dispatch_def)
  then show ?thesis using m'(2-) t by (intro exI [of _ m'] exI [of _ fl']) simp
qed

lemma small_setup_dir:
  assumes "setup_memory small_vm = Inr (p, s)"
  shows "kernelPageDir s = toPhy 1 + KERNBASE"
proof -
  have "user_part_empty small_vm 1" "kernelPageDir small_vm = toPhy 1 + KERNBASE" by (simp_all add: user_part_empty_def)
  from setup_memory_ok [OF small_vm_inv small_dir this(2,1)] assms \<open>kernelPageDir small_vm = _\<close> show ?thesis by auto
qed

lemma page_fault_kills_only_current_example:
  "\<exists>s m' fl'. setup_memory small_vm = Inr (Some (toPhy 3 + KERNBASE), s)
     \<and> trap False 0x1234 (new_frame\<lparr>trapType := T_pageFault\<rparr>) (one_task s (toPhy 3 + KERNBASE)) = Some (Inr (Monitor NullFrame m'))
     \<and> freeTasks m' = Some 0 \<and> alloc_inv (vm m') fl' \<and> set fl' = {3, 4, 5, 6, 7}"
proof -
  obtain s where s: "setup_memory small_vm = Inr (Some (toPhy 3 + KERNBASE), s)" "owned_inv s 3 [4, 5, 6, 7]" "owned s 3 = {3}"
    by (rule small_setup)
  have k: "\<not> kernelPageDir s < KERNBASE"
    using small_setup_dir [OF s(1)] by (simp add: toPhy_def KERNBASE_def)
  have u: "user_frame (new_frame\<lparr>trapType := T_pageFault\<rparr>)"
    using new_frame_user by (simp add: user_frame_def)
  show ?thesis
    using page_fault_kills_only_current [OF one_task_ok, of s "toPhy 3 + KERNBASE" 0 "new_frame\<lparr>trapType := T_pageFault\<rparr>" 3 "[4, 5, 6, 7]" "0x1234"]
      s u k by auto
qed

text \<open>
  C33: System calls that return. The task continues with its own frame, in which \<open>eax\<close> holds the result
  and nothing else has changed: zero after \<open>putChar\<close>, which writes its argument to the console unless
  the low byte is zero, the sign-extended key after \<open>getChar\<close>, and zero for a number that is no system
  call.
\<close>

definition with_eax :: "u32 \<Rightarrow> Frame \<Rightarrow> Frame" where
  "with_eax v f = f\<lparr>regs := (regs f)\<lparr>eax := v\<rparr>\<rparr>"

definition saved :: "nat \<Rightarrow> Frame \<Rightarrow> machine \<Rightarrow> machine" where
  "saved c f m = set_task c ((tasks m ! c)\<lparr>trapFrame := f\<rparr>) m"

lemma syscall_trap:
  assumes ok: "kernel_ok m" "current m = Some c" "user_frame tf" "trapType tf = T_syscall"
    and s: "ksyscall_main (eax (regs tf)) (edx (regs tf)) (ecx (regs tf)) (saved c tf m) = Some (Inr (Return v ((saved c tf m)\<lparr>io := x\<rparr>)))"
  shows "trap False va tf m = Some (Inr (Resume (with_eax v tf) ((saved c (with_eax v tf) m)\<lparr>io := x\<rparr>)))"
proof -
  note t = kernel_ok_task [OF ok(1,2)]
  have e: "enter tf m = Inr (TaskFrame c, saved c tf m)"
    using ok t by (simp add: enter_def current_task_def Let_def user_frame_def saved_def)
  have p: "T_syscall \<noteq> T_pageFault" by (simp add: T_syscall_def T_pageFault_def)
  have x: "set_eax (TaskFrame c) v ((saved c tf m)\<lparr>io := x\<rparr>) = Inr ((saved c (with_eax v tf) m)\<lparr>io := x\<rparr>)"
    using t by (simp add: set_eax_def saved_def with_eax_def set_task_def task_at_def)
  have r: "run c False ((saved c (with_eax v tf) m)\<lparr>io := x\<rparr>) = Inr (with_eax v tf, (saved c (with_eax v tf) m)\<lparr>io := x\<rparr>)"
    using ok(2) t by (simp add: run_def saved_def task_at_def)
  have d: "dispatch va (TaskFrame c) tf (saved c tf m) = Some (Inr (Returned ((saved c (with_eax v tf) m)\<lparr>io := x\<rparr>)))"
    using ok(4) p s x by (simp add: dispatch_def syscall_def bindO_def)
  have cur: "current ((saved c (with_eax v tf) m)\<lparr>io := x\<rparr>) = Some c" using ok(2) by (simp add: saved_def)
  show ?thesis using ok(4) cur r by (simp add: trap_def e d bindO_def)
qed

theorem syscall_returns:
  assumes "kernel_ok m" "current m = Some c" "user_frame tf" "trapType tf = T_syscall"
  shows "(eax (regs tf) = num_code putChar \<longrightarrow> trap False va tf m = Some (Inr (Resume (with_eax 0 tf)
      ((saved c (with_eax 0 tf) m)\<lparr>io := if edx (regs tf) AND 0xff \<noteq> 0 then kput (edx (regs tf)) (io m) else io m\<rparr>))))
    \<and> (eax (regs tf) = num_code getChar \<and> kget (io m) = Some (ch, io') \<longrightarrow> trap False va tf m =
      Some (Inr (Resume (with_eax (word_of_int (as_char ch)) tf) ((saved c (with_eax (word_of_int (as_char ch)) tf) m)\<lparr>io := io'\<rparr>))))
    \<and> (3 < eax (regs tf) \<longrightarrow> trap False va tf m = Some (Inr (Resume (with_eax 0 tf) (saved c (with_eax 0 tf) m))))"
proof (intro conjI impI)
  note call = syscall_trap [OF assms]
  have io: "io (saved c tf m) = io m" "(saved c tf m)\<lparr>io := io m\<rparr> = saved c tf m"
    "(saved c (with_eax 0 tf) m)\<lparr>io := io m\<rparr> = saved c (with_eax 0 tf) m"
    by (simp_all add: saved_def set_task_def)
  show "trap False va tf m = Some (Inr (Resume (with_eax 0 tf)
      ((saved c (with_eax 0 tf) m)\<lparr>io := if edx (regs tf) AND 0xff \<noteq> 0 then kput (edx (regs tf)) (io m) else io m\<rparr>)))"
    if "eax (regs tf) = num_code putChar"
    by (rule call) (use that io in \<open>simp add: ksyscall_main_def sys_putChar_def out_putChar_def\<close>)
  show "trap False va tf m =
      Some (Inr (Resume (with_eax (word_of_int (as_char ch)) tf) ((saved c (with_eax (word_of_int (as_char ch)) tf) m)\<lparr>io := io'\<rparr>)))"
    if "eax (regs tf) = num_code getChar \<and> kget (io m) = Some (ch, io')"
    by (rule call) (use that io in \<open>simp add: ksyscall_main_def sys_getChar_def\<close>)
  show "trap False va tf m = Some (Inr (Resume (with_eax 0 tf) (saved c (with_eax 0 tf) m)))" if "3 < eax (regs tf)"
  proof -
    have "eax (regs tf) \<noteq> 0" "eax (regs tf) \<noteq> 1" "eax (regs tf) \<noteq> 2" "eax (regs tf) \<noteq> 3" using that by auto
    then have "ksyscall_main (eax (regs tf)) (edx (regs tf)) (ecx (regs tf)) (saved c tf m) = Some (Inr (Return 0 ((saved c tf m)\<lparr>io := io m\<rparr>)))"
      by (simp add: ksyscall_main_def io)
    from call [OF this] show ?thesis unfolding io .
  qed
qed

definition putchar_frame :: Frame where
  "putchar_frame = new_frame\<lparr>trapType := T_syscall, regs := (regs new_frame)\<lparr>edx := 65\<rparr>\<rparr>"

theorem syscall_returns_witness:
  "\<exists>m'. trap False 0 putchar_frame (one_task small_vm 0xE0003000) = Some (Inr (Resume putchar_frame m')) \<and> io m' = kput 65 typed_line"
proof -
  have f: "user_frame putchar_frame" "trapType putchar_frame = T_syscall" "eax (regs putchar_frame) = num_code putChar"
    "edx (regs putchar_frame) = 65" "with_eax 0 putchar_frame = putchar_frame"
    using new_frame_user by (simp_all add: putchar_frame_def user_frame_def with_eax_def new_frame_def frame_clear_def)
  show ?thesis using syscall_returns [OF one_task_ok, of small_vm "0xE0003000" 0 putchar_frame 0 0 typed_line] f by simp
qed

text \<open>
  C34: Writing a string for user code. Once the pointer check accepts, \<open>putString\<close> writes all \<open>count\<close>
  characters in order and returns zero if every byte of them is mapped, and otherwise the kernel
  panics. Since the check is given \<open>count\<close> as a number of bytes, but reads \<open>2 * count\<close> of them, user code
  can bring the kernel down with a string that ends on the last page of a region.
\<close>

definition readable :: "machine \<Rightarrow> u32 \<Rightarrow> bool" where
  "readable m va \<longleftrightarrow> mmu_walk (kmem (vm m)) (cr3 m + KERNBASE) va \<noteq> None"

definition byte_at :: "machine \<Rightarrow> u32 \<Rightarrow> u8" where
  "byte_at m va = kmem (vm m) (the (mmu_walk (kmem (vm m)) (cr3 m + KERNBASE) va))"

definition char16 :: "machine \<Rightarrow> u32 \<Rightarrow> u16" where
  "char16 m va = ucast (byte_at m va) OR push_bit 8 (ucast (byte_at m (va + 1)))"

lemma user_load16_result:
  "user_load16 va m = (if readable m va \<and> readable m (va + 1) then Inr (char16 m va) else Inl (Panic ''Unhandled page fault from kernel''))"
  by (auto simp: user_load16_def user_load8_def readable_def char16_def byte_at_def split: option.splits)

lemma readable_io [simp]: "readable (m\<lparr>io := x\<rparr>) = readable m" "char16 (m\<lparr>io := x\<rparr>) = char16 m"
  by (simp_all add: fun_eq_iff readable_def char16_def byte_at_def)

lemma putString_loop_result:
  "putString_loop str n m =
     (if \<forall>k<n. readable m (str + 2 * of_nat k) \<and> readable m (str + 2 * of_nat k + 1)
      then Inr (m\<lparr>io := fold (\<lambda>k. kput (ucast (char16 m (str + 2 * of_nat k)))) [0..<n] (io m)\<rparr>)
      else Inl (Panic ''Unhandled page fault from kernel''))"
proof (induction n arbitrary: str m)
  case (Suc n)
  let ?r = "\<lambda>str k. readable m (str + 2 * of_nat k) \<and> readable m (str + 2 * of_nat k + 1)"
  have sh: "str + 2 + 2 * of_nat k = str + 2 * of_nat (Suc k)" for k :: nat by (simp add: algebra_simps)
  have all: "(\<forall>k<Suc n. ?r str k) \<longleftrightarrow> ?r str 0 \<and> (\<forall>k<n. ?r (str + 2) k)"
    unfolding sh by (auto simp: less_Suc_eq_0_disj simp del: of_nat_Suc)
  show ?case
  proof (cases "?r str 0")
    case False
    then have "putString_loop str (Suc n) m = Inl (Panic ''Unhandled page fault from kernel'')"
      by (auto simp: user_load16_result)
    then show ?thesis unfolding all using False by auto
  next
    case True
    let ?m = "m\<lparr>io := kput (ucast (char16 m str)) (io m)\<rparr>"
    have f: "fold (\<lambda>k. kput (ucast (char16 m (str + 2 * of_nat k)))) [0..<Suc n] (io m)
        = fold (\<lambda>k. kput (ucast (char16 m (str + 2 + 2 * of_nat k)))) [0..<n] (io ?m)"
      unfolding upt_conv_Cons [OF zero_less_Suc] map_Suc_upt [symmetric] fold_simps fold_map sh by (simp add: comp_def)
    have "putString_loop str (Suc n) m = putString_loop (str + 2) n ?m"
      using True by (simp add: user_load16_result out_putChar_def)
    then show ?thesis unfolding all f Suc.IH using True by simp
  qed
qed simp

theorem putString_result:
  assumes "current m = Some c" "c < length (tasks m)" "userCheck (pageDir (tasks m ! c)) str count PTE_U (vm m) = Some (Inr True)"
  shows "sys_putString str count m = Some
     (if \<forall>k<unat count. readable m (str + 2 * of_nat k) \<and> readable m (str + 2 * of_nat k + 1)
      then Inr (Return 0 (m\<lparr>io := fold (\<lambda>k. kput (ucast (char16 m (str + 2 * of_nat k)))) [0..<unat count] (io m)\<rparr>))
      else Inl (Panic ''Unhandled page fault from kernel''))"
  using assms by (simp add: sys_putString_def putString_loop_result task_at_def)

theorem putString_result_witness:
  "userCheck (toPhy 1 + KERNBASE) 0x800FFC 3 PTE_U mapped_vm = Some (Inr True)
   \<and> sys_putString 0x800FFC 3 (one_task mapped_vm (toPhy 1 + KERNBASE)) = Some (Inl (Panic ''Unhandled page fault from kernel''))"
proof -
  let ?m = "one_task mapped_vm (toPhy 1 + KERNBASE)"
  have acc: "accepts mapped_vm 1 PTE_U 0x800FFC"
    by (simp add: accepts_def mmu_consts entry_def lookup_def put_apply unat_PTX unat_PDX)
  have z: "k = 0" if "4096 * k < 3" for k :: nat using that by simp
  then have chk: "userCheck (toPhy 1 + KERNBASE) 0x800FFC 3 PTE_U mapped_vm = Some (Inr True)"
    unfolding userCheck_result [OF mapped_inv mapped_dir] using acc by (auto simp: page_off_def dest: z)
  have d: "load32 (kmem mapped_vm) (toPhy 1 + KERNBASE + 4 * PDX 0x801000) = 7"
    using load_slot [of 1 2 "kmem mapped_vm"] by (simp add: slot_def put_apply PDX_def)
  have p: "load32 (kmem mapped_vm) (PTE_ADDR 7 + KERNBASE + 4 * PTX 0x801000) = 0"
    using load_slot [of 0 1 "kmem mapped_vm"] by (simp add: slot_def put_apply PTX_def PTE_ADDR_def toPhy_def)
  have "\<not> readable ?m 0x801000"
    by (simp add: readable_def mmu_walk_def Let_def d p PTE_P_def del: One_nat_def)
  moreover have "(0x800FFC :: u32) + 2 * of_nat 2 = 0x801000" by simp
  ultimately have "\<not> readable ?m (0x800FFC + 2 * of_nat 2)" by metis
  then have "\<not> (\<forall>k<unat (3 :: u32). readable ?m (0x800FFC + 2 * of_nat k) \<and> readable ?m (0x800FFC + 2 * of_nat k + 1))"
    by (intro notI) (drule spec [of _ 2], simp)
  then show ?thesis
    using putString_result [of ?m 0 "0x800FFC" 3] chk by simp
qed

end
