(* ===== verification/MonitorProps.thy ===== *)
theory MonitorProps
  imports Trap
begin

text \<open>
  What the monitor does with a line, when the display of the memory map ends, and the descriptor
  tables that the kernel installs.
\<close>

section \<open>Execution of a line\<close>

definition same_name :: "u8 list \<Rightarrow> Command \<Rightarrow> bool" where
  "same_name w c \<longleftrightarrow> map lower w = map lower (bytes (cmd c))"

lemma find_command_ok:
  assumes "cstr k p w" "\<forall>c\<in>set cl. cstr k (lit (cmd c)) (bytes (cmd c))"
  shows "find_command lit k p cl = Some (map_option func (find (same_name w) cl))"
  using assms(2)
proof (induction cl)
  case (Cons c cl)
  have c: "cstr k (lit (cmd c)) (bytes (cmd c))" using Cons.prems by simp
  have "cmpCase_spec w (bytes (cmd c)) = 0 \<longleftrightarrow> same_name w c"
    unfolding same_name_def by (rule cmpCase_spec_zero [OF cstr_nonzero [OF assms(1)] cstr_nonzero [OF c]])
  then show ?case using Cons by (simp add: str_cmpCase_ok [OF assms(1) c])
qed simp

definition run_line ::
  "(string \<Rightarrow> u32) \<Rightarrow> u32 \<Rightarrow> u8 list \<Rightarrow> u8 list list \<Rightarrow> u32 list \<Rightarrow> frame_ptr \<Rightarrow> machine \<Rightarrow> cmd_result outcome option" where
  "run_line lit binary name ws argv tf m =
     (if length ws = 17 then Some (Inr (Back tooManyArgs m))
      else if ws = [] then Some (Inl (Fault ''argv[0]''))
      else case find (same_name (ws ! 0)) commands of
          None \<Rightarrow> Some (Inr (Back badCommand m))
        | Some c \<Rightarrow> run_command lit binary name (func c) (take (length ws) argv) tf m)"

text \<open>
  C35: What the monitor does with a line. The line is cut at white space into at most seventeen words;
  with seventeen nothing runs and the result is \<open>tooManyArgs\<close>, an unknown first word gives
  \<open>badCommand\<close>, and otherwise exactly the command whose name is the first word up to the case of
  letters runs, with pointers to the words as its arguments. A line of white space only makes the
  monitor dereference a null pointer; \<open>badSyntax\<close> never occurs.
\<close>

theorem parseCmd_runs:
  assumes "cstr (kmem (vm m)) line xs" "0 < unat line \<and> unat line + length xs \<le> 4294967296" "cstr (kmem (vm m)) ws WHITESPACE" "apart line (length xs) ws (Suc (length WHITESPACE))"
    and "\<forall>c\<in>set commands. cstr (kmem (vm m)) (lit (cmd c)) (bytes (cmd c)) \<and> apart line (length xs) (lit (cmd c)) (Suc (length (cmd c)))"
  defines "ps \<equiv> pieces isWhiteSpace 17 xs"
  shows "\<exists>k argv. (\<forall>i<length ps. cstr k (argv ! i) (ps ! i)) \<and> length argv = 18
    \<and> (\<forall>a. \<not> unat (a - line) < length xs \<longrightarrow> k a = kmem (vm m) a)
    \<and> parseCmd lit ws binary name line tf m = run_line lit binary name ps argv tf (m\<lparr>vm := (vm m)\<lparr>kmem := k\<rparr>\<rparr>)"
proof -
  have n: "unat (of_nat (MAX_ARGS + 2) :: u32) = 17 + 1" "length (replicate (MAX_ARGS + 2) (0 :: u32)) = 17 + 1" "(17 :: nat) < 2147483648"
    by (simp_all add: MAX_ARGS_def)
  have nz: "line \<noteq> 0" using assms(2) by auto
  obtain k argv where s: "str_splitWs ws (kmem (vm m)) line (replicate (MAX_ARGS + 2) 0) (of_nat (MAX_ARGS + 2)) = Some (int (length ps), k, argv)"
    and a: "argv ! length ps = 0" "length argv = 17 + 1" "\<forall>i<length ps. cstr k (argv ! i) (ps ! i) \<and> unat (argv ! i - line) < length xs"
      "\<forall>a. \<not> unat (a - line) < length xs \<longrightarrow> k a = kmem (vm m) a"
    using splitWs_ok [OF assms(1) nz assms(3,4) n] unfolding ps_def by blast
  let ?m = "m\<lparr>vm := (vm m)\<lparr>kmem := k\<rparr>\<rparr>"
  have lit: "\<forall>c\<in>set commands. cstr k (lit (cmd c)) (bytes (cmd c))"
  proof
    fix c assume c: "c \<in> set commands"
    have "kmem (vm m) (lit (cmd c) + of_nat i) = k (lit (cmd c) + of_nat i)" if "i \<le> length (bytes (cmd c))" for i
    proof -
      have l: "cstr (kmem (vm m)) (lit (cmd c)) (bytes (cmd c))" "apart line (length xs) (lit (cmd c)) (Suc (length (cmd c)))"
        using assms(5) c by blast+
      have "unat (lit (cmd c) + of_nat i - lit (cmd c)) < Suc (length (cmd c))"
        using that cstr_length [OF l(1)] by (simp add: bytes_def unat_of_nat32)
      then show ?thesis using l(2) a(4) unfolding apart_def by metis
    qed
    with cstr_cong [of "bytes (cmd c)" "kmem (vm m)" "lit (cmd c)" k] show "cstr k (lit (cmd c)) (bytes (cmd c))" using assms(5) c by blast
  qed
  have pe: "parseCmd lit ws binary name line tf m =
     (if int (length ps) = int MAX_ARGS + 1 then Some (Inr (Back tooManyArgs ?m))
      else if int (length ps) = -1 then Some (Inr (Back badSyntax ?m))
      else if argv ! 0 = 0 then Some (Inl (Fault ''argv[0]''))
      else (case find_command lit k (argv ! 0) commands of None \<Rightarrow> None
        | Some None \<Rightarrow> Some (Inr (Back badCommand ?m))
        | Some (Some f) \<Rightarrow> run_command lit binary name f (take (nat (int (length ps))) argv) tf ?m))"
    by (simp only: parseCmd_def s option.case prod.case Let_def)
  have "parseCmd lit ws binary name line tf m = run_line lit binary name ps argv tf ?m"
  proof (cases "length ps = 17 \<or> ps = []")
    case True
    then show ?thesis using a(1) unfolding pe by (auto simp: run_line_def MAX_ARGS_def)
  next
    case False
    then have w: "cstr k (argv ! 0) (ps ! 0)" "unat (argv ! 0 - line) < length xs" using a(3) by simp_all
    have "argv ! 0 \<noteq> 0"
    proof
      assume "argv ! 0 = 0"
      then have "unat (line + (argv ! 0 - line)) = 0" by simp
      moreover have "unat line + unat (argv ! 0 - line) < 4294967296" using assms(2) w(2) by simp
      ultimately show False using assms(2) unat_word_ariths(1) [of line "argv ! 0 - line"] by (simp only: mod_less) simp
    qed
    moreover have "int (length ps) \<noteq> 17" "int (length ps) \<noteq> - 1" "\<not> length ps = 17" "ps \<noteq> []" using False by simp_all
    ultimately show ?thesis unfolding pe
      by (simp add: run_line_def MAX_ARGS_def find_command_ok [OF w(1) lit] split: option.split)
  qed
  then show ?thesis using a(2-4) by (intro exI [of _ k] exI [of _ argv]) simp
qed

definition demo_machine :: "mem \<Rightarrow> machine" where
  "demo_machine k = \<lparr>vm = small_vm\<lparr>kmem := k\<rparr>, tasks = [], freeTasks = None, current = None, cr3 = 0x1000, rnd = 1,
     io = typed_line, klog = []\<rparr>"

text \<open>Strings on pages of their own, for concrete memories.\<close>

definition page_mem :: "u8 list list \<Rightarrow> mem" where
  "page_mem xss a = (let i = unat a div 4096; j = unat a mod 4096 in
     if i < length xss \<and> j < length (xss ! i) then xss ! i ! j else 0)"

lemma page_mem_cstr:
  assumes "i < length xss" "length (xss ! i) < 4096" "0 \<notin> set (xss ! i)" "length xss < 1048576"
  shows "cstr (page_mem xss) (of_nat (4096 * i)) (xss ! i)"
proof -
  have u: "unat (of_nat (4096 * i) + of_nat j :: u32) = 4096 * i + j" if "j < 4096" for j
  proof -
    have "(of_nat (4096 * i) + of_nat j :: u32) = of_nat (4096 * i + j)" by simp
    then show ?thesis using assms(1,4) that by (simp only: unat_of_nat32)
  qed
  have "page_mem xss (of_nat (4096 * i) + of_nat j) = (if j < length (xss ! i) then xss ! i ! j else 0)" if "j < 4096" for j
    unfolding page_mem_def Let_def u [OF that] using assms(1) that by simp
  then show ?thesis using assms by (auto simp: cstr_def intro!: seg_list)
qed

section \<open>The memory map display\<close>

lemma show_loop_ends:
  "show_loop dir hi va m = Some r \<Longrightarrow> r = Inr m' \<Longrightarrow> unat va mod 4096 = 0 \<Longrightarrow> hi < 0xFFFFF000"
proof (induction dir hi va m r rule: show_loop.raw_induct [rotated, consumes 1])
  case (1 loop dir hi va m r)
  show ?case
  proof (cases "va \<le> hi")
    case True
    then obtain m1 where l: "loop dir hi (va + PGSIZE) m1 = Some r" using 1(2,3) by (auto split: sum.splits)
    have "unat (va + PGSIZE) mod 4096 = 0"
      using 1(4) by (simp add: unat_word_ariths PGSIZE_def mod_mod_cancel)
    then show ?thesis by (rule 1(1) [OF l 1(3)])
  next
    case False
    have "unat va div 4096 < 1048576" using unat_lt_2p32 [of va] by simp
    moreover have "unat va = 4096 * (unat va div 4096)" using 1(4) mult_div_mod_eq [of 4096 "unat va"] by linarith
    ultimately have "unat va \<le> 4294963200" by linarith
    then show ?thesis using False by (simp add: word_less_nat_alt word_le_nat_alt)
  qed
qed

text \<open>
  C36: The memory map display of a range that reaches into the last page of the address space never
  completes: the loop's address wraps around to zero, so the monitor does not come back.
\<close>

theorem vm_show_top_never_returns:
  assumes "0xFFFFF000 \<le> endV"
  shows "\<not> (\<exists>m'. vm_show dir beginV endV m = Some (Inr m'))"
proof
  assume "\<exists>m'. vm_show dir beginV endV m = Some (Inr m')"
  then obtain m' where m': "vm_show dir beginV endV m = Some (Inr m')" by blast
  have "unat (ROUNDDOWN beginV PGSIZE) mod 4096 = 0" by (simp add: unat_ROUNDDOWN PGSIZE_def)
  then have "ROUNDDOWN endV PGSIZE < 0xFFFFF000" by (rule show_loop_ends [OF m' [unfolded vm_show_def] refl])
  moreover have "4294963200 \<le> unat endV div 4096 * 4096" using assms by (simp add: word_le_nat_alt)
  ultimately show False by (simp add: word_less_nat_alt unat_ROUNDDOWN PGSIZE_def)
qed

theorem vm_show_top_never_returns_witness:
  "\<not> (\<exists>m'. vm_show 0xE0001000 0xFFFFFFFF 0xFFFFFFFF (demo_machine (\<lambda>_. 0)) = Some (Inr m'))"
  by (rule vm_show_top_never_returns) simp

text \<open>A memory with a line, the white space characters and the command names, each on its own page.\<close>

definition demo_lit :: "string \<Rightarrow> u32" where
  "demo_lit s = (case map_of (zip (map cmd commands) [3..<19]) s of Some i \<Rightarrow> of_nat (4096 * i) | None \<Rightarrow> 0)"

definition demo_pages :: "u8 list \<Rightarrow> mem" where
  "demo_pages line = page_mem ([[], line, WHITESPACE] @ map (bytes \<circ> cmd) commands)"

lemma demo_pages_cstr:
  assumes "i < 19" "([[], line, WHITESPACE] @ map (bytes \<circ> cmd) commands) ! i = xs" "length xs < 4096" "0 \<notin> set xs"
  shows "cstr (demo_pages line) (of_nat (4096 * i)) xs"
proof -
  have "length ([[], line, WHITESPACE] @ map (bytes \<circ> cmd) commands) = 19" by (simp add: commands_def)
  then show ?thesis using page_mem_cstr [of i "[[], line, WHITESPACE] @ map (bytes \<circ> cmd) commands"] assms
    unfolding demo_pages_def by simp
qed

lemma demo_commands:
  assumes "c \<in> set commands" "length line < 4096"
  shows "cstr (demo_pages line) (demo_lit (cmd c)) (bytes (cmd c)) \<and> apart 0x1000 (length line) (demo_lit (cmd c)) (Suc (length (cmd c)))"
proof -
  have len: "length commands = 16" by (simp add: commands_def)
  obtain j where j: "j < 16" "c = commands ! j" using assms(1) len by (metis in_set_conv_nth)
  have "distinct (map cmd commands)" by (simp add: commands_def)
  then have "map_of (zip (map cmd commands) [3..<19]) (map cmd commands ! j) = Some ([3..<19] ! j)"
    using j(1) len by (intro map_of_zip_nth) (simp_all del: upt_rec_numeral)
  then have l: "demo_lit (cmd c) = of_nat (4096 * (3 + j))"
    using j len by (simp add: demo_lit_def del: upt_rec_numeral)
  have "\<forall>c\<in>set commands. length (cmd c) < 10 \<and> 0 \<notin> set (bytes (cmd c))" by (simp add: commands_def)
  then have c: "length (cmd c) < 10" "0 \<notin> set (bytes (cmd c))" using assms(1) by simp_all
  have "cstr (demo_pages line) (demo_lit (cmd c)) (bytes (cmd c))"
    unfolding l by (rule demo_pages_cstr) (use j c len in \<open>simp_all add: bytes_def nth_append\<close>)
  moreover have "unat (of_nat (4096 * (3 + j)) :: u32) = 4096 * (3 + j)" using j by (intro unat_of_nat32) simp
  then have "apart 0x1000 (length line) (demo_lit (cmd c)) (Suc (length (cmd c)))"
    unfolding l by (intro apartI) (use j c assms(2) in simp_all)
  ultimately show ?thesis ..
qed

lemma pieces_numeral:
  "pieces D (numeral k) xs = (let ys = dropWhile D xs in if ys = [] then []
     else (if pred_numeral k = 0 then ys else takeWhile (\<lambda>x. \<not> D x) ys) # pieces D (pred_numeral k) (dropWhile (\<lambda>x. \<not> D x) ys))"
  by (simp add: numeral_eq_Suc)

theorem parseCmd_runs_witness:
  "\<exists>k. parseCmd demo_lit 0x2000 0 [] 0x1000 NullFrame (demo_machine (demo_pages (bytes '' Fuck'')))
     = Some (Inr (Back fuck (demo_machine k)))"
proof -
  define l where "l = bytes '' Fuck''"
  let ?m = "demo_machine (demo_pages l)"
  have n: "length l = 5" "0 \<notin> set l" by (simp_all add: l_def)
  have k: "kmem (vm ?m) = demo_pages l" by (simp add: demo_machine_def)
  have line: "cstr (kmem (vm ?m)) 0x1000 l" unfolding k using demo_pages_cstr [of 1 l l] n by simp
  have ws: "cstr (kmem (vm ?m)) 0x2000 WHITESPACE"
    unfolding k using demo_pages_cstr [of 2 l WHITESPACE] by (simp add: WHITESPACE_def)
  have ap: "apart 0x1000 (length l) 0x2000 (Suc (length WHITESPACE))" by (intro apartI) (simp_all add: WHITESPACE_def n)
  have cmds: "\<forall>c\<in>set commands. cstr (kmem (vm ?m)) (demo_lit (cmd c)) (bytes (cmd c))
      \<and> apart 0x1000 (length l) (demo_lit (cmd c)) (Suc (length (cmd c)))"
    unfolding k using demo_commands [of _ l] n by simp
  have b: "0 < unat (0x1000 :: u32) \<and> unat (0x1000 :: u32) + length l \<le> 4294967296" by (simp add: n)
  have p: "pieces isWhiteSpace 17 l = [bytes ''Fuck'']"
    by (simp add: l_def pieces_numeral isWhiteSpace_iff WHITESPACE_def)
  have f: "find (same_name (bytes ''Fuck'')) commands = Some \<lparr>cmd = ''fuck'', desc = '''', func = Fuck, hide = True\<rparr>"
    by (simp add: commands_def same_name_def lower_def isCapital_def)
  have run: "run_line demo_lit 0 [] [bytes ''Fuck''] argv NullFrame (?m\<lparr>vm := (vm ?m)\<lparr>kmem := k'\<rparr>\<rparr>)
      = Some (Inr (Back fuck (demo_machine k')))" for argv k'
    by (simp add: run_line_def f run_command_def demo_machine_def del: bytes_simps)
  show ?thesis
    using parseCmd_runs [OF line b ws ap cmds, of 0 "[]" NullFrame] unfolding p run l_def [symmetric] by blast
qed

section \<open>Descriptor tables\<close>

lemma trap_init_nth:
  assumes "i < 256"
  shows "trap_init ivt ! i = (if i \<in> {1, 3, 88} then SETGATE True GD_KT (ivt i) 3 else SETGATE False GD_KT (ivt i) 0)"
  using assms by (auto simp: trap_init_def T_syscall_def T_breakpoint_def T_debug_def nth_list_update simp del: upt_rec_numeral)

text \<open>
  C37: The interrupt table. Every one of the 256 gates leads to its entry of \<open>ivt\<close> in the kernel's code
  segment, and that selector names a present, executable and readable segment of ring 0 that covers the
  whole address space; user code may enter exactly the debug, breakpoint and system call gates by an
  instruction, and exactly these leave interrupts as they are.
\<close>

theorem trap_init_gates:
  assumes "i < 256"
  shows "gate_offset (trap_init ivt ! i) = ivt i \<and> gd_sel (trap_init ivt ! i) = GD_KT \<and> gd_p (trap_init ivt ! i) = 1
    \<and> gd_dpl (trap_init ivt ! i) = (if i \<in> {1, 3, 88} then 3 else 0)
    \<and> gd_type (trap_init ivt ! i) = (if i \<in> {1, 3, 88} then 0xF else 0xE)
    \<and> (let s = gdt0 ! unat (drop_bit 3 (gd_sel (trap_init ivt ! i))) in
         sd_p s = 1 \<and> sd_dpl s = 0 \<and> sd_s s = 1 \<and> sd_type s = ucast (STA_X OR STA_R) \<and> seg_base s = 0 \<and> seg_limit s = 0xFFFFFFFF)"
proof -
  have "gd_sel (trap_init ivt ! i) = GD_KT" using assms by (simp add: trap_init_nth) (simp add: SETGATE_def)
  moreover have "let s = gdt0 ! unat (drop_bit 3 GD_KT) in
      sd_p s = 1 \<and> sd_dpl s = 0 \<and> sd_s s = 1 \<and> sd_type s = ucast (STA_X OR STA_R) \<and> seg_base s = 0 \<and> seg_limit s = 0xFFFFFFFF"
    by code_simp
  ultimately show ?thesis using assms by (simp add: trap_init_nth gate_offset_SETGATE) (simp add: SETGATE_def)
qed

theorem trap_init_gates_witness:
  "gd_dpl (trap_init (\<lambda>i. of_nat (16 * i)) ! 14) = 0 \<and> gate_offset (trap_init (\<lambda>i. of_nat (16 * i)) ! 88) = 1408"
  using trap_init_gates [of 14 "\<lambda>i. of_nat (16 * i)"] trap_init_gates [of 88 "\<lambda>i. of_nat (16 * i)"] by simp

text \<open>
  The segments. The code and data segments of both rings start at zero and cover the whole address
  space, code is not writable, and the privilege levels are those of the rings; the task state segment
  describes exactly the 104 bytes of \<open>kernelTS\<close>, whose stack for traps is the kernel's.
\<close>

theorem gdt_segments:
  "map (\<lambda>s. (seg_base s, seg_limit s, sd_p s, sd_dpl s, sd_type s)) (take 4 (drop 1 gdt0)) =
     [(0, 0xFFFFFFFF, 1, 0, 0xA), (0, 0xFFFFFFFF, 1, 0, 2), (0, 0xFFFFFFFF, 1, 3, 0xA), (0, 0xFFFFFFFF, 1, 3, 2)]
   \<and> seg_base (snd (initPerCpu ts tss gdt0) ! 5) = ts \<and> seg_limit (snd (initPerCpu ts tss gdt0) ! 5) = 103
   \<and> sd_s (snd (initPerCpu ts tss gdt0) ! 5) = 0 \<and> sd_dpl (snd (initPerCpu ts tss gdt0) ! 5) = 0
   \<and> ts_esp0 (fst (initPerCpu ts tss gdt0)) = KSTACKTOP \<and> ts_ss0 (fst (initPerCpu ts tss gdt0)) = GD_KD"
proof -
  have f: "sd_p (SEG t b l d) = 1" "sd_dpl (SEG t b l d) = ucast d" "sd_type (SEG t b l d) = ucast t" for t b l d
    by (simp_all add: SEG_def)
  have c: "STA_X OR STA_R = 0xA" "STA_W = 2" by (simp_all add: STA_X_def STA_R_def STA_W_def)
  have "take 4 (drop 1 gdt0) = [SEG 0xA 0 0xffffffff 0, SEG 2 0 0xffffffff 0, SEG 0xA 0 0xffffffff 3, SEG 2 0 0xffffffff 3]"
    by (simp add: gdt0_def c)
  moreover have t: "snd (initPerCpu ts tss gdt0) ! 5 = (SEG16 STS_T32A ts 103 0)\<lparr>sd_s := 0\<rparr>"
    by (simp add: initPerCpu_def gdt0_def GD_TSS0_def SIZEOF_TaskState_def)
  moreover have "seg_base (s\<lparr>sd_s := 0\<rparr>) = seg_base s" "seg_limit (s\<lparr>sd_s := 0\<rparr>) = seg_limit s" for s
    by (simp_all add: seg_base_def seg_limit_def)
  moreover have "seg_limit (SEG16 STS_T32A ts 103 0) = 103" by (rule seg_limit_SEG16) simp
  moreover have "sd_dpl (SEG16 STS_T32A ts 103 0) = 0" by (simp add: SEG16_def)
  ultimately show ?thesis by (simp add: seg_limit_SEG f) (simp add: initPerCpu_def)
qed

end
