(* ===== verification/Mp.thy ===== *)
theory Mp
  imports Trap
begin

text \<open>
  Multiprocessor detection and the local interrupt controller: \<open>kernel/mp.cc\<close>. The BIOS tables are
  read from memory; the controller's registers are memory-mapped, so that reads are inputs and writes are
  kept in a log. The address of the string literal \<open>s\<close> is \<open>lit s\<close>.
\<close>

section \<open>BIOS structures\<close>

record FPStruct =
  fp_signature :: "u8 list"
  configuration_table :: u32
  fp_length :: u8
  fp_revision :: u8
  fp_checksum :: u8
  default_configuration :: u8
  features :: u32

definition SIZEOF_FPStruct :: u32 where "SIZEOF_FPStruct = 16"

definition fp_at :: "mem \<Rightarrow> u32 \<Rightarrow> FPStruct" where
  "fp_at k a = \<lparr>fp_signature = load_bytes k a 4, configuration_table = load32 k (a + 4), fp_length = k (a + 8),
     fp_revision = k (a + 9), fp_checksum = k (a + 10), default_configuration = k (a + 11), features = load32 k (a + 12)\<rparr>"

record ConfTable =
  conf_signature :: "u8 list"
  conf_length :: u16
  conf_revision :: u8
  conf_checksum :: u8
  oem_id :: "u8 list"
  product_id :: "u8 list"
  oem_table :: u32
  oem_table_size :: u16
  entry_count :: u16
  lapic_address :: u32
  extended_table_length :: u16
  extended_table_checksum :: u8
  conf_reserved :: u8

definition SIZEOF_ConfTable :: u32 where "SIZEOF_ConfTable = 44"

definition conf_at :: "mem \<Rightarrow> u32 \<Rightarrow> ConfTable" where
  "conf_at k a = \<lparr>conf_signature = load_bytes k a 4, conf_length = load16 k (a + 4), conf_revision = k (a + 6),
     conf_checksum = k (a + 7), oem_id = load_bytes k (a + 8) 8, product_id = load_bytes k (a + 16) 12,
     oem_table = load32 k (a + 28), oem_table_size = load16 k (a + 32), entry_count = load16 k (a + 34),
     lapic_address = load32 k (a + 36), extended_table_length = load16 k (a + 40),
     extended_table_checksum = k (a + 42), conf_reserved = k (a + 43)\<rparr>"

record ProcessorAPIC =
  proc_type :: u8
  local_apic_id :: u8
  local_apic_version :: u8
  proc_flags :: u8
  proc_signature :: u32
  feature_flags :: u32
  proc_reserved :: "u32 \<times> u32"

definition SIZEOF_ProcessorAPIC :: u32 where "SIZEOF_ProcessorAPIC = 20"
definition MPPROC :: u8 where "MPPROC = 0"

definition proc_at :: "mem \<Rightarrow> u32 \<Rightarrow> ProcessorAPIC" where
  "proc_at k a = \<lparr>proc_type = k a, local_apic_id = k (a + 1), local_apic_version = k (a + 2), proc_flags = k (a + 3),
     proc_signature = load32 k (a + 4), feature_flags = load32 k (a + 8),
     proc_reserved = (load32 k (a + 12), load32 k (a + 16))\<rparr>"

section \<open>Search\<close>

primrec checksum_loop :: "mem \<Rightarrow> u32 \<Rightarrow> nat \<Rightarrow> u8 \<Rightarrow> u8" where
  "checksum_loop k addr 0 acc = acc"
| "checksum_loop k addr (Suc n) acc = checksum_loop k (addr + 1) n (acc + k addr)"

definition checksumOk :: "mem \<Rightarrow> u32 \<Rightarrow> u32 \<Rightarrow> bool" where
  "checksumOk k addr len \<longleftrightarrow> checksum_loop k addr (unat len) 0 = 0"

partial_function (option) search_loop :: "u32 \<Rightarrow> u32 \<Rightarrow> u32 \<Rightarrow> machine \<Rightarrow> (u32 option \<times> machine) outcome option" where
  "search_loop sig end addr m =
     (if addr < end then
        (case KERN_ADDR (vm m) addr of Inl e \<Rightarrow> Some (Inl e)
         | Inr fp \<Rightarrow>
           if mem_cmp (kmem (vm m)) fp sig 4 = 0 \<and> checksumOk (kmem (vm m)) fp SIZEOF_FPStruct
           then Some (Inr (Some fp, kprint ''  Found FPStruct at %p'' [Num fp] m))
           else search_loop sig end (addr + SIZEOF_FPStruct) m)
      else Some (Inr (None, m)))"

definition search :: "u32 \<Rightarrow> u32 \<Rightarrow> u32 \<Rightarrow> machine \<Rightarrow> (u32 option \<times> machine) outcome option" where
  "search sig addr len m = search_loop sig (addr + len) addr m"

definition or_else :: "(u32 option \<times> machine) outcome option \<Rightarrow> (machine \<Rightarrow> (u32 option \<times> machine) outcome option)
    \<Rightarrow> (u32 option \<times> machine) outcome option" where
  "or_else r f = bindO r (\<lambda>(fp, m). if fp \<noteq> None then Some (Inr (fp, m)) else f m)"

definition bdaSeg :: u32 where "bdaSeg = 0x40"

definition searchFP :: "(string \<Rightarrow> u32) \<Rightarrow> machine \<Rightarrow> (u32 option \<times> machine) outcome option" where
  "searchFP lit m =
     bindO (Some (KERN_ADDR (vm m) (push_bit 4 bdaSeg))) (\<lambda>bda.
     let ebdaSeg = load16 (kmem (vm m)) (bda + 0x0e); phy = ucast (load16 (kmem (vm m)) (bda + 0x13)) * 1024 in
     or_else (if ebdaSeg \<noteq> 0 then search (lit ''_MP_'') (push_bit 4 (ucast ebdaSeg)) 1024 m else Some (Inr (None, m))) (\<lambda>m.
     or_else (search (lit ''_MP_'') (phy - 1024) 1024 m) (\<lambda>m.
     search (lit ''_MP_'') 0xe0000 (0xfffff - 0xe0000) m)))"

section \<open>Processors\<close>

datatype CPUStatus = unused | started | halted

record CPUInfo =
  cpuId :: u8
  cpuStatus :: CPUStatus
  cpuCurrent :: "nat option"
  cpuTs :: TaskState

definition MAX_CPU_COUNT :: nat where "MAX_CPU_COUNT = 32"

text \<open>The variables of the component; a pointer into \<open>cpus\<close> is an index, \<open>lapicKern\<close> is 0 for the null pointer.\<close>

record mp =
  cpuCount :: nat
  cpus :: "CPUInfo list"
  bootstrapCPU :: "nat option"
  isMP :: bool
  lapicPhy :: u32
  lapicKern :: u32
  lapicLog :: "(nat \<times> u32) list"
  portLog :: "(u16 \<times> u8) list"

definition add_cpu :: "mem \<Rightarrow> u32 \<Rightarrow> mp \<times> machine \<Rightarrow> mp \<times> machine" where
  "add_cpu k entries st = (let (p, m) = st; proc = proc_at k entries; isBootstrap = proc_flags proc AND 0x02 \<noteq> 0; n = cpuCount p in
     if n < MAX_CPU_COUNT then
       (p\<lparr>cpus := (cpus p)[n := (cpus p ! n)\<lparr>cpuId := of_nat n\<rparr>],
          bootstrapCPU := if isBootstrap then Some n else bootstrapCPU p, cpuCount := n + 1\<rparr>,
        kprint '' %d%s'' [Num (ucast (local_apic_id proc)), Str (if isBootstrap then ''[B]'' else '''')] m)
     else st)"

primrec entries_loop :: "mem \<Rightarrow> nat \<Rightarrow> u32 \<Rightarrow> mp \<times> machine \<Rightarrow> mp \<times> machine" where
  "entries_loop k 0 entries st = st"
| "entries_loop k (Suc n) entries st =
     (if k entries = MPPROC then entries_loop k n (entries + SIZEOF_ProcessorAPIC) (add_cpu k entries st)
      else entries_loop k n (entries + 8) st)"

section \<open>Local interrupt controller\<close>

text \<open>
  What the registers return: \<open>dev_ID\<close> and \<open>dev_VER\<close> are constant, the command register \<open>ICRLO\<close> is polled
  until it is ready.
\<close>

record lapic_dev =
  dev_ID :: u32
  dev_VER :: u32
  dev_ICRLO :: "nat \<Rightarrow> u32"

definition R_TPR :: nat where "R_TPR = 0x0080 div 4"
definition R_EOI :: nat where "R_EOI = 0x00B0 div 4"
definition R_SVR :: nat where "R_SVR = 0x00F0 div 4"
definition R_ENABLE :: u32 where "R_ENABLE = 0x00000100"
definition R_ESR :: nat where "R_ESR = 0x0280 div 4"
definition R_ICRLO :: nat where "R_ICRLO = 0x0300 div 4"
definition R_INIT :: u32 where "R_INIT = 0x00000500"
definition R_STARTUP :: u32 where "R_STARTUP = 0x00000600"
definition R_DELIVS :: u32 where "R_DELIVS = 0x00001000"
definition R_ASSERT :: u32 where "R_ASSERT = 0x00004000"
definition R_LEVEL :: u32 where "R_LEVEL = 0x00008000"
definition R_BCAST :: u32 where "R_BCAST = 0x00080000"
definition R_OTHERS :: u32 where "R_OTHERS = 0x000C0000"
definition R_FIXED :: u32 where "R_FIXED = 0x00000000"
definition R_ICRHI :: nat where "R_ICRHI = 0x0310 div 4"
definition R_TIMER :: nat where "R_TIMER = 0x0320 div 4"
definition R_X1 :: u32 where "R_X1 = 0x0000000B"
definition R_PERIODIC :: u32 where "R_PERIODIC = 0x00020000"
definition R_PCINT :: nat where "R_PCINT = 0x0340 div 4"
definition R_LINT0 :: nat where "R_LINT0 = 0x0350 div 4"
definition R_LINT1 :: nat where "R_LINT1 = 0x0360 div 4"
definition R_ERROR :: nat where "R_ERROR = 0x0370 div 4"
definition R_MASKED :: u32 where "R_MASKED = 0x00010000"
definition R_TICR :: nat where "R_TICR = 0x0380 div 4"
definition R_TDCR :: nat where "R_TDCR = 0x03E0 div 4"

definition T_hwTimer :: u32 where "T_hwTimer = 32"
definition T_hwSpurious :: u32 where "T_hwSpurious = 39"
definition T_hwError :: u32 where "T_hwError = 51"

definition lapicw :: "nat \<Rightarrow> u32 \<Rightarrow> mp \<Rightarrow> mp outcome" where
  "lapicw idx v p = (if lapicKern p = 0 then Inl (Fault ''lapicKern'') else Inr (p\<lparr>lapicLog := (idx, v) # lapicLog p\<rparr>))"

text \<open>Writes in order.\<close>

definition lapicws :: "(nat \<times> u32) list \<Rightarrow> mp \<Rightarrow> mp outcome" where
  "lapicws ws = foldE (\<lambda>(idx, v). lapicw idx v) ws"

partial_function (option) wait_delivs :: "(nat \<Rightarrow> u32) \<Rightarrow> nat \<Rightarrow> nat option" where
  "wait_delivs reads i = (if reads i AND R_DELIVS \<noteq> 0 then wait_delivs reads (i + 1) else Some i)"

definition thisCPU :: "lapic_dev \<Rightarrow> mp \<Rightarrow> nat" where
  "thisCPU dev p = (if lapicKern p = 0 then 0 else unat (drop_bit 24 (dev_ID dev)))"

definition lapic_setup :: "lapic_dev \<Rightarrow> mp \<Rightarrow> (nat \<times> u32) list" where
  "lapic_setup dev p =
     [(R_SVR, R_ENABLE OR T_hwSpurious), (R_TDCR, R_X1), (R_TIMER, R_PERIODIC OR T_hwTimer), (R_TICR, 10000000)]
     @ (if Some (thisCPU dev p) \<noteq> bootstrapCPU p then [(R_LINT0, R_MASKED)] else [])
     @ [(R_LINT1, R_MASKED)]
     @ (if 4 \<le> drop_bit 16 (dev_VER dev) AND 0xFF then [(R_PCINT, R_MASKED)] else [])
     @ [(R_ERROR, T_hwError), (R_ESR, 0), (R_ESR, 0), (R_EOI, 0), (R_ICRHI, 0), (R_ICRLO, R_BCAST OR R_INIT OR R_LEVEL)]"

definition lapic_init :: "lapic_dev \<Rightarrow> mp \<times> machine \<Rightarrow> (mp \<times> machine) outcome option" where
  "lapic_init dev st = (let (p, m) = st in
     if lapicPhy p = 0 then Some (Inr (p, m)) else
     bindO (mmioMap (lapicPhy p) 4096 (vm m)) (\<lambda>(va, s).
     let p1 = p\<lparr>lapicKern := va\<rparr>; m1 = m\<lparr>vm := s\<rparr> in
     bindO (Some (lapicws (lapic_setup dev p1) p1)) (\<lambda>p2.
     case wait_delivs (dev_ICRLO dev) 0 of None \<Rightarrow> None
     | Some _ \<Rightarrow> Some (bindE (lapicw R_TPR 0 p2) (\<lambda>p3. Inr (p3, m1))))))"

definition lapic_eoi :: "mp \<Rightarrow> mp outcome" where
  "lapic_eoi p = (if lapicKern p \<noteq> 0 then lapicw R_EOI 0 p else Inr p)"

definition lapic_ipi :: "lapic_dev \<Rightarrow> u32 \<Rightarrow> mp \<Rightarrow> mp outcome option" where
  "lapic_ipi dev vector p =
     bindO (Some (lapicw R_ICRLO (R_OTHERS OR R_FIXED OR vector) p)) (\<lambda>p1.
     map_option (\<lambda>_. Inr p1) (wait_delivs (dev_ICRLO dev) 0))"

definition IO_RTC :: u16 where "IO_RTC = 0x070"

definition startAP :: "u8 \<Rightarrow> u32 \<Rightarrow> mp \<times> machine \<Rightarrow> (mp \<times> machine) outcome" where
  "startAP apicid addr st = (let (p, m) = st; p1 = p\<lparr>portLog := (IO_RTC + 1, 0x0A) # (IO_RTC, 0xF) # portLog p\<rparr> in
     bindE (KERN_ADDR (vm m) (push_bit 4 0x40 OR 0x67)) (\<lambda>wrv.
     let m1 = m\<lparr>vm := (vm m)\<lparr>kmem := store16 (store16 (kmem (vm m)) wrv 0) (wrv + 2) (ucast (drop_bit 4 addr))\<rparr>\<rparr>;
         start = [(R_ICRHI, push_bit 24 (ucast apicid)), (R_ICRLO, R_STARTUP OR drop_bit 12 addr)] in
     bindE (lapicws ([(R_ICRHI, push_bit 24 (ucast apicid)), (R_ICRLO, R_INIT OR R_LEVEL OR R_ASSERT), (R_ICRLO, R_INIT OR R_LEVEL)]
       @ start @ start) p1) (\<lambda>p2. Inr (p2, m1))))"

section \<open>Initialisation\<close>

definition mp_init :: "(string \<Rightarrow> u32) \<Rightarrow> lapic_dev \<Rightarrow> mp \<times> machine \<Rightarrow> (mp \<times> machine) outcome option" where
  "mp_init lit dev st = (let (p, m) = st in
     bindO (searchFP lit (kprint ''Initializing multi-processor...'' [] m)) (\<lambda>(fp, m1).
     case fp of
       None \<Rightarrow> Some (Inr (p\<lparr>cpuCount := 1, cpus := (cpus p)[0 := (cpus p ! 0)\<lparr>cpuId := 0, cpuStatus := started\<rparr>],
           bootstrapCPU := Some 0\<rparr>, kprint ''No multi-processor support.'' [] m1))
     | Some a \<Rightarrow>
       let k = kmem (vm m1) in
       bindO (Some (KERN_ADDR (vm m1) (configuration_table (fp_at k a)))) (\<lambda>conf.
       let c = conf_at k conf in
       bindO (Some (assertE ''conf != nullptr'' (conf \<noteq> 0))) (\<lambda>_.
       bindO (Some (assertE ''mem::cmp(conf->signature, PCMP, 4) == 0'' (mem_cmp k conf (lit ''PCMP'') 4 = 0))) (\<lambda>_.
       bindO (Some (assertE ''checksumOk(conf, conf->length)'' (checksumOk k conf (ucast (conf_length c))))) (\<lambda>_.
       bindO (Some (assertE ''extended checksum'' (checksumOk k (conf + ucast (conf_length c)) (ucast (extended_table_length c))))) (\<lambda>_.
       let m2 = kprint ''  Found CPU'' [] (kprint ''  MP Conf Table OEM: %s'' [Str (map (char_of \<circ> unat) (takeWhile (\<lambda>x. x \<noteq> 0) (oem_id c)))] m1);
           (p2, m3) = entries_loop k (unat (entry_count c)) (conf + SIZEOF_ConfTable) (p\<lparr>lapicPhy := lapic_address c\<rparr>, m2) in
       (case bootstrapCPU p2 of None \<Rightarrow> Some (Inl (Fault ''bootstrapCPU''))
        | Some b \<Rightarrow>
          let p3 = p2\<lparr>cpus := (cpus p2)[b := (cpus p2 ! b)\<lparr>cpuStatus := started\<rparr>], isMP := 1 < cpuCount p2\<rparr> in
          bindO (lapic_init dev (p3, m3)) (\<lambda>(p4, m4). Some (Inr (p4, kprint ''Done'' [] m4)))))))))))"

section \<open>Facts\<close>

lemma checksum_loop_sum: "checksum_loop k a n x = x + sum_list (load_bytes k a n)"
proof (induction n arbitrary: a x)
  case (Suc n)
  have "load_bytes k a (Suc n) = k a # load_bytes k (a + 1) n"
    unfolding load_bytes_def upt_conv_Cons [OF zero_less_Suc] map_Suc_upt [symmetric] by (simp add: comp_def add.assoc)
  then show ?case by (simp add: Suc add.assoc)
qed (simp add: load_bytes_def)

lemma checksumOk_sum: "checksumOk k a len \<longleftrightarrow> sum_list (load_bytes k a (unat len)) = 0"
  by (simp add: checksumOk_def checksum_loop_sum)

text \<open>The places between two addresses where the search looks, and what it looks for.\<close>

definition places :: "nat \<Rightarrow> nat \<Rightarrow> u32 list" where
  "places a e = map (\<lambda>i. of_nat (a + 16 * i) + KERNBASE) [0..<(e - a + 15) div 16]"

definition is_fp :: "mem \<Rightarrow> u32 \<Rightarrow> bool" where
  "is_fp k a \<longleftrightarrow> load_bytes k a 4 = bytes ''_MP_'' \<and> sum_list (load_bytes k a 16) = 0"

lemma places_end: "e \<le> a \<Longrightarrow> places a e = []"
  by (simp add: places_def)

lemma places_step:
  assumes "a < e"
  shows "places a e = (of_nat a + KERNBASE) # places (a + 16) e"
proof -
  have "(e - a + 15) div 16 = Suc ((e - (a + 16) + 15) div 16)"
  proof (cases "16 \<le> e - a")
    case True
    then obtain d where "e - a = d + 16" by (metis add.commute le_Suc_ex)
    moreover from this have "e - (a + 16) = d" by simp
    ultimately show ?thesis by simp
  next
    case False
    then have "e - (a + 16) = 0" by simp
    moreover have "(e - a + 15) div 16 = 1" using False assms by (intro div_nat_eqI) auto
    ultimately show ?thesis by simp
  qed
  then have "places a e = map (\<lambda>i. of_nat (a + 16 * i) + KERNBASE) (0 # map Suc [0..<(e - (a + 16) + 15) div 16])"
    unfolding places_def by (simp only: upt_conv_Cons [OF zero_less_Suc] map_Suc_upt)
  then show ?thesis unfolding places_def by (simp add: algebra_simps)
qed

lemma search_hit:
  assumes "cstr k sig (bytes ''_MP_'')"
  shows "mem_cmp k a sig 4 = 0 \<and> checksumOk k a SIZEOF_FPStruct \<longleftrightarrow> is_fp k a"
proof -
  have s: "k (sig + of_nat i) = bytes ''_MP_'' ! i" if "i < 4" for i
    using seg_nth [of k sig "bytes ''_MP_''" i] assms that by (simp add: cstr_def)
  have "mem_cmp k a sig 4 = 0 \<longleftrightarrow> (\<forall>i<4. k (a + of_nat i) = bytes ''_MP_'' ! i)"
    using s by (simp add: mem_cmp_zero)
  also have "\<dots> \<longleftrightarrow> load_bytes k a 4 = bytes ''_MP_''"
    by (simp add: list_eq_iff_nth_eq load_bytes_def del: upt_rec_numeral bytes_simps) (simp add: bytes_def)
  finally show ?thesis by (simp add: is_fp_def checksumOk_sum SIZEOF_FPStruct_def)
qed

definition found :: "u32 option \<Rightarrow> machine \<Rightarrow> machine" where
  "found fp m = (case fp of None \<Rightarrow> m | Some a \<Rightarrow> kprint ''  Found FPStruct at %p'' [Num a] m)"

lemma search_loop_ok:
  assumes sig: "cstr (kmem (vm m)) sig (bytes ''_MP_'')"
    and bound: "e + 15 < 4294967296" "e \<le> 4096 * unat (nPages (vm m))"
  shows "a \<le> e + 15 \<Longrightarrow> search_loop sig (of_nat e) (of_nat a) m
    = Some (Inr (find (is_fp (kmem (vm m))) (places a e), found (find (is_fp (kmem (vm m))) (places a e)) m))"
proof (induction "e - a" arbitrary: a rule: less_induct)
  case less
  have u: "unat (of_nat a :: u32) = a" "unat (of_nat e :: u32) = e" using less.prems bound(1) by (simp_all add: unat_of_nat32)
  show ?case
  proof (cases "a < e")
    case False
    then show ?thesis using u by (subst search_loop.simps) (simp add: word_less_nat_alt places_end found_def)
  next
    case True
    have "a div 4096 < unat (nPages (vm m))" using True bound(2) by (simp add: less_mult_imp_div_less)
    then have ka: "KERN_ADDR (vm m) (of_nat a) = Inr (of_nat a + KERNBASE)"
      using u by (auto simp: KERN_ADDR_def word_le_nat_alt unat_PGNUM)
    have next_addr: "(of_nat a :: u32) + SIZEOF_FPStruct = of_nat (a + 16)" by (simp add: SIZEOF_FPStruct_def)
    have IH: "search_loop sig (of_nat e) (of_nat (a + 16)) m = Some (Inr (find (is_fp (kmem (vm m))) (places (a + 16) e),
        found (find (is_fp (kmem (vm m))) (places (a + 16) e)) m))"
      by (rule less.hyps) (use True in auto)
    have lt: "(of_nat a :: u32) < of_nat e" using u True by (simp add: word_less_nat_alt)
    show ?thesis
      unfolding search_loop.simps [of sig "of_nat e" "of_nat a"] ka places_step [OF True] next_addr
      using lt IH search_hit [OF sig, of "of_nat a + KERNBASE"] by (simp add: found_def)
  qed
qed

lemma find_append: "find P (xs @ ys) = (case find P xs of None \<Rightarrow> find P ys | Some x \<Rightarrow> Some x)"
  by (induction xs) auto

lemma or_else_found:
  assumes "r1 = Some (Inr (find P xs, found (find P xs) m))" "\<And>n. n = m \<Longrightarrow> f n = Some (Inr (find P ys, found (find P ys) m))"
  shows "or_else r1 f = Some (Inr (find P (xs @ ys), found (find P (xs @ ys)) m))"
  using assms(2) [of m] by (cases "find P xs") (simp_all add: or_else_def assms(1) find_append found_def)

lemma search_ok:
  assumes "cstr (kmem (vm m)) sig (bytes ''_MP_'')" "a + n + 15 < 4294967296" "a + n \<le> 4096 * unat (nPages (vm m))"
    and "addr = of_nat a" "len = of_nat n"
  shows "search sig addr len m = Some (Inr (find (is_fp (kmem (vm m))) (places a (a + n)), found (find (is_fp (kmem (vm m))) (places a (a + n))) m))"
  using search_loop_ok [OF assms(1-3), of a] by (simp add: search_def assms(4,5))

text \<open>
  C39: The search for the BIOS's floating pointer structure returns, with at least 2 MB of memory, the
  first place at a multiple of 16 bytes in the three areas of the specification, in their order, where
  the signature stands and the sixteen bytes add up to zero, and the null pointer if there is none.
\<close>

theorem searchFP_finds:
  fixes m lit
  defines "k \<equiv> kmem (vm m)"
  defines "ebda \<equiv> unat (load16 k (KERNBASE + 0x40E))" and "base \<equiv> unat (load16 k (KERNBASE + 0x413))"
  assumes "cstr k (lit ''_MP_'') (bytes ''_MP_'')" "0x200 \<le> unat (nPages (vm m))" "1024 * base \<le> 4096 * unat (nPages (vm m))"
  defines "fp \<equiv> find (is_fp k) ((if ebda = 0 then [] else places (16 * ebda) (16 * ebda + 1024))
     @ (if base = 0 then [] else places (1024 * base - 1024) (1024 * base)) @ places 0xE0000 0xFFFFF)"
  shows "searchFP lit m = Some (Inr (fp, found fp m))"
proof -
  let ?sig = "lit ''_MP_''"
  note sig = assms(4) [unfolded k_def]
  have e: "ebda < 65536" "base < 65536" unfolding ebda_def base_def
    using unsigned_less [of "load16 k (KERNBASE + 0x40E)"] unsigned_less [of "load16 k (KERNBASE + 0x413)"] by simp_all
  have w: "ucast (load16 k (KERNBASE + 0x40E)) = (of_nat ebda :: u32)" "ucast (load16 k (KERNBASE + 0x413)) = (of_nat base :: u32)"
    by (simp_all add: ebda_def base_def)
  have z: "load16 k (KERNBASE + 0x40E) = 0 \<longleftrightarrow> ebda = 0" by (simp add: ebda_def unat_eq_zero)
  have bda: "KERN_ADDR (vm m) (push_bit 4 bdaSeg) = Inr (KERNBASE + 0x400)"
    using assms(5) by (auto simp: KERN_ADDR_def bdaSeg_def word_le_nat_alt unat_PGNUM)
  have a1: "(if load16 k (KERNBASE + 0x40E) \<noteq> 0 then search ?sig (push_bit 4 (ucast (load16 k (KERNBASE + 0x40E)))) 1024 m else Some (Inr (None, m)))
      = Some (Inr (find (is_fp k) (if ebda = 0 then [] else places (16 * ebda) (16 * ebda + 1024)),
          found (find (is_fp k) (if ebda = 0 then [] else places (16 * ebda) (16 * ebda + 1024))) m))"
  proof (cases "ebda = 0")
    case False
    have "push_bit 4 (of_nat ebda) = (of_nat (16 * ebda) :: u32)" by (simp add: push_bit_eq_mult)
    then show ?thesis unfolding z w using False search_ok [OF sig, of "16 * ebda" 1024] e assms(5) by (simp add: k_def)
  qed (simp add: z found_def)
  have a2: "search ?sig (ucast (load16 k (KERNBASE + 0x413)) * 1024 - 1024) 1024 m
      = Some (Inr (find (is_fp k) (if base = 0 then [] else places (1024 * base - 1024) (1024 * base)),
          found (find (is_fp k) (if base = 0 then [] else places (1024 * base - 1024) (1024 * base))) m))"
  proof (cases "base = 0")
    case True
    then show ?thesis by (simp add: w search_def search_loop.simps [of _ 0] found_def)
  next
    case False
    have o: "of_nat base * 1024 - 1024 = (of_nat (1024 * base - 1024) :: u32)" using False by (simp add: of_nat_diff mult.commute)
    have n: "1024 * base - 1024 + 1024 = 1024 * base" using False by simp
    show ?thesis unfolding w
      by (rule search_ok [OF sig _ _ o, of 1024 1024, unfolded n, folded k_def, THEN trans]) (use False e assms(6) in simp_all)
  qed
  have a3: "search ?sig 0xe0000 (0xfffff - 0xe0000) m
      = Some (Inr (find (is_fp k) (places 0xE0000 0xFFFFF), found (find (is_fp k) (places 0xE0000 0xFFFFF)) m))"
    using search_ok [OF sig, of "0xE0000" "0x1FFFF"] assms(5) by (simp add: k_def)
  have a: "(KERNBASE + 0x400) + 0x0e = KERNBASE + 0x40E" "(KERNBASE + 0x400) + 0x13 = KERNBASE + 0x413"
    by (simp_all add: KERNBASE_def)
  have "or_else (search ?sig (ucast (load16 k (KERNBASE + 0x413)) * 1024 - 1024) 1024 m)
        (\<lambda>m. search ?sig 0xe0000 (0xfffff - 0xe0000) m)
      = Some (Inr (find (is_fp k) ((if base = 0 then [] else places (1024 * base - 1024) (1024 * base)) @ places 0xE0000 0xFFFFF),
          found (find (is_fp k) ((if base = 0 then [] else places (1024 * base - 1024) (1024 * base)) @ places 0xE0000 0xFFFFF)) m))"
    by (rule or_else_found [OF a2]) (simp only: a3)
  from or_else_found [OF a1, of "\<lambda>m. or_else (search ?sig (ucast (load16 k (KERNBASE + 0x413)) * 1024 - 1024) 1024 m)
        (\<lambda>m. search ?sig 0xe0000 (0xfffff - 0xe0000) m)"] this
  show ?thesis unfolding searchFP_def bda bindO_simps Let_def k_def [symmetric] a fp_def by blast
qed

definition fp_bytes :: "u8 list" where
  "fp_bytes = bytes ''_MP_'' @ [0, 0, 0x10, 0, 1, 4, 0x90, 0, 0, 0, 0, 0]"

definition demo_bios :: machine where
  "demo_bios = \<lparr>vm = small_vm\<lparr>nPages := 0x200,
       kmem := (\<lambda>a. if unat (a - (KERNBASE + 0xF0000)) < 16 then fp_bytes ! unat (a - (KERNBASE + 0xF0000))
         else if unat (a - 0x1000) < 4 then bytes ''_MP_'' ! unat (a - 0x1000) else 0)\<rparr>,
     tasks = [], freeTasks = None, current = None, cr3 = 0, rnd = 1, io = typed_line, klog = []\<rparr>"

theorem searchFP_finds_witness:
  "\<exists>fp. searchFP (\<lambda>_. 0x1000) demo_bios = Some (Inr (fp, found fp demo_bios))
     \<and> fp = find (is_fp (kmem (vm demo_bios))) (places 0xE0000 0xFFFFF) \<and> is_fp (kmem (vm demo_bios)) (KERNBASE + 0xF0000)"
proof -
  let ?k = "kmem (vm demo_bios)"
  have lit: "cstr ?k 0x1000 (bytes ''_MP_'')" by (simp add: demo_bios_def KERNBASE_def)
  have "load16 ?k (KERNBASE + 0x40E) = 0" "load16 ?k (KERNBASE + 0x413) = 0"
    by (simp_all add: load16_def demo_bios_def KERNBASE_def)
  moreover have "512 \<le> unat (nPages (vm demo_bios))" by (simp add: demo_bios_def)
  moreover have "is_fp ?k (KERNBASE + 0xF0000)"
  proof -
    have len: "length fp_bytes = 16" by (simp add: fp_bytes_def)
    have "?k (KERNBASE + 0xF0000 + of_nat i) = fp_bytes ! i" if "i < 16" for i
    proof -
      have "KERNBASE + 0xF0000 + of_nat i - (KERNBASE + 0xF0000) = of_nat i" by (rule add_diff_cancel_left')
      moreover have "unat (of_nat i :: u32) = i" using that by (simp add: unat_of_nat32)
      ultimately show ?thesis using that by (simp only: demo_bios_def) (simp del: diff_add_eq)
    qed
    then have 16: "load_bytes ?k (KERNBASE + 0xF0000) 16 = fp_bytes"
      using len by (auto simp: list_eq_iff_nth_eq load_bytes_def simp del: upt_rec_numeral)
    have "load_bytes ?k (KERNBASE + 0xF0000) 4 = take 4 (load_bytes ?k (KERNBASE + 0xF0000) 16)"
      by (simp add: load_bytes_def take_map del: upt_rec_numeral)
    then show ?thesis unfolding is_fp_def 16 by (simp add: fp_bytes_def)
  qed
  ultimately show ?thesis using searchFP_finds [of demo_bios "\<lambda>_. 0x1000"] lit by simp
qed

section \<open>The processor table\<close>

text \<open>The addresses of the entries, and those of the processors among them.\<close>

primrec entries_at :: "mem \<Rightarrow> u32 \<Rightarrow> nat \<Rightarrow> u32 list" where
  "entries_at k a 0 = []"
| "entries_at k a (Suc n) = a # entries_at k (a + (if k a = 0 then 20 else 8)) n"

definition procs_at :: "mem \<Rightarrow> u32 \<Rightarrow> nat \<Rightarrow> u32 list" where
  "procs_at k a n = filter (\<lambda>e. k e = 0) (entries_at k a n)"

lemma entries_loop_procs: "entries_loop k n a st = fold (add_cpu k) (procs_at k a n) st"
  by (induction n arbitrary: a st) (simp_all add: procs_at_def MPPROC_def SIZEOF_ProcessorAPIC_def)

definition boot_cpus :: "mem \<Rightarrow> u32 list \<Rightarrow> nat list" where
  "boot_cpus k ps = filter (\<lambda>i. proc_flags (proc_at k (ps ! i)) AND 2 \<noteq> 0) [0..<min 32 (length ps)]"

lemma add_cpus:
  assumes "cpuCount (fst st) = 0" "length (cpus (fst st)) = 32"
  shows "cpuCount (fst (fold (add_cpu k) ps st)) = min 32 (length ps)
    \<and> length (cpus (fst (fold (add_cpu k) ps st))) = 32
    \<and> (\<forall>i<32. cpus (fst (fold (add_cpu k) ps st)) ! i = (if i < length ps then (cpus (fst st) ! i)\<lparr>cpuId := of_nat i\<rparr> else cpus (fst st) ! i))
    \<and> bootstrapCPU (fst (fold (add_cpu k) ps st)) = (if boot_cpus k ps = [] then bootstrapCPU (fst st) else Some (last (boot_cpus k ps)))"
proof (induction ps rule: rev_induct)
  case Nil
  then show ?case using assms by (simp add: boot_cpus_def)
next
  case (snoc p ps)
  let ?q = "fold (add_cpu k) ps st" and ?n = "length ps"
  have q: "cpuCount (fst ?q) = min 32 ?n" using snoc by blast
  have b: "boot_cpus k (ps @ [p]) = boot_cpus k ps @ (if ?n < 32 \<and> proc_flags (proc_at k p) AND 2 \<noteq> 0 then [?n] else [])"
  proof -
    have f: "filter (\<lambda>i. proc_flags (proc_at k ((ps @ [p]) ! i)) AND 2 \<noteq> 0) [0..<min 32 ?n] = boot_cpus k ps"
      unfolding boot_cpus_def by (rule filter_cong) (auto simp: nth_append)
    show ?thesis
    proof (cases "?n < 32")
      case True
      then have "min 32 (length (ps @ [p])) = Suc (min 32 ?n)" by simp
      then show ?thesis using True f by (simp add: boot_cpus_def [of k "ps @ [p]"])
    next
      case False
      then have "min 32 (length (ps @ [p])) = min 32 ?n" by simp
      then show ?thesis using False f by (simp add: boot_cpus_def [of k "ps @ [p]"])
    qed
  qed
  show ?case
  proof (cases "?n < 32")
    case False
    then have "add_cpu k p ?q = ?q" using q by (simp add: add_cpu_def Let_def MAX_CPU_COUNT_def split_beta)
    then show ?thesis using snoc False by (simp add: b del: upt_rec_numeral)
  next
    case True
    then have n: "min 32 ?n = ?n" by simp
    have step: "fst (add_cpu k p ?q) = (fst ?q)\<lparr>cpus := (cpus (fst ?q))[?n := (cpus (fst ?q) ! ?n)\<lparr>cpuId := of_nat ?n\<rparr>],
        bootstrapCPU := if proc_flags (proc_at k p) AND 2 \<noteq> 0 then Some ?n else bootstrapCPU (fst ?q), cpuCount := ?n + 1\<rparr>"
      using q True by (simp add: add_cpu_def Let_def MAX_CPU_COUNT_def split_beta n)
    have len: "length (cpus (fst ?q)) = 32" and nth: "\<forall>i<32. cpus (fst ?q) ! i = (if i < ?n then (cpus (fst st) ! i)\<lparr>cpuId := of_nat i\<rparr> else cpus (fst st) ! i)"
      using snoc by blast+
    have "cpus (fst (add_cpu k p ?q)) ! i = (if i < Suc ?n then (cpus (fst st) ! i)\<lparr>cpuId := of_nat i\<rparr> else cpus (fst st) ! i)"
      if "i < 32" for i
      using that len nth True by (cases "i = ?n") (auto simp: step)
    moreover have "length (cpus (fst (add_cpu k p ?q))) = 32" using len by (simp add: step)
    moreover have "cpuCount (fst (add_cpu k p ?q)) = min 32 (length (ps @ [p]))" using True by (simp add: step)
    moreover have "bootstrapCPU (fst (add_cpu k p ?q)) = (if boot_cpus k (ps @ [p]) = [] then bootstrapCPU (fst st) else Some (last (boot_cpus k (ps @ [p]))))"
      using snoc True by (simp add: step b)
    ultimately show ?thesis by simp
  qed
qed


definition zero_TaskState :: TaskState where
  "zero_TaskState = \<lparr>ts_link = 0, ts_esp0 = 0, ts_ss0 = 0, ts_padding1 = 0, ts_esp1 = 0, ts_ss1 = 0, ts_padding2 = 0, ts_esp2 = 0, ts_ss2 = 0, ts_padding3 = 0, ts_cr3 = 0, ts_eip = 0, ts_eflags = 0, ts_eax = 0, ts_ecx = 0, ts_edx = 0, ts_ebx = 0, ts_esp = 0, ts_ebp = 0, ts_esi = 0, ts_edi = 0, ts_es = 0, ts_padding4 = 0, ts_cs = 0, ts_padding5 = 0, ts_ss = 0, ts_padding6 = 0, ts_ds = 0, ts_padding7 = 0, ts_fs = 0, ts_padding8 = 0, ts_gs = 0, ts_padding9 = 0, ts_ldt = 0, ts_padding10 = 0, ts_t = 0, ts_iomb = 0\<rparr>"

definition blank_mp :: mp where
  "blank_mp = \<lparr>cpuCount = 0, cpus = replicate 32 \<lparr>cpuId = 0, cpuStatus = unused, cpuCurrent = None, cpuTs = zero_TaskState\<rparr>,
     bootstrapCPU = None, isMP = False, lapicPhy = 0, lapicKern = 0, lapicLog = [], portLog = []\<rparr>"


end
