(* ===== verification/UserPrint.thy ===== *)
theory UserPrint
  imports Console
begin

text \<open>
  The user library's buffered output, \<open>user/lib/printf.cc\<close>: characters are collected in a buffer of 256
  and handed to the kernel by the \<open>putString\<close> system call, whose requests are kept in order.
\<close>

definition pb_maxCount :: nat where "pb_maxCount = 256"

record PrintBuf =
  pb_idx :: nat
  pb_count :: u32
  pb_buf :: "u16 list"

type_synonym uout = "PrintBuf \<times> u16 list list"

definition pb_flush :: "uout \<Rightarrow> uout" where
  "pb_flush s = (let (p, calls) = s in
     if pb_idx p \<noteq> 0 then (p\<lparr>pb_idx := 0\<rparr>, calls @ [take (pb_idx p) (pb_buf p)]) else s)"

definition pb_putChar :: "u32 \<Rightarrow> uout \<Rightarrow> uout" where
  "pb_putChar c s =
     (if c AND 0x00ff \<noteq> 0 then
        let p = (fst s)\<lparr>pb_buf := (pb_buf (fst s))[pb_idx (fst s) := ucast (c AND 0xffff)], pb_idx := pb_idx (fst s) + 1\<rparr>;
            s1 = (if pb_idx p = pb_maxCount - 1 then pb_flush (p, snd s) else (p, snd s)) in
        ((fst s1)\<lparr>pb_count := pb_count (fst s1) + 1\<rparr>, snd s1)
      else s)"

text \<open>\<open>buf\<close>: what the uninitialised buffer on the stack holds.\<close>

definition new_buf :: "u16 list \<Rightarrow> PrintBuf" where
  "new_buf buf = \<lparr>pb_idx = 0, pb_count = 0, pb_buf = buf\<rparr>"

definition uprintVa :: "u16 list \<Rightarrow> mem \<Rightarrow> u32 \<Rightarrow> u32 \<Rightarrow> (u16 list list \<times> u32) option" where
  "uprintVa buf m fmt ap = map_option (\<lambda>s. let s1 = pb_flush s in (snd s1, pb_count (fst s1)))
     (printFmtVa pb_putChar m fmt ap DEF_FORE DEF_BACK (new_buf buf, []))"

definition uerrVa :: "u16 list \<Rightarrow> mem \<Rightarrow> u32 \<Rightarrow> u32 \<Rightarrow> u16 list list option" where
  "uerrVa buf m fmt ap = map_option (\<lambda>s. snd (pb_flush s))
     (printFmtVa pb_putChar m fmt ap LIGHT_RED DEF_BACK (new_buf buf, []))"

section \<open>The buffer as a sink of characters\<close>

definition pb_ok :: "uout \<Rightarrow> bool" where
  "pb_ok s \<longleftrightarrow> length (pb_buf (fst s)) = 256 \<and> pb_idx (fst s) < 255 \<and> (\<forall>r\<in>set (snd s). 1 \<le> length r \<and> length r \<le> 255)"

definition pb_seen :: "uout \<Rightarrow> u16 list" where
  "pb_seen s = concat (snd s) @ take (pb_idx (fst s)) (pb_buf (fst s))"

definition sent_char :: "u32 \<Rightarrow> u16 list" where
  "sent_char c = (if c AND 0xff \<noteq> 0 then [ucast c] else [])"

lemma low_char: "(ucast (c AND 0xffff) :: u16) = ucast (c :: u32)"
proof -
  have m: "(0xffff :: u32) = mask 16" by (simp add: mask_eq_exp_minus_1)
  show ?thesis unfolding m by (rule bit_word_eqI) (auto simp: bit_simps)
qed

lemma pb_put_good:
  assumes "pb_ok s"
  shows "pb_ok (pb_putChar c s) \<and> pb_seen (pb_putChar c s) = pb_seen s @ sent_char c
    \<and> pb_count (fst (pb_putChar c s)) = pb_count (fst s) + of_nat (length (sent_char c))"
proof (cases "c AND 0xff = 0")
  case False
  obtain p calls where s: "s = (p, calls)" by force
  let ?b = "(pb_buf p)[pb_idx p := ucast (c AND 0xffff)]"
  have ok: "length (pb_buf p) = 256" "pb_idx p < 255" "\<forall>r\<in>set calls. 1 \<le> length r \<and> length r \<le> 255"
    using assms by (simp_all add: pb_ok_def s)
  have t: "take (Suc (pb_idx p)) ?b = take (pb_idx p) (pb_buf p) @ [ucast c]"
    using ok by (simp add: take_Suc_conv_app_nth low_char)
  show ?thesis
    using ok t False by (auto simp: s pb_putChar_def pb_flush_def pb_ok_def pb_seen_def sent_char_def pb_maxCount_def Let_def)
qed (use assms in \<open>simp add: pb_putChar_def sent_char_def\<close>)

interpretation upb: char_sink pb_putChar pb_ok pb_seen sent_char
  by unfold_locales (simp_all add: pb_put_good)

lemma pb_count_feed:
  "pb_ok s \<Longrightarrow> pb_count (fst (feed pb_putChar cs s)) = pb_count (fst s) + of_nat (length (concat (map sent_char cs)))"
proof (induction cs arbitrary: s)
  case (Cons c cs)
  then show ?case using pb_put_good [of s c] by (simp add: feed_def algebra_simps)
qed (simp add: feed_def)

lemma pb_flush_ok:
  assumes "pb_ok s"
  shows "concat (snd (pb_flush s)) = pb_seen s \<and> pb_count (fst (pb_flush s)) = pb_count (fst s)
    \<and> (\<forall>r\<in>set (snd (pb_flush s)). 1 \<le> length r \<and> length r \<le> 255)"
  using assms by (cases s) (auto simp: pb_flush_def pb_ok_def pb_seen_def)

text \<open>
  The user's \<open>print\<close>. For a format with complete directives it returns the number of characters with
  a non-zero code, the \<open>putString\<close> requests it makes hold exactly these characters, in order, and every
  request has between 1 and 255 of them, so that the buffer of 256 is never overrun.
\<close>

lemma uprint_transcript:
  assumes "cstr m fmt xs" "wf_fmt xs" "length buf = 256"
  shows "\<exists>cs calls. rendered m fmt ap DEF_FORE DEF_BACK = Some cs \<and> uprintVa buf m fmt ap = Some (calls, of_nat (printed cs))
     \<and> concat calls = map ucast (filter (\<lambda>ch. ch AND 0xff \<noteq> 0) cs) \<and> (\<forall>r\<in>set calls. 1 \<le> length r \<and> length r \<le> 255)"
proof -
  let ?s0 = "(new_buf buf, [])"
  have ok0: "pb_ok ?s0" "pb_seen ?s0 = []" "pb_count (fst ?s0) = 0" using assms(3) by (simp_all add: pb_ok_def pb_seen_def new_buf_def)
  obtain s where s: "printFmtVa pb_putChar m fmt ap DEF_FORE DEF_BACK ?s0 = Some s"
    using printFmt_loop_total [OF assms(1,2), of pb_putChar] unfolding printFmtVa_def by fast
  obtain cs where cs: "rendered m fmt ap DEF_FORE DEF_BACK = Some cs" "pb_ok s" "pb_seen s = concat (map sent_char cs)"
    using upb.print_seen [OF ok0(1) s] ok0(2) by auto
  have c: "concat (map sent_char cs) = map ucast (filter (\<lambda>ch. ch AND 0xff \<noteq> 0) cs)"
    by (induction cs) (simp_all add: sent_char_def)
  have "s = feed pb_putChar cs ?s0" using s cs(1) by (simp add: printFmtVa_feed)
  then have "pb_count (fst s) = of_nat (printed cs)"
    using pb_count_feed [OF ok0(1), of cs] ok0(3) by (simp add: c printed_def)
  then show ?thesis
    using cs s pb_flush_ok [OF cs(2)] by (auto simp: uprintVa_def Let_def c)
qed

lemma uprint_transcript_example:
  "\<exists>cs calls. uprintVa (replicate 256 0) demo_fmt 0x100 0x500 = Some (calls, of_nat (printed cs))
     \<and> concat calls = map ucast (filter (\<lambda>ch. ch AND 0xff \<noteq> 0) cs)"
  using uprint_transcript [OF demo_fmt_cstr, of "replicate 256 0" "0x500"] by (force simp: isDigit_def)

end
