(* ===== verification/Boot.thy ===== *)
theory Boot
  imports Elf Mmu
begin

text \<open>
  The boot loader, \<open>boot/main.c\<close>: it reads the kernel image from the first IDE disk, sector by sector,
  and jumps to its entry point. Paging is off: addresses are physical. The disk answers with a stream
  of status bytes and with the sector whose 28-bit number stands in its registers.
\<close>

record disk_dev =
  disk_status :: "nat \<Rightarrow> u8"
  disk_sector :: "u32 \<Rightarrow> nat \<Rightarrow> u8"

text \<open>\<open>disk_polls\<close> counts the status bytes read; \<open>regs_out\<close> are the disk's registers 0x1F2 to 0x1F7.\<close>

record boot =
  bmem :: mem
  disk_polls :: nat
  regs_out :: "u8 list"
  bportLog :: "(u16 \<times> u16) list"

definition SECTSIZE :: u32 where "SECTSIZE = 512"
definition ELFHDR :: u32 where "ELFHDR = 0x20000"

partial_function (option) waitdisk :: "disk_dev \<Rightarrow> boot \<Rightarrow> boot option" where
  "waitdisk dk s =
     (let s1 = s\<lparr>disk_polls := disk_polls s + 1\<rparr> in
      if disk_status dk (disk_polls s) AND 0xC0 \<noteq> 0x40 then waitdisk dk s1 else Some s1)"

text \<open>The sector that the registers select: three bytes and the low half of the fourth.\<close>

definition selected :: "u8 list \<Rightarrow> u32" where
  "selected rs = ucast (rs ! 1) OR push_bit 8 (ucast (rs ! 2)) OR push_bit 16 (ucast (rs ! 3))
     OR push_bit 24 (ucast (rs ! 4) AND 0xF)"

definition insl :: "disk_dev \<Rightarrow> u32 \<Rightarrow> u32 \<Rightarrow> boot \<Rightarrow> boot" where
  "insl dk addr cnt s =
     s\<lparr>bmem := store_bytes (bmem s) addr (map (disk_sector dk (selected (regs_out s))) [0..<4 * unat cnt])\<rparr>"

definition readsect :: "disk_dev \<Rightarrow> u32 \<Rightarrow> u32 \<Rightarrow> boot \<Rightarrow> boot option" where
  "readsect dk dst offset s =
     Option.bind (waitdisk dk s) (\<lambda>s1.
     Option.bind (waitdisk dk (s1\<lparr>regs_out := [1, ucast offset, ucast (drop_bit 8 offset), ucast (drop_bit 16 offset),
       ucast (drop_bit 24 offset OR 0xE0), 0x20]\<rparr>)) (\<lambda>s2.
     Some (insl dk dst (SECTSIZE div 4) s2)))"

partial_function (option) readseg_loop :: "disk_dev \<Rightarrow> u32 \<Rightarrow> u32 \<Rightarrow> u32 \<Rightarrow> u32 \<Rightarrow> boot \<Rightarrow> boot option" where
  "readseg_loop dk end_pa pa offset statusPos s =
     (if pa < end_pa then
        Option.bind (readsect dk pa offset s) (\<lambda>s1.
        readseg_loop dk end_pa (pa + SECTSIZE) (offset + 1) (statusPos + 2)
          (s1\<lparr>bmem := store16 (bmem s1) statusPos 0x072e\<rparr>))
      else Some s)"

definition readseg :: "disk_dev \<Rightarrow> u32 \<Rightarrow> u32 \<Rightarrow> u32 \<Rightarrow> boot \<Rightarrow> boot option" where
  "readseg dk pa count offset s =
     readseg_loop dk (pa + count) (pa AND NOT (SECTSIZE - 1)) (offset div SECTSIZE + 1) 0xb80a0 s"

partial_function (option) ph_loop :: "disk_dev \<Rightarrow> u32 \<Rightarrow> u32 \<Rightarrow> boot \<Rightarrow> boot option" where
  "ph_loop dk eph ph s =
     (if ph < eph then
        let p = proghdr_at (bmem s) ph in
        Option.bind (readseg dk (p_pa p) (p_memsz p) (p_offset p) s) (ph_loop dk eph (ph + SIZEOF_Proghdr))
      else Some s)"

text \<open>How the loader ends: it jumps to the kernel, or it stops after writing to the debug port.\<close>

datatype boot_end = Jump u32 boot | Stopped boot

definition bootmain :: "disk_dev \<Rightarrow> boot \<Rightarrow> boot_end option" where
  "bootmain dk s =
     Option.bind (readseg dk ELFHDR (SECTSIZE * 8) 0 s) (\<lambda>s1.
     let elf = elf_at (bmem s1) ELFHDR; ph = ELFHDR + e_phoff elf; eph = ph + SIZEOF_Proghdr * ucast (e_phnum elf) in
     if e_magic elf \<noteq> ELF_MAGIC then
       Some (Stopped (s1\<lparr>bmem := store16 (bmem s1) 0xb809e 0x0c4c, bportLog := (0x8A00, 0x8E00) # (0x8A00, 0x8A00) # bportLog s1\<rparr>))
     else
       Option.bind (ph_loop dk eph ph s1) (\<lambda>s2.
       let m = store16 (bmem s2) 0xb809e 0x0a4c in
       Some (Jump (e_entry (elf_at m ELFHDR)) (s2\<lparr>bmem := m\<rparr>))))"

section \<open>Reading a sector\<close>

definition disk_ready :: "disk_dev \<Rightarrow> bool" where
  "disk_ready dk \<longleftrightarrow> (\<forall>i. \<exists>j\<ge>i. disk_status dk j AND 0xC0 = 0x40)"

lemma waitdisk_ready:
  assumes "disk_ready dk"
  shows "\<exists>n. waitdisk dk s = Some (s\<lparr>disk_polls := n\<rparr>)"
proof -
  obtain j where "disk_polls s \<le> j" "disk_status dk j AND 0xC0 = 0x40" using assms by (auto simp: disk_ready_def)
  then show ?thesis
  proof (induction "j - disk_polls s" arbitrary: s)
    case 0
    then have "disk_polls s = j" by simp
    then show ?case using 0 by (subst waitdisk.simps) (auto simp: Let_def)
  next
    case (Suc n)
    let ?s = "s\<lparr>disk_polls := disk_polls s + 1\<rparr>"
    have "n = j - disk_polls ?s" "disk_polls ?s \<le> j" using Suc.hyps(2) Suc.prems by simp_all
    then obtain n where "waitdisk dk ?s = Some (?s\<lparr>disk_polls := n\<rparr>)" using Suc.hyps(1) Suc.prems(2) by blast
    then show ?case by (subst waitdisk.simps) (auto simp: Let_def)
  qed
qed

lemma selected_lba:
  "selected [1, ucast off, ucast (drop_bit 8 off), ucast (drop_bit 16 off), ucast (drop_bit 24 off OR 0xE0), 0x20] = off AND 0x0FFFFFFF"
proof -
  have m: "(0x0FFFFFFF :: u32) = mask 28" "(0xF :: u32) = mask 4" by (simp_all add: mask_eq_exp_minus_1)
  have e0: "\<not> bit (0xE0 :: u32) n" "\<not> bit (0xE0 :: u8) n" "\<not> bit (0xE0 :: int) n" if "n < 4" for n
  proof -
    have "n = 0 \<or> n = 1 \<or> n = 2 \<or> n = 3" using that by linarith
    then show "\<not> bit (0xE0 :: u32) n" "\<not> bit (0xE0 :: u8) n" "\<not> bit (0xE0 :: int) n" by auto
  qed
  have hi: "((drop_bit 24 off OR 0xE0) AND mask 8) AND mask 4 = drop_bit 24 off AND mask 4"
    by (rule bit_word_eqI) (auto simp: bit_simps e0)
  have "off AND mask 28 = (off AND mask 8) OR push_bit 8 (drop_bit 8 off AND mask 8) OR push_bit 16 (drop_bit 16 off AND mask 8)
      OR push_bit 24 (drop_bit 24 off AND mask 4)"
  proof (rule bit_word_eqI)
    fix n assume "n < LENGTH(32)"
    consider "n < 8" | "8 \<le> n" "n < 16" | "16 \<le> n" "n < 24" | "24 \<le> n" by linarith
    then show "bit (off AND mask 28) n = bit ((off AND mask 8) OR push_bit 8 (drop_bit 8 off AND mask 8)
        OR push_bit 16 (drop_bit 16 off AND mask 8) OR push_bit 24 (drop_bit 24 off AND mask 4)) n"
      by cases (auto simp: bit_simps)
  qed
  moreover have "ucast (ucast (w :: u32) :: u8) = w AND mask 8" for w
    by (rule bit_word_eqI) (auto simp: bit_simps)
  moreover have "[a, b, c, d, e, f] ! 1 = b" "[a, b, c, d, e, f] ! 2 = c" "[a, b, c, d, e, f] ! 3 = d" "[a, b, c, d, e, f] ! 4 = e"
    for a b c d e f :: u8 by simp_all
  ultimately show ?thesis unfolding selected_def by (simp only: m hi)
qed

lemma readsect_ok:
  assumes "disk_ready dk" "unat off < 0x10000000"
  shows "\<exists>s'. readsect dk dst off s = Some s' \<and> bmem s' = store_bytes (bmem s) dst (map (disk_sector dk off) [0..<512])"
proof -
  obtain n where n: "waitdisk dk s = Some (s\<lparr>disk_polls := n\<rparr>)" using waitdisk_ready [OF assms(1)] by blast
  let ?s = "(s\<lparr>disk_polls := n\<rparr>)\<lparr>regs_out := [1, ucast off, ucast (drop_bit 8 off), ucast (drop_bit 16 off),
       ucast (drop_bit 24 off OR 0xE0), 0x20]\<rparr>"
  obtain k where k: "waitdisk dk ?s = Some (?s\<lparr>disk_polls := k\<rparr>)" using waitdisk_ready [OF assms(1)] by blast
  have "(0x0FFFFFFF :: u32) = mask 28" by (simp add: mask_eq_exp_minus_1)
  then have "off AND 0x0FFFFFFF = off" using assms(2) by (intro unat_inj32) (simp only: unat_and_mask, simp)
  moreover have "4 * unat (SECTSIZE div 4) = 512" by (simp add: SECTSIZE_def)
  ultimately show ?thesis
    unfolding readsect_def n Option.bind.bind_lunit k insl_def by (simp add: selected_lba del: upt_rec_numeral)
qed

section \<open>Reading a segment\<close>

text \<open>The kernel image: the disk's contents from its second sector on.\<close>

definition image :: "disk_dev \<Rightarrow> nat \<Rightarrow> u8" where
  "image dk k = disk_sector dk (of_nat (1 + k div 512)) (k mod 512)"

lemma readseg_loop_ok:
  assumes "disk_ready dk"
  shows "\<lbrakk>n = (unat end_pa - unat pa + 511) div 512; unat pa + 512 * n \<le> 0xb8000 \<or> 0xc0000 \<le> unat pa \<and> unat pa + 512 * n < 4294967296;
      q + n < 0xFFFFFFF; off = of_nat (1 + q); 0xb80a0 \<le> unat sp; unat sp + 2 * n \<le> 0xc0000\<rbrakk>
    \<Longrightarrow> \<exists>s'. readseg_loop dk end_pa pa off sp s = Some s'
      \<and> (\<forall>i<512 * n. bmem s' (pa + of_nat i) = image dk (512 * q + i))
      \<and> (\<forall>a. \<not> (unat pa \<le> unat a \<and> unat a < unat pa + 512 * n) \<longrightarrow> \<not> (0xb80a0 \<le> unat a \<and> unat a < 0xc0000) \<longrightarrow> bmem s' a = bmem s a)"
proof (induction n arbitrary: pa q off sp s)
  case 0
  then have "\<not> pa < end_pa" by (simp add: word_less_nat_alt)
  then show ?case by (subst readseg_loop.simps) simp
next
  case (Suc n)
  have lt: "pa < end_pa"
  proof (rule ccontr)
    assume "\<not> pa < end_pa"
    then show False using Suc.prems(1) by (simp add: word_less_nat_alt)
  qed
  have "unat off = 1 + q" unfolding Suc.prems(4) using Suc.prems(3) by (intro unat_of_nat32) simp
  then have off: "unat off < 0x10000000" using Suc.prems(3) by simp
  obtain s1 where s1: "readsect dk pa off s = Some s1" "bmem s1 = store_bytes (bmem s) pa (map (disk_sector dk off) [0..<512])"
    using readsect_ok [OF assms off] by blast
  let ?s = "s1\<lparr>bmem := store16 (bmem s1) sp 0x072e\<rparr>"
  have pa': "unat (pa + SECTSIZE) = unat pa + 512" using Suc.prems(2) by (auto simp: SECTSIZE_def unat_word_ariths)
  have sp': "unat (sp + 2) = unat sp + 2" using Suc.prems(6) by (simp add: unat_word_ariths)
  have "n = (unat end_pa - unat (pa + SECTSIZE) + 511) div 512"
  proof (cases "512 \<le> unat end_pa - unat pa")
    case True
    then obtain d where "unat end_pa - unat pa = d + 512" by (metis add.commute le_Suc_ex)
    then show ?thesis using Suc.prems(1) unfolding pa' by simp
  next
    case False
    then have "(unat end_pa - unat pa + 511) div 512 = 1" using lt by (intro div_nat_eqI) (auto simp: word_less_nat_alt)
    then show ?thesis using Suc.prems(1) False unfolding pa' by simp
  qed
  then obtain s' where s': "readseg_loop dk end_pa (pa + SECTSIZE) (off + 1) (sp + 2) ?s = Some s'"
      "\<forall>i<512 * n. bmem s' (pa + SECTSIZE + of_nat i) = image dk (512 * Suc q + i)"
      "\<forall>a. \<not> (unat pa + 512 \<le> unat a \<and> unat a < unat pa + 512 + 512 * n) \<longrightarrow> \<not> (0xb80a0 \<le> unat a \<and> unat a < 0xc0000)
        \<longrightarrow> bmem s' a = bmem ?s a"
    using Suc.IH [of "pa + SECTSIZE" "Suc q" "off + 1" "sp + 2" ?s] Suc.prems(2-6) pa' sp' by auto
  have st: "bmem ?s a = bmem s1 a" if "\<not> (0xb80a0 \<le> unat a \<and> unat a < 0xc0000)" for a
  proof -
    have "unat (sp + 1) = unat sp + 1" using Suc.prems(6) by (simp add: unat_word_ariths)
    then have "a \<noteq> sp" "a \<noteq> sp + 1" using that Suc.prems(5,6) by auto
    then show ?thesis by (simp add: store16_def)
  qed
  have first: "bmem s' (pa + of_nat i) = image dk (512 * q + i)" if "i < 512" for i
  proof -
    have u: "unat (pa + of_nat i) = unat pa + i" using that Suc.prems(2) by (auto simp: unat_word_ariths unat_of_nat32)
    have "\<not> (0xb80a0 \<le> unat (pa + of_nat i) \<and> unat (pa + of_nat i) < 0xc0000)" unfolding u using that Suc.prems(2) by auto
    then have "bmem s' (pa + of_nat i) = bmem s1 (pa + of_nat i)" using s'(3) st u that by simp
    also have "\<dots> = disk_sector dk off i"
      using that by (simp add: s1(2) store_bytes_apply unat_of_nat32 del: upt_rec_numeral)
    finally show ?thesis using that Suc.prems(4) by (simp add: image_def)
  qed
  have "bmem s' (pa + of_nat i) = image dk (512 * q + i)" if "i < 512 * Suc n" for i
  proof (cases "i < 512")
    case False
    then obtain j where j: "i = 512 + j" by (metis le_Suc_ex not_less)
    then have "pa + of_nat i = pa + SECTSIZE + of_nat j" by (simp add: SECTSIZE_def)
    moreover have "512 * q + i = 512 * Suc q + j" using j by simp
    ultimately show ?thesis using s'(2) j that by (metis mult_Suc_right nat_add_left_cancel_less)
  qed (use first in blast)
  moreover have "bmem s' a = bmem s a"
    if "\<not> (unat pa \<le> unat a \<and> unat a < unat pa + 512 * Suc n)" "\<not> (0xb80a0 \<le> unat a \<and> unat a < 0xc0000)" for a
  proof -
    have "\<not> (unat pa + 512 \<le> unat a \<and> unat a < unat pa + 512 + 512 * n)" using that(1) by auto
    then have "bmem s' a = bmem s1 a" using s'(3) st [OF that(2)] that(2) by metis
    moreover have "\<not> unat (a - pa) < 512"
    proof
      assume d: "unat (a - pa) < 512"
      have "unat (pa + (a - pa)) = unat pa + unat (a - pa)" using d Suc.prems(2) by (subst unat_word_ariths) auto
      then show False using d that(1) by simp
    qed
    ultimately show ?thesis by (simp add: s1(2) store_bytes_apply del: upt_rec_numeral)
  qed
  ultimately show ?case using s'(1) lt s1(1) by (subst readseg_loop.simps) auto
qed

text \<open>The bytes of whole sectors that reading a segment touches, and when that is safe and in step with the file.\<close>

definition seg_lo :: "u32 \<Rightarrow> nat" where
  "seg_lo pa = unat pa - unat pa mod 512"

definition seg_hi :: "u32 \<Rightarrow> u32 \<Rightarrow> nat" where
  "seg_hi pa count = seg_lo pa + 512 * ((unat pa mod 512 + unat count + 511) div 512)"

definition loadable :: "u32 \<Rightarrow> u32 \<Rightarrow> u32 \<Rightarrow> bool" where
  "loadable pa count offset \<longleftrightarrow> (seg_hi pa count \<le> 0xb8000 \<or> 0xc0000 \<le> seg_lo pa \<and> seg_hi pa count < 4294967296)
     \<and> seg_hi pa count - seg_lo pa \<le> 0x7F0000 \<and> unat offset mod 512 = unat pa mod 512"

lemma seg_bounds: "seg_lo pa \<le> unat pa" "unat pa + unat count \<le> seg_hi pa count" "unat pa = seg_lo pa + unat pa mod 512"
proof -
  show lo: "seg_lo pa \<le> unat pa" "unat pa = seg_lo pa + unat pa mod 512" by (simp_all add: seg_lo_def)
  have "unat pa mod 512 + unat count \<le> 512 * ((unat pa mod 512 + unat count + 511) div 512)"
    by linarith
  then show "unat pa + unat count \<le> seg_hi pa count" using lo(2) unfolding seg_hi_def by linarith
qed

lemma readseg_ok:
  assumes "disk_ready dk" "loadable pa count offset"
  shows "\<exists>s'. readseg dk pa count offset s = Some s'
    \<and> (\<forall>i<unat count. bmem s' (pa + of_nat i) = image dk (unat offset + i))
    \<and> (\<forall>a. \<not> (seg_lo pa \<le> unat a \<and> unat a < seg_hi pa count) \<longrightarrow> \<not> (0xb80a0 \<le> unat a \<and> unat a < 0xc0000) \<longrightarrow> bmem s' a = bmem s a)"
proof -
  let ?pa = "pa AND NOT (SECTSIZE - 1)" and ?n = "(unat pa mod 512 + unat count + 511) div 512" and ?q = "unat offset div 512"
  have m: "SECTSIZE - 1 = mask 9" by (simp add: SECTSIZE_def mask_eq_exp_minus_1)
  have "unat ?pa = unat pa - unat (pa AND mask 9)"
    unfolding m and_not_mask32 by (rule unat_sub_le) (simp add: word_and_le2)
  then have lo: "unat ?pa = seg_lo pa" by (simp add: unat_and_mask seg_lo_def)
  have hi: "seg_hi pa count = unat ?pa + 512 * ?n" by (simp add: seg_hi_def lo)
  have lim: "unat ?pa + 512 * ?n \<le> 0xb8000 \<or> 0xc0000 \<le> unat ?pa \<and> unat ?pa + 512 * ?n < 4294967296" "512 * ?n \<le> 0x7F0000"
    "unat offset mod 512 = unat pa mod 512"
    using assms(2) unfolding loadable_def hi lo [symmetric] by simp_all
  have e: "unat (pa + count) = unat pa + unat count"
    using seg_bounds(2) [of pa count] lim(1) unfolding hi by (subst unat_word_ariths) auto
  have n: "?n = (unat (pa + count) - unat ?pa + 511) div 512" unfolding e lo using seg_bounds(3) [of pa] by simp
  have o: "offset div SECTSIZE + 1 = of_nat (1 + ?q)"
  proof -
    have "unat offset div 512 < 4294967296" using unat_lt_2p32 [of offset] by simp
    then have "offset div SECTSIZE = of_nat ?q"
      by (intro unat_inj32) (simp only: unat_of_nat32, simp add: SECTSIZE_def unat_div)
    then show ?thesis by simp
  qed
  have q1: "?q < 8388608" by (rule less_mult_imp_div_less) (use unat_lt_2p32 [of offset] in simp)
  have "512 * k \<le> 0x7F0000 \<Longrightarrow> k \<le> 16256" "a < 8388608 \<Longrightarrow> k \<le> 16256 \<Longrightarrow> a + k < 0xFFFFFFF" for a k :: nat by simp_all
  then have q: "?q + ?n < 0xFFFFFFF" using lim(2) q1 by blast
  have sp: "0xb80a0 \<le> unat (0xb80a0 :: u32)" "unat (0xb80a0 :: u32) + 2 * ?n \<le> 0xc0000" using lim(2) by simp_all
  obtain s' where s': "readseg_loop dk (pa + count) ?pa (offset div SECTSIZE + 1) 0xb80a0 s = Some s'"
      "\<forall>i<512 * ?n. bmem s' (?pa + of_nat i) = image dk (512 * ?q + i)"
      "\<forall>a. \<not> (unat ?pa \<le> unat a \<and> unat a < unat ?pa + 512 * ?n) \<longrightarrow> \<not> (0xb80a0 \<le> unat a \<and> unat a < 0xc0000) \<longrightarrow> bmem s' a = bmem s a"
    using readseg_loop_ok [OF assms(1) n lim(1) q o sp, of s] by blast
  have "bmem s' (pa + of_nat i) = image dk (unat offset + i)" if "i < unat count" for i
  proof -
    have "pa = ?pa + of_nat (unat pa mod 512)"
      using seg_bounds(3) [of pa] lo unat_lt_2p32 [of pa] by (intro unat_inj32) (subst unat_add_of_nat, simp_all)
    then have "pa + of_nat i = ?pa + of_nat (unat pa mod 512 + i)" by (simp add: add.assoc)
    moreover have "512 * ?q + (unat pa mod 512 + i) = unat offset + i" using lim(3) mult_div_mod_eq [of 512 "unat offset"] by simp
    moreover have "unat pa mod 512 + i < 512 * ?n" using that by linarith
    ultimately show ?thesis using s'(2) by metis
  qed
  then show ?thesis using s'(1,3) unfolding readseg_def hi lo by blast
qed

section \<open>Loading the kernel\<close>

definition disk_image :: "disk_dev \<Rightarrow> mem" where
  "disk_image dk a = image dk (unat a)"

definition seg_loaded :: "disk_dev \<Rightarrow> mem \<Rightarrow> Proghdr \<Rightarrow> bool" where
  "seg_loaded dk m p \<longleftrightarrow> (\<forall>i<unat (p_memsz p). m (p_pa p + of_nat i) = image dk (unat (p_offset p) + i))"

definition hdr_loaded :: "disk_dev \<Rightarrow> mem \<Rightarrow> bool" where
  "hdr_loaded dk m \<longleftrightarrow> (\<forall>i<4096. m (ELFHDR + of_nat i) = image dk i)"

text \<open>A segment that fits memory and stays off the header page.\<close>

definition seg_ok :: "Proghdr \<Rightarrow> bool" where
  "seg_ok p \<longleftrightarrow> loadable (p_pa p) (p_memsz p) (p_offset p)
     \<and> (seg_hi (p_pa p) (p_memsz p) \<le> 0x20000 \<or> 0x21000 \<le> seg_lo (p_pa p))"

text \<open>The sectors of \<open>q\<close> leave the bytes of \<open>p\<close> alone.\<close>

definition seg_apart :: "Proghdr \<Rightarrow> Proghdr \<Rightarrow> bool" where
  "seg_apart p q \<longleftrightarrow> unat (p_pa p) + unat (p_memsz p) \<le> seg_lo (p_pa q) \<or> seg_hi (p_pa q) (p_memsz q) \<le> unat (p_pa p)"

lemma elf_at_shift: "elf_at m a = elf_at (\<lambda>b. m (a + b)) 0"
  by (simp add: elf_at_def load16_def load32_def load_bytes_def add.assoc)

lemma hdr_loaded_apply:
  "hdr_loaded dk m \<Longrightarrow> j < 4096 \<Longrightarrow> m (ELFHDR + of_nat j) = disk_image dk (of_nat j)"
  by (simp add: hdr_loaded_def disk_image_def)

lemma hdr_elf:
  assumes "hdr_loaded dk m"
  shows "elf_at m ELFHDR = elf_at (disk_image dk) 0"
  unfolding elf_at_shift [of m ELFHDR]
  by (rule elf_cong) (simp add: hdr_loaded_apply [OF assms])

lemma hdr_proghdr:
  assumes "hdr_loaded dk m" "j + 32 \<le> 4096"
  shows "proghdr_at m (ELFHDR + of_nat j) = proghdr_at (disk_image dk) (of_nat j)"
proof -
  have "proghdr_at m (ELFHDR + of_nat j) = proghdr_at (\<lambda>b. m (ELFHDR + b)) (of_nat j)"
    by (simp add: proghdr_at_def load32_def add.assoc)
  also have "\<dots> = proghdr_at (disk_image dk) (of_nat j)"
  proof (rule proghdr_cong)
    fix i :: nat assume "i < 32"
    then have "m (ELFHDR + of_nat (j + i)) = disk_image dk (of_nat (j + i))"
      using assms(2) by (intro hdr_loaded_apply [OF assms(1)]) simp
    then show "m (ELFHDR + (of_nat j + of_nat i)) = disk_image dk (of_nat j + of_nat i)" by simp
  qed
  finally show ?thesis .
qed

lemma unat_hdr: "i < 4096 \<Longrightarrow> unat (ELFHDR + of_nat i) = 0x20000 + i"
  unfolding ELFHDR_def by (subst unat_add_of_nat) simp_all

lemma readseg_seg:
  assumes "disk_ready dk" "seg_ok q" "hdr_loaded dk (bmem s)"
  shows "\<exists>s'. readseg dk (p_pa q) (p_memsz q) (p_offset q) s = Some s' \<and> hdr_loaded dk (bmem s') \<and> seg_loaded dk (bmem s') q
    \<and> (\<forall>p. seg_ok p \<longrightarrow> seg_apart p q \<longrightarrow> seg_loaded dk (bmem s) p \<longrightarrow> seg_loaded dk (bmem s') p)"
proof -
  obtain s' where s': "readseg dk (p_pa q) (p_memsz q) (p_offset q) s = Some s'"
      "\<forall>i<unat (p_memsz q). bmem s' (p_pa q + of_nat i) = image dk (unat (p_offset q) + i)"
      "\<And>a. \<lbrakk>\<not> (seg_lo (p_pa q) \<le> unat a \<and> unat a < seg_hi (p_pa q) (p_memsz q)); \<not> (0xb80a0 \<le> unat a \<and> unat a < 0xc0000)\<rbrakk> \<Longrightarrow> bmem s' a = bmem s a"
    using readseg_ok [OF assms(1), of "p_pa q" "p_memsz q" "p_offset q" s] assms(2) unfolding seg_ok_def by blast
  have "bmem s' (ELFHDR + of_nat i) = bmem s (ELFHDR + of_nat i)" if "i < 4096" for i
    using assms(2) that by (intro s'(3)) (auto simp: unat_hdr seg_ok_def)
  then have "hdr_loaded dk (bmem s')" using assms(3) by (simp add: hdr_loaded_def)
  moreover have "seg_loaded dk (bmem s') p" if p: "seg_ok p" "seg_apart p q" "seg_loaded dk (bmem s) p" for p
  proof -
    have "bmem s' (p_pa p + of_nat i) = bmem s (p_pa p + of_nat i)" if "i < unat (p_memsz p)" for i
    proof -
      have b: "seg_lo (p_pa p) \<le> unat (p_pa p)" "unat (p_pa p) + unat (p_memsz p) \<le> seg_hi (p_pa p) (p_memsz p)"
        "seg_hi (p_pa p) (p_memsz p) \<le> 0xb8000 \<or> 0xc0000 \<le> seg_lo (p_pa p) \<and> seg_hi (p_pa p) (p_memsz p) < 4294967296"
        using seg_bounds p(1) by (auto simp: seg_ok_def loadable_def)
      then have u: "unat (p_pa p + of_nat i) = unat (p_pa p) + i" using that by (intro unat_add_of_nat) auto
      show ?thesis by (rule s'(3)) (use b that p(2) in \<open>auto simp: u seg_apart_def\<close>)
    qed
    then show ?thesis using p(3) by (simp add: seg_loaded_def)
  qed
  ultimately show ?thesis using s'(1,2) by (auto simp: seg_loaded_def)
qed

lemma ph_loop_ok:
  fixes dk :: disk_dev and o0 n :: nat
  defines "P \<equiv> \<lambda>k. proghdr_at (disk_image dk) (of_nat (o0 + 32 * k))"
  assumes "disk_ready dk" "o0 + 32 * n \<le> 4096" "\<And>k. k < n \<Longrightarrow> seg_ok (P k)" "\<And>j k. k < j \<Longrightarrow> j < n \<Longrightarrow> seg_apart (P k) (P j)"
  shows "\<lbrakk>k \<le> n; hdr_loaded dk (bmem s); \<And>j. j < k \<Longrightarrow> seg_loaded dk (bmem s) (P j)\<rbrakk>
    \<Longrightarrow> \<exists>s'. ph_loop dk (ELFHDR + of_nat (o0 + 32 * n)) (ELFHDR + of_nat (o0 + 32 * k)) s = Some s'
      \<and> hdr_loaded dk (bmem s') \<and> (\<forall>j<n. seg_loaded dk (bmem s') (P j))"
proof (induction "n - k" arbitrary: k s)
  case 0
  then have "k = n" by simp
  then show ?case using 0 by (subst ph_loop.simps) auto
next
  case (Suc d)
  have k: "k < n" using Suc.hyps(2) by simp
  have u: "unat (ELFHDR + of_nat j) = 0x20000 + j" if "j \<le> 4096" for j
    unfolding ELFHDR_def using that by (subst unat_add_of_nat) simp_all
  have lt: "(ELFHDR + of_nat (o0 + 32 * k) < ELFHDR + of_nat (o0 + 32 * n)) = True"
    unfolding word_less_nat_alt using k assms(3) by (simp only: u) simp
  have nxt: "ELFHDR + of_nat (o0 + 32 * k) + SIZEOF_Proghdr = ELFHDR + of_nat (o0 + 32 * Suc k)"
    by (simp add: SIZEOF_Proghdr_def add_ac)
  have ph: "proghdr_at (bmem s) (ELFHDR + of_nat (o0 + 32 * k)) = P k"
    unfolding P_def using k assms(3) by (intro hdr_proghdr [OF Suc.prems(2)]) simp
  obtain s1 where s1: "readseg dk (p_pa (P k)) (p_memsz (P k)) (p_offset (P k)) s = Some s1" "hdr_loaded dk (bmem s1)"
      "seg_loaded dk (bmem s1) (P k)" "\<forall>p. seg_ok p \<longrightarrow> seg_apart p (P k) \<longrightarrow> seg_loaded dk (bmem s) p \<longrightarrow> seg_loaded dk (bmem s1) p"
    using readseg_seg [OF assms(2) assms(4) [OF k] Suc.prems(2)] by blast
  have "seg_loaded dk (bmem s1) (P j)" if "j < Suc k" for j
    using that s1(3,4) Suc.prems(3) assms(4) [of j] assms(5) [of j k] k by (cases "j = k") auto
  then have "\<exists>s'. ph_loop dk (ELFHDR + of_nat (o0 + 32 * n)) (ELFHDR + of_nat (o0 + 32 * Suc k)) s1 = Some s'
      \<and> hdr_loaded dk (bmem s') \<and> (\<forall>j<n. seg_loaded dk (bmem s') (P j))"
    using k Suc.hyps(2) s1(2) by (intro Suc.hyps(1)) auto
  then show ?case by (subst ph_loop.simps) (simp only: lt if_True Let_def ph s1(1) nxt Option.bind.bind_lunit)
qed

lemma video_write:
  assumes "hdr_loaded dk m"
  shows "hdr_loaded dk (store16 m 0xb809e v)"
proof -
  have "ELFHDR + of_nat i \<noteq> 0xb809e" "ELFHDR + of_nat i \<noteq> 0xb809f" if "i < 4096" for i
    using unat_hdr [OF that] that by (auto dest!: arg_cong [where f = unat])
  then show ?thesis using assms by (simp add: hdr_loaded_def store16_def)
qed

lemma video_write_seg:
  assumes "seg_ok p" "seg_loaded dk m p"
  shows "seg_loaded dk (store16 m 0xb809e v) p"
proof -
  have "p_pa p + of_nat i \<noteq> 0xb809e \<and> p_pa p + of_nat i \<noteq> 0xb809f" if "i < unat (p_memsz p)" for i
  proof -
    have b: "seg_lo (p_pa p) \<le> unat (p_pa p)" "unat (p_pa p) + unat (p_memsz p) \<le> seg_hi (p_pa p) (p_memsz p)"
      "seg_hi (p_pa p) (p_memsz p) \<le> 0xb8000 \<or> 0xc0000 \<le> seg_lo (p_pa p) \<and> seg_hi (p_pa p) (p_memsz p) < 4294967296"
      using seg_bounds assms(1) by (auto simp: seg_ok_def loadable_def)
    then have "unat (p_pa p + of_nat i) = unat (p_pa p) + i" using that by (intro unat_add_of_nat) auto
    then have "unat (p_pa p + of_nat i) < 0xb8000 \<or> 0xc0000 \<le> unat (p_pa p + of_nat i)" using b that by auto
    then show ?thesis by auto
  qed
  then show ?thesis using assms(2) by (simp add: seg_loaded_def store16_def)
qed

lemma hdr_read:
  assumes "disk_ready dk"
  shows "\<exists>s'. readseg dk ELFHDR (SECTSIZE * 8) 0 s = Some s' \<and> hdr_loaded dk (bmem s')"
proof -
  have "loadable ELFHDR (SECTSIZE * 8) 0" by (simp add: loadable_def seg_hi_def seg_lo_def ELFHDR_def SECTSIZE_def)
  then obtain s' where "readseg dk ELFHDR (SECTSIZE * 8) 0 s = Some s'"
      "\<forall>i<unat (SECTSIZE * 8). bmem s' (ELFHDR + of_nat i) = image dk (unat (0 :: u32) + i)"
    using readseg_ok [OF assms] by blast
  then show ?thesis by (simp add: hdr_loaded_def SECTSIZE_def)
qed

text \<open>
  C38: the loader runs the kernel only when it is all there. On a disk that always becomes ready again and
  whose second sector starts an ELF image with its program headers in the first page: if no segment touches
  the header page or the text display and none overwrites an earlier one, \<open>bootmain\<close> jumps to the entry
  point of the file, and every segment's memory holds the file's bytes from its offset on.
\<close>

theorem bootmain_loads:
  fixes dk :: disk_dev
  defines "H \<equiv> elf_at (disk_image dk) 0"
  defines "P \<equiv> \<lambda>k. proghdr_at (disk_image dk) (e_phoff H + 32 * of_nat k)"
  assumes "disk_ready dk" "e_magic H = ELF_MAGIC" "unat (e_phoff H) + 32 * unat (e_phnum H) \<le> 4096"
    and "\<forall>k<unat (e_phnum H). seg_ok (P k)"
    and "\<forall>j<unat (e_phnum H). \<forall>k<j. seg_apart (P k) (P j)"
  shows "\<exists>s'. bootmain dk s = Some (Jump (e_entry H) s') \<and> (\<forall>k<unat (e_phnum H). seg_loaded dk (bmem s') (P k))"
proof -
  let ?n = "unat (e_phnum H)" and ?o = "unat (e_phoff H)"
  have P: "P k = proghdr_at (disk_image dk) (of_nat (?o + 32 * k))" for k by (simp add: P_def)
  obtain s1 where s1: "readseg dk ELFHDR (SECTSIZE * 8) 0 s = Some s1" "hdr_loaded dk (bmem s1)"
    using hdr_read [OF assms(3)] by blast
  have H: "elf_at (bmem s1) ELFHDR = H" unfolding H_def by (rule hdr_elf [OF s1(2)])
  have ph: "ELFHDR + e_phoff H = ELFHDR + of_nat (?o + 32 * 0)" by simp
  have eph: "ELFHDR + e_phoff H + SIZEOF_Proghdr * ucast (e_phnum H) = ELFHDR + of_nat (?o + 32 * ?n)"
    by (simp add: SIZEOF_Proghdr_def unsigned_ucast_eq)
  obtain s2 where s2: "ph_loop dk (ELFHDR + of_nat (?o + 32 * ?n)) (ELFHDR + of_nat (?o + 32 * 0)) s1 = Some s2"
      "hdr_loaded dk (bmem s2)" "\<forall>j<?n. seg_loaded dk (bmem s2) (P j)"
    using ph_loop_ok [OF assms(3,5), of 0 s1, folded P] assms(6,7) s1(2) by auto
  let ?m = "store16 (bmem s2) 0xb809e 0x0a4c"
  have "elf_at ?m ELFHDR = H" unfolding H_def by (rule hdr_elf [OF video_write [OF s2(2)]])
  then have "bootmain dk s = Some (Jump (e_entry H) (s2\<lparr>bmem := ?m\<rparr>))"
    unfolding bootmain_def s1(1) Option.bind.bind_lunit Let_def H eph
    using assms(4) s2(1) by (simp add: ph [symmetric])
  moreover have "\<forall>k<?n. seg_loaded dk ?m (P k)" using video_write_seg s2(3) assms(6) by blast
  ultimately show ?thesis by (intro exI [of _ "s2\<lparr>bmem := ?m\<rparr>"]) simp
qed

text \<open>A file with two segments, its headers and bytes that depend on the sector only after them.\<close>

definition demo_file :: "u8 list" where
  "demo_file =
    [127, 69, 76, 70, 1, 1, 1, 0, 0, 0, 0, 0, 0, 0, 0, 0,
     2, 0, 3, 0, 1, 0, 0, 0, 12, 0, 16, 0, 52, 0, 0, 0,
     0, 0, 0, 0, 0, 0, 0, 0, 52, 0, 32, 0, 2, 0, 40, 0,
     0, 0, 0, 0, 1, 0, 0, 0, 0, 16, 0, 0, 0, 0, 16, 240,
     0, 0, 16, 0, 0, 24, 0, 0, 0, 24, 0, 0, 5, 0, 0, 0,
     0, 16, 0, 0, 1, 0, 0, 0, 0, 48, 0, 0, 0, 32, 16, 240,
     0, 32, 16, 0, 0, 9, 0, 0, 52, 18, 0, 0, 6, 0, 0, 0,
     0, 16, 0, 0]"

definition demo_disk :: disk_dev where
  "demo_disk = \<lparr>disk_status = (\<lambda>i. if even i then 0x80 else 0x40),
     disk_sector = (\<lambda>lba k. if lba = 1 \<and> k < 116 then demo_file ! k else ucast lba)\<rparr>"

lemma demo_byte: "k < 116 \<Longrightarrow> disk_image demo_disk (of_nat k) = demo_file ! k"
  by (simp add: disk_image_def image_def demo_disk_def)

lemma demo_elf: "e_magic (elf_at (disk_image demo_disk) 0) = ELF_MAGIC"
 "e_phoff (elf_at (disk_image demo_disk) 0) = 52"
 "e_phnum (elf_at (disk_image demo_disk) 0) = 2"
 "e_entry (elf_at (disk_image demo_disk) 0) = 0x10000C"
  by (simp_all add: elf_at_def load32_def load16_def disk_image_def image_def demo_disk_def demo_file_def ELF_MAGIC_def)

lemma demo_segments:
  "p_pa (proghdr_at (disk_image demo_disk) 52) = 0x100000" "p_memsz (proghdr_at (disk_image demo_disk) 52) = 0x1800"
  "p_offset (proghdr_at (disk_image demo_disk) 52) = 0x1000"
  "p_pa (proghdr_at (disk_image demo_disk) 84) = 0x102000" "p_memsz (proghdr_at (disk_image demo_disk) 84) = 0x1234"
  "p_offset (proghdr_at (disk_image demo_disk) 84) = 0x3000"
  by (simp_all add: proghdr_at_def load32_def disk_image_def image_def demo_disk_def demo_file_def)

lemma demo_ready: "disk_ready demo_disk"
  unfolding disk_ready_def
proof
  fix i show "\<exists>j\<ge>i. disk_status demo_disk j AND 0xC0 = 0x40"
    by (rule exI [of _ "2 * i + 1"]) (simp add: demo_disk_def)
qed

theorem bootmain_loads_witness:
  "\<exists>s'. bootmain demo_disk \<lparr>bmem = (\<lambda>_. 0), disk_polls = 0, regs_out = [], bportLog = []\<rparr> = Some (Jump 0x10000C s')
     \<and> bmem s' 0x100000 = 9 \<and> bmem s' 0x103200 = 34"
proof -
  let ?H = "elf_at (disk_image demo_disk) 0" and ?P = "\<lambda>k. proghdr_at (disk_image demo_disk) (e_phoff (elf_at (disk_image demo_disk) 0) + 32 * of_nat k)"
  have n: "unat (e_phnum ?H) = 2" by (simp add: demo_elf)
  have lt2: "k < 2 \<Longrightarrow> k = 0 \<or> k = 1" for k :: nat by linarith
  have P: "?P 0 = proghdr_at (disk_image demo_disk) 52" "?P 1 = proghdr_at (disk_image demo_disk) 84" by (simp_all add: demo_elf)
  have ok: "seg_ok (?P 0)" "seg_ok (?P 1)" "seg_apart (?P 0) (?P 1)"
    unfolding P by (simp_all add: seg_ok_def seg_apart_def loadable_def seg_hi_def seg_lo_def demo_segments)
  have A: "\<forall>k<unat (e_phnum ?H). seg_ok (?P k)" using ok(1,2) lt2 unfolding n by blast
  have B: "\<forall>j<unat (e_phnum ?H). \<forall>k<j. seg_apart (?P k) (?P j)"
    using ok(3) unfolding n by (auto dest!: lt2 simp: less_Suc_eq)
  obtain s' where s': "bootmain demo_disk \<lparr>bmem = (\<lambda>_. 0), disk_polls = 0, regs_out = [], bportLog = []\<rparr> = Some (Jump (e_entry ?H) s')"
      "\<forall>k<unat (e_phnum ?H). seg_loaded demo_disk (bmem s') (?P k)"
    using bootmain_loads [OF demo_ready demo_elf(1) _ A B] by (auto simp: demo_elf)
  have L: "seg_loaded demo_disk (bmem s') (proghdr_at (disk_image demo_disk) 52)"
      "seg_loaded demo_disk (bmem s') (proghdr_at (disk_image demo_disk) 84)" 
    using s'(2) [rule_format, of 0] s'(2) [rule_format, of 1] unfolding n P by simp_all
  have "bmem s' (0x100000 + of_nat 0) = image demo_disk (0x1000 + 0)"
    using L(1) [unfolded seg_loaded_def demo_segments, rule_format, of 0] by simp
  moreover have "bmem s' (0x102000 + of_nat 0x1200) = image demo_disk (0x3000 + 0x1200)"
    using L(2) [unfolded seg_loaded_def demo_segments, rule_format, of "0x1200"] by simp
  moreover have "image demo_disk (0x1000 + 0) = 9" "image demo_disk (0x3000 + 0x1200) = 34" by (simp_all add: image_def demo_disk_def)
  ultimately show ?thesis using s'(1) by (simp add: demo_elf)
qed
end
