(* ===== verification/VmInit.thy ===== *)
theory VmInit
  imports Task
begin

text \<open>
  The initialisation of virtual memory: \<open>vmem::init\<close> and \<open>vmem::pgdir::init\<close> of \<open>kernel/vmem.cc\<close>. What
  the linker and the entry code provide are arguments: the end of the kernel's image, the boot stack, and
  the address on it where the compiler puts the local variable \<open>cr0\<close>.
\<close>

section \<open>Operations\<close>

definition CR0_PE :: u32 where "CR0_PE = 0x00000001"
definition CR0_MP :: u32 where "CR0_MP = 0x00000002"
definition CR0_EM :: u32 where "CR0_EM = 0x00000004"
definition CR0_TS :: u32 where "CR0_TS = 0x00000008"
definition CR0_NE :: u32 where "CR0_NE = 0x00000020"
definition CR0_WP :: u32 where "CR0_WP = 0x00010000"
definition CR0_AM :: u32 where "CR0_AM = 0x00040000"
definition CR0_PG :: u32 where "CR0_PG = 0x80000000"

text \<open>A read through the directory that has just been loaded; there is no handler yet for a page fault.\<close>

definition vload32 :: "u32 \<Rightarrow> vmem \<Rightarrow> u32 outcome" where
  "vload32 va s = (case mmu_walk (kmem s) (kernelPageDir s) va of
     None \<Rightarrow> Inl (Fault ''page fault'') | Some a \<Rightarrow> Inr (load32 (kmem s) a))"

definition vload64 :: "u32 \<Rightarrow> vmem \<Rightarrow> (u32 \<times> u32) outcome" where
  "vload64 va s = bindE (vload32 va s) (\<lambda>lo. bindE (vload32 (va + 4) s) (\<lambda>hi. Inr (lo, hi)))"

definition lcr0 :: "u32 \<Rightarrow> vmem \<Rightarrow> vmem" where
  "lcr0 v s = s\<lparr>hwlog := Lcr0 v # hwlog s\<rparr>"

definition new_cr0 :: "u32 \<Rightarrow> u32" where
  "new_cr0 cr0 = (cr0 OR (CR0_PE OR CR0_PG OR CR0_AM OR CR0_WP OR CR0_NE OR CR0_MP)) AND NOT (CR0_TS OR CR0_EM)"

text \<open>The three mappings with which \<open>pgdir::init\<close> starts.\<close>

definition kernel_maps :: "u32 \<Rightarrow> vmem \<Rightarrow> vmem outcome option" where
  "kernel_maps bootstack s =
     bindO (Some (PHY_ADDR (pagesAddr s))) (\<lambda>pa. bindO (staticMap (kernelPageDir s) UPAGES PTSIZE pa PTE_U s) (\<lambda>s1.
     bindO (Some (PHY_ADDR bootstack)) (\<lambda>pa. bindO (staticMap (kernelPageDir s1) (KSTACKTOP - KSTKSIZE) KSTKSIZE pa PTE_W s1) (\<lambda>s2.
     staticMap (kernelPageDir s2) KERNBASE (NOT KERNBASE) 0 PTE_W s2))))"

text \<open>The checks at the end: the two mappings, then a page mapped, replaced and removed again at 2 GB.\<close>

definition map_checks :: "u32 \<Rightarrow> u32 \<Rightarrow> u32 \<Rightarrow> vmem \<Rightarrow> vmem outcome" where
  "map_checks stacktop cr0Addr cr0 s =
     bindE (vload64 UPAGES s) (\<lambda>x. bindE (assertE ''UPAGES'' (x = (load32 (kmem s) (pagesAddr s), load32 (kmem s) (pagesAddr s + 4)))) (\<lambda>_.
     bindE (vload32 (KSTACKTOP - (stacktop - cr0Addr)) s) (\<lambda>x. bindE (assertE ''cr0'' (x = cr0)) (\<lambda>_. Inr s))))"

definition va2gb :: u32 where "va2gb = 0x80000000"

definition alloc_checked :: "vmem \<Rightarrow> (nat \<times> vmem) outcome" where
  "alloc_checked s = bindE (page_alloc False s) (\<lambda>(pp, s1).
     case pp of None \<Rightarrow> Inl (Panic ''PageInfo::alloc'') | Some i \<Rightarrow> Inr (i, s1))"

definition fill_page :: "nat \<Rightarrow> u8 \<Rightarrow> vmem \<Rightarrow> vmem outcome" where
  "fill_page i v s = bindE (toKernV s i) (\<lambda>kv. Inr (s\<lparr>kmem := mem_set (kmem s) kv v PGSIZE\<rparr>))"

definition insert_check :: "vmem \<Rightarrow> vmem outcome" where
  "insert_check s =
     bindE (alloc_checked s) (\<lambda>(pp0, s).
     bindE (fill_page pp0 0x18 s) (\<lambda>s. bindE (insert_page (kernelPageDir s) pp0 va2gb PTE_W s) (\<lambda>(_, s).
     bindE (page_at s pp0) (\<lambda>p. bindE (assertE ''pp0->refCount == 1'' (refCount p = 1)) (\<lambda>_.
     bindE (vload64 va2gb s) (\<lambda>x. bindE (assertE ''va2gb'' (x = (0x18181818, 0x18181818))) (\<lambda>_.
     bindE (alloc_checked s) (\<lambda>(pp1, s).
     bindE (fill_page pp1 0x10 s) (\<lambda>s. bindE (insert_page (kernelPageDir s) pp1 va2gb PTE_W s) (\<lambda>(_, s).
     bindE (page_at s pp0) (\<lambda>p. bindE (assertE ''pp0->refCount == 0'' (refCount p = 0)) (\<lambda>_.
     bindE (assertE ''pp0->nextFree'' (nextFree p \<noteq> None)) (\<lambda>_.
     bindE (vload64 va2gb s) (\<lambda>x. bindE (assertE ''va2gb'' (x = (0x10101010, 0x10101010))) (\<lambda>_.
     bindE (remove (kernelPageDir s) va2gb s) (\<lambda>s.
     bindE (page_at s pp1) (\<lambda>p. bindE (assertE ''pp1->refCount == 0'' (refCount p = 0)) (\<lambda>_.
     bindE (assertE ''pp1->nextFree'' (nextFree p \<noteq> None)) (\<lambda>_. Inr s)))))))))))))))))))"

text \<open>\<open>cr0\<close> is the register's value before; the variable of that name is written to its place on the boot stack.\<close>

definition pgdir_init :: "u32 \<Rightarrow> u32 \<Rightarrow> u32 \<Rightarrow> u32 \<Rightarrow> machine \<Rightarrow> machine outcome option" where
  "pgdir_init bootstack stacktop cr0Addr cr0 m =
     bindO (kernel_maps bootstack (vm m)) (\<lambda>s. bindO (Some (load_cr3 (kernelPageDir s) (m\<lparr>vm := s\<rparr>))) (\<lambda>m1.
     let cr0' = new_cr0 cr0; s1 = lcr0 cr0' ((vm m1)\<lparr>kmem := store32 (kmem (vm m1)) cr0Addr cr0'\<rparr>) in
     bindO (Some (bindE (map_checks stacktop cr0Addr cr0' s1) insert_check)) (\<lambda>s2. Some (Inr (m1\<lparr>vm := s2\<rparr>)))))"

text \<open>Printing the ends of the kernel calls \<open>bootAlloc(0)\<close>.\<close>

definition vmem_init :: "(u8 \<Rightarrow> u8) \<Rightarrow> u32 \<Rightarrow> u32 \<Rightarrow> u32 \<Rightarrow> u32 \<Rightarrow> u32 \<Rightarrow> u32 \<Rightarrow> machine \<Rightarrow> machine outcome option" where
  "vmem_init cmos kernStart kernEnd bootstack stacktop cr0Addr cr0 m =
     (let m1 = kprint ''Initializing virtual memory...'' [] m; s1 = detect cmos (vm m1);
          m2 = kprint ''Available'' [Num (totalMem s1), Num ((totalMem s1 + 1023) div 1024)] (m1\<lparr>vm := s1\<rparr>) in
      bindO (Some (pgdir_alloc kernEnd (vm m2))) (\<lambda>s3. bindO (Some (page_init kernEnd s3)) (\<lambda>s4.
      bindO (allocArray kernEnd (m2\<lparr>vm := s4\<rparr>)) (\<lambda>m5.
      bindO (pgdir_init bootstack stacktop cr0Addr cr0 (m5\<lparr>vm := (vm m5)\<lparr>bootAllocForbidden := True\<rparr>\<rparr>)) (\<lambda>m6.
      bindO (Some (bootAlloc kernEnd 0 (vm m6))) (\<lambda>(cur, s7).
      Some (Inr (kprint ''Done'' [] (kprint ''Kernel at'' [Num kernStart, Num kernEnd, Num cur, Num ((cur - kernStart + 1023) div 1024)]
        (m6\<lparr>vm := s7\<rparr>))))))))))"

section \<open>Mapping ranges, with the tables counted\<close>

text \<open>The globals that mapping pages leaves alone.\<close>

definition fixed :: "vmem \<Rightarrow> vmem \<Rightarrow> bool" where
  "fixed s s' \<longleftrightarrow> kernelPageDir s' = kernelPageDir s \<and> pagesAddr s' = pagesAddr s \<and> nPages s' = nPages s
     \<and> totalMem s' = totalMem s \<and> bootNext s' = bootNext s \<and> bootAllocForbidden s' = bootAllocForbidden s
     \<and> mmioNext s' = mmioNext s \<and> length (pages s') = length (pages s)"

lemma fixed_refl [simp]: "fixed s s"
  by (simp add: fixed_def)

lemma fixed_trans [trans]: "fixed s t \<Longrightarrow> fixed t u \<Longrightarrow> fixed s u"
  by (simp add: fixed_def)

lemma fixedD:
  assumes "fixed s s'"
  shows "kernelPageDir s' = kernelPageDir s" "pagesAddr s' = pagesAddr s" "nPages s' = nPages s"
    "bootNext s' = bootNext s" "bootAllocForbidden s' = bootAllocForbidden s"
  using assms by (simp_all add: fixed_def)

lemma page_alloc_fixed: "page_alloc z s = Inr (r, s') \<Longrightarrow> fixed s s'"
  by (auto simp: page_alloc_def fixed_def Let_def split: option.splits if_splits)

lemma incRef_fixed: "incRef i s = Inr s' \<Longrightarrow> fixed s s'"
  by (auto simp: incRef_def fixed_def)

lemma findPte_fixed: "findPte pd va c s = Inr (r, s') \<Longrightarrow> fixed s s'"
  by (auto simp: findPte_def Let_def invalidateTLB_def split: if_splits option.splits
      dest!: page_alloc_fixed incRef_fixed) (simp_all add: fixed_def)

lemma staticMap_step_fixed: "staticMap_step pd va pa perm off s = Inr s' \<Longrightarrow> fixed s s'"
  by (auto simp: staticMap_step_def invalidateTLB_def split: option.splits dest!: findPte_fixed) (simp add: fixed_def)

text \<open>The directory slots of \<open>J\<close> that have no table yet.\<close>

definition missing :: "vmem \<Rightarrow> nat \<Rightarrow> nat set \<Rightarrow> nat" where
  "missing s d J = card {j \<in> J. \<not> present (view (kmem s) d j)}"

lemma missing_fill:
  assumes "finite J" "j \<in> J" "present (view (kmem s') d j)"
    and "\<And>k. k \<noteq> j \<Longrightarrow> view (kmem s') d k = view (kmem s) d k"
  shows "missing s d J = missing s' d J + (if present (view (kmem s) d j) then 0 else 1)"
proof (cases "present (view (kmem s) d j)")
  case True
  have "present (view (kmem s') d k) \<longleftrightarrow> present (view (kmem s) d k)" for k using assms(3,4) True by (cases "k = j") auto
  then show ?thesis using True by (simp add: missing_def)
next
  case False
  have "{k \<in> J. \<not> present (view (kmem s) d k)} = insert j {k \<in> J. \<not> present (view (kmem s') d k)}"
    using False assms(2-4) by fastforce
  then show ?thesis using False assms(1,3) by (simp add: missing_def)
qed

text \<open>New tables come from the free pages \<open>fl\<close>.\<close>

definition tables_from :: "vmem \<Rightarrow> vmem \<Rightarrow> nat \<Rightarrow> nat list \<Rightarrow> bool" where
  "tables_from s s' d fl \<longleftrightarrow> (\<forall>j. view (kmem s') d j = view (kmem s) d j \<or> pn (view (kmem s') d j) \<in> set fl)"

lemma tables_from_refl [simp]: "tables_from s s d fl"
  by (simp add: tables_from_def)

lemma tables_from_trans: "tables_from s t d fl \<Longrightarrow> tables_from t u d (drop c fl) \<Longrightarrow> tables_from s u d fl"
  unfolding tables_from_def by (metis in_set_dropD)

lemma staticMap_step_full:
  assumes inv: "alloc_inv s fl" "dir_ok s d fl" and va: "unat (PDX (va + off)) \<noteq> uvpt_ix"
    and room: "present (view (kmem s) d (unat (PDX (va + off)))) \<or> fl \<noteq> []"
  defines "c \<equiv> (if present (view (kmem s) d (unat (PDX (va + off)))) then 0 else 1 :: nat)"
  shows "\<exists>s'. staticMap_step (toPhy d + KERNBASE) va pa perm off s = Inr s'
     \<and> updated s s' (drop c fl) d (va + off) ((pa + off) OR PTE_P OR perm)
     \<and> present (view (kmem s') d (unat (PDX (va + off)))) \<and> tables_from s s' d fl
     \<and> (\<forall>j. j \<noteq> unat (PDX (va + off)) \<longrightarrow> view (kmem s') d j = view (kmem s) d j)"
proof -
  let ?va = "va + off" and ?j = "unat (PDX (va + off))" and ?l = "unat (PTX (va + off))"
  obtain s1 fl' where s1: "findPte (toPhy d + KERNBASE) ?va True s
        = Inr (Some (slot (pn (view (kmem s1) d ?j)) ?l), s1)"
      "alloc_inv s1 fl'" "dir_ok s1 d fl'" "keeps s s1 d" "present (view (kmem s1) d ?j)"
    and cs: "if present (view (kmem s) d ?j) then s1 = s \<and> fl' = fl
         else fl = hd fl # fl' \<and> pages s1 = (pages s)[hd fl := \<lparr>nextFree = None, refCount = 1\<rparr>]
            \<and> view (kmem s1) d ?j = toPhy (hd fl) OR TABLE_FLAGS
            \<and> (\<forall>j. j \<noteq> ?j \<longrightarrow> view (kmem s1) d j = view (kmem s) d j)"
    using findPte_create [OF inv room] by blast
  have fl': "fl' = drop c fl"
  proof (cases "present (view (kmem s) d ?j)")
    case False
    then have "fl = hd fl # fl'" using cs by simp
    then have "tl fl = fl'" by (metis list.sel(3))
    then show ?thesis using False by (simp add: c_def drop_Suc)
  qed (use cs in \<open>simp add: c_def\<close>)
  have tf: "view (kmem s1) d j = view (kmem s) d j \<or> pn (view (kmem s1) d j) \<in> set fl" for j
  proof (cases "present (view (kmem s) d ?j) \<or> j \<noteq> ?j")
    case False
    then have fl: "fl = hd fl # fl'" "view (kmem s1) d j = toPhy (hd fl) OR TABLE_FLAGS" using cs by simp_all
    then have "hd fl \<in> set fl" by (metis list.set_intros(1))
    then show ?thesis using fl(2) table_entry(2) alloc_inv_lt [OF inv(1)] nPages_unat [OF inv(1)] by fastforce
  qed (use cs in \<open>auto split: if_splits\<close>)
  let ?t = "pn (view (kmem s1) d ?j)"
  have t: "?t < 131072" "?t \<noteq> d"
    using dir_inv_table [OF s1(3) PDX_lt s1(5)] nPages_unat [OF s1(2)]
      dir_inv_neq [OF s1(3) PDX_lt va s1(5)] by simp_all
  let ?e = "(pa + off) OR PTE_P OR perm"
  let ?s' = "invalidateTLB ?va (s1\<lparr>kmem := store32 (kmem s1) (slot ?t ?l) ?e\<rparr>)"
  have "updated s ?s' fl' d ?va ?e"
    using updated_store [OF s1(2,3) va s1(5), of s ?e] s1(4) keeps_entry [OF s1(4)] by (simp add: keeps_def)
  moreover have v: "view (kmem ?s') d j = view (kmem s1) d j" for j
    using t by (simp add: invalidateTLB_def view_store PTX_lt put_def)
  moreover have "view (kmem s1) d j = view (kmem s) d j" if "j \<noteq> ?j" for j
    using cs that by (auto split: if_splits)
  moreover have "staticMap_step (toPhy d + KERNBASE) va pa perm off s = Inr ?s'"
    using s1(1) by (simp add: staticMap_step_def)
  ultimately show ?thesis using s1(5) tf unfolding fl' tables_from_def by (intro exI [of _ ?s']) simp
qed

text \<open>\<open>n\<close> pages from page \<open>i\<close> of the range lie in the slots \<open>J\<close>.\<close>

definition within :: "u32 \<Rightarrow> nat \<Rightarrow> nat \<Rightarrow> nat set \<Rightarrow> bool" where
  "within va i n J \<longleftrightarrow> finite J \<and> uvpt_ix \<notin> J \<and> i + n < 1048576 \<and> unat va + 4096 * (i + n) \<le> 4294967296
     \<and> (\<forall>k. i \<le> k \<and> k < i + n \<longrightarrow> unat (PDX (va + page_off k)) \<in> J)"

lemma mapped_range_nil: "mapped_range s s d va pa perm i 0"
  by (auto simp: mapped_range_def)

lemma staticMap_loop_full:
  assumes "alloc_inv s fl" "dir_ok s d fl" "within va i n J" "missing s d J \<le> length fl"
    and "4096 * (i + n) < unat sz + 4096" "unat sz \<le> 4096 * (i + n)"
  shows "\<exists>s' c. staticMap_loop (toPhy d + KERNBASE) va sz pa perm (page_off i) s = Some (Inr s')
     \<and> alloc_inv s' (drop c fl) \<and> dir_ok s' d (drop c fl) \<and> c \<le> missing s d J \<and> fixed s s' \<and> tables_from s s' d fl
     \<and> mapped_range s s' d va pa perm i n \<and> (\<forall>j. j \<notin> J \<longrightarrow> view (kmem s') d j = view (kmem s) d j)"
  using assms
proof (induction n arbitrary: i s fl)
  case 0
  then have "\<not> page_off i < sz"
    by (simp add: word_less_nat_alt unat_page_off within_def)
  then show ?case
    using 0 mapped_range_nil by (intro exI [of _ s] exI [of _ 0]) (simp add: staticMap_loop.simps)
next
  case (Suc n)
  let ?va = "va + page_off i" and ?j = "unat (PDX (va + page_off i))"
  have i: "unat va + 4096 * (i + Suc n) \<le> 4294967296" "?j \<in> J" "?j \<noteq> uvpt_ix" "finite J" "within va (Suc i) n J"
    using Suc.prems(3) by (auto simp: within_def)
  have lt: "page_off i < sz"
    using Suc.prems(3,5,6) by (simp add: word_less_nat_alt unat_page_off within_def)
  define c0 where "c0 = (if present (view (kmem s) d ?j) then 0 else 1 :: nat)"
  have "fl \<noteq> []" if "\<not> present (view (kmem s) d ?j)"
  proof -
    have "?j \<in> {j \<in> J. \<not> present (view (kmem s) d j)}" using that i(2) by simp
    then have "0 < missing s d J" unfolding missing_def using i(4) by (auto simp: card_gt_0_iff)
    then show ?thesis using Suc.prems(4) by auto
  qed
  then obtain s1 where s1: "staticMap_step (toPhy d + KERNBASE) va pa perm (page_off i) s = Inr s1"
      "updated s s1 (drop c0 fl) d ?va ((pa + page_off i) OR PTE_P OR perm)"
      "present (view (kmem s1) d ?j)" "tables_from s s1 d fl" "\<And>j. j \<noteq> ?j \<Longrightarrow> view (kmem s1) d j = view (kmem s) d j"
    using staticMap_step_full [OF Suc.prems(1,2) i(3)] unfolding c0_def by blast
  have u1: "alloc_inv s1 (drop c0 fl)" "dir_ok s1 d (drop c0 fl)" using s1(2) unfolding updated_def by blast+
  have m: "missing s d J = missing s1 d J + c0"
    using missing_fill [OF i(4,2) s1(3,5)] by (simp add: c0_def)
  then have len: "missing s1 d J \<le> length (drop c0 fl)" using Suc.prems(4) by simp
  obtain s' c where s': "staticMap_loop (toPhy d + KERNBASE) va sz pa perm (page_off (Suc i)) s1 = Some (Inr s')"
      "alloc_inv s' (drop c (drop c0 fl))" "dir_ok s' d (drop c (drop c0 fl))" "c \<le> missing s1 d J" "fixed s1 s'" "tables_from s1 s' d (drop c0 fl)"
      "mapped_range s1 s' d va pa perm (Suc i) n" "\<forall>j. j \<notin> J \<longrightarrow> view (kmem s') d j = view (kmem s1) d j"
    using Suc.IH [OF u1 i(5) len] Suc.prems(5,6) by auto
  have "mapped_range s s' d va pa perm i (Suc n)" by (rule mapped_range_Suc [OF s1(2) s'(7) i(1,3)])
  moreover have "fixed s s'" using staticMap_step_fixed [OF s1(1)] s'(5) by (rule fixed_trans)
  moreover have "view (kmem s') d j = view (kmem s) d j" if "j \<notin> J" for j
    using s'(8) s1(5) that i(2) by (cases "j = ?j") auto
  moreover have "staticMap_loop (toPhy d + KERNBASE) va sz pa perm (page_off i) s = Some (Inr s')"
    using lt s1(1) s'(1) by (simp add: staticMap_loop.simps [of _ _ _ _ _ "page_off i"] page_off_Suc)
  moreover have "tables_from s s' d fl" by (rule tables_from_trans [OF s1(4) s'(6)])
  ultimately show ?case using s'(2-4) m by (intro exI [of _ s'] exI [of _ "c + c0"]) simp
qed

lemma staticMap_full:
  assumes "alloc_inv s fl" "dir_ok s d fl" "within va 0 n J" "missing s d J \<le> length fl"
    and "4096 * n < unat sz + 4096" "unat sz \<le> 4096 * n"
  shows "\<exists>s' c. staticMap (toPhy d + KERNBASE) va sz pa perm s = Some (Inr s')
     \<and> alloc_inv s' (drop c fl) \<and> dir_ok s' d (drop c fl) \<and> c \<le> missing s d J \<and> fixed s s' \<and> tables_from s s' d fl
     \<and> mapped_range s s' d va pa perm 0 n \<and> (\<forall>j. j \<notin> J \<longrightarrow> view (kmem s') d j = view (kmem s) d j)"
  using staticMap_loop_full [OF assms(1-4), of sz pa perm] assms(5,6) by (simp add: staticMap_def page_off_def)

text \<open>A range inside the directory slots \<open>lo\<close> to \<open>hi\<close>.\<close>

lemma withinI:
  assumes "lo * 4194304 \<le> unat va" "unat va + 4096 * n \<le> (hi + 1) * 4194304" "hi < 1024" "n < 1048576" "uvpt_ix \<notin> {lo..hi}"
  shows "within va 0 n {lo..hi}"
proof -
  have "unat (PDX (va + page_off k)) \<in> {lo..hi}" if "k < n" for k
  proof -
    have "unat (va + page_off k) = unat va + 4096 * k"
      using assms(2-4) that by (subst unat_add_no_wrap) (simp_all add: unat_page_off)
    then have p: "unat (PDX (va + page_off k)) = (unat va + 4096 * k) div 4194304" by (simp add: unat_PDX)
    have "lo \<le> (unat va + 4096 * k) div 4194304" using assms(1) by (simp add: less_eq_div_iff_mult_less_eq)
    moreover have "(unat va + 4096 * k) div 4194304 < hi + 1"
      using assms(2) that by (intro less_mult_imp_div_less) linarith
    ultimately show ?thesis by (simp add: p)
  qed
  then show ?thesis using assms by (simp add: within_def)
qed

lemma missing_le: "finite J \<Longrightarrow> missing s d J \<le> card J"
  unfolding missing_def by (rule card_mono) auto

lemma staticMap_card:
  assumes "alloc_inv s fl" "dir_ok s d fl" "within va 0 n J" "card J \<le> length fl"
    and "4096 * n < unat sz + 4096" "unat sz \<le> 4096 * n"
  shows "\<exists>s' c. staticMap (toPhy d + KERNBASE) va sz pa perm s = Some (Inr s')
     \<and> alloc_inv s' (drop c fl) \<and> dir_ok s' d (drop c fl) \<and> c \<le> card J \<and> fixed s s' \<and> tables_from s s' d fl
     \<and> mapped_range s s' d va pa perm 0 n \<and> (\<forall>j. j \<notin> J \<longrightarrow> view (kmem s') d j = view (kmem s) d j)"
proof -
  have m: "missing s d J \<le> card J" using assms(3) by (simp add: missing_le within_def)
  show ?thesis using staticMap_full [OF assms(1-3) order.trans [OF m assms(4)] assms(5,6), of pa perm] m order.trans by blast
qed

lemma mapped_range_other:
  assumes "mapped_range s s' d va pa perm 0 n" "within va 0 n J" "unat (PDX va') \<noteq> uvpt_ix" "unat (PDX va') \<notin> J"
  shows "entry s' d va' = entry s d va'"
proof -
  have "(PDX va', PTX va') \<noteq> (PDX (va + page_off k), PTX (va + page_off k))" if "k < n" for k
    using assms(2,4) that by (auto simp: within_def)
  then show ?thesis using assms(1,3) by (simp add: mapped_range_def)
qed

lemma withinD: "within va 0 n J \<Longrightarrow> k < n \<Longrightarrow> unat (PDX (va + page_off k)) \<in> J \<and> unat (PDX (va + page_off k)) \<noteq> uvpt_ix"
  unfolding within_def by (metis add_0 le0)

lemma mapped_rangeD: "mapped_range s s' d va pa perm 0 n \<Longrightarrow> k < n \<Longrightarrow> entry s' d (va + page_off k) = (pa + page_off k) OR PTE_P OR perm"
  by (simp add: mapped_range_def)

section \<open>The kernel's own mappings\<close>

lemma kernel_ranges:
  "within UPAGES 0 1024 {892..892}" "within (KSTACKTOP - KSTKSIZE) 0 8 {895..895}" "within KERNBASE 0 131072 {896..1023}"
proof -
  have u: "uvpt_ix = 893" by (simp add: uvpt_ix_def unat_PDX UVPT_def ULIM_def MMIOBASE_def MMIOLIM_def KSTACKTOP_def PTSIZE_def)
  show "within UPAGES 0 1024 {892..892}"
    by (rule withinI) (simp_all add: mmu_consts u)
  show "within (KSTACKTOP - KSTKSIZE) 0 8 {895..895}"
    by (rule withinI) (simp_all add: mmu_consts u)
  show "within KERNBASE 0 131072 {896..1023}"
    by (rule withinI) (simp_all add: KERNBASE_def u)
qed

definition kernel_slots :: "nat set" where
  "kernel_slots = {892} \<union> {895..1023}"

text \<open>What the three mappings give.\<close>

definition kernel_mapped :: "vmem \<Rightarrow> nat \<Rightarrow> u32 \<Rightarrow> u32 \<Rightarrow> bool" where
  "kernel_mapped s d arr bootstack \<longleftrightarrow>
     (\<forall>k<1024. entry s d (UPAGES + page_off k) = (arr - KERNBASE + page_off k) OR PTE_P OR PTE_U)
   \<and> (\<forall>k<8. entry s d (KSTACKTOP - KSTKSIZE + page_off k) = (bootstack - KERNBASE + page_off k) OR PTE_P OR PTE_W)
   \<and> (\<forall>k<131072. entry s d (KERNBASE + page_off k) = page_off k OR PTE_P OR PTE_W)"

lemma kernel_maps_ok:
  assumes inv: "alloc_inv s fl" "dir_ok s d fl" "kernelPageDir s = toPhy d + KERNBASE"
    and addr: "KERNBASE \<le> pagesAddr s" "KERNBASE \<le> bootstack" and room: "130 \<le> length fl"
  shows "\<exists>s' c. kernel_maps bootstack s = Some (Inr s') \<and> alloc_inv s' (drop c fl) \<and> dir_ok s' d (drop c fl) \<and> c \<le> 130
     \<and> fixed s s' \<and> tables_from s s' d fl \<and> kernel_mapped s' d (pagesAddr s) bootstack
     \<and> (\<forall>j. j \<notin> kernel_slots \<longrightarrow> view (kmem s') d j = view (kmem s) d j)
     \<and> (\<forall>va. unat (PDX va) \<noteq> uvpt_ix \<longrightarrow> unat (PDX va) \<notin> kernel_slots \<longrightarrow> entry s' d va = entry s d va)"
proof -
  let ?A = "{892..892 :: nat}" and ?B = "{895..895 :: nat}" and ?C = "{896..1023 :: nat}"
  have P: "PHY_ADDR (pagesAddr s) = Inr (pagesAddr s - KERNBASE)" "PHY_ADDR bootstack = Inr (bootstack - KERNBASE)"
    using addr by (simp_all add: PHY_ADDR_def not_less)
  obtain s1 c1 where s1: "staticMap (toPhy d + KERNBASE) UPAGES PTSIZE (pagesAddr s - KERNBASE) PTE_U s = Some (Inr s1)"
      "alloc_inv s1 (drop c1 fl)" "dir_ok s1 d (drop c1 fl)" "c1 \<le> 1" "fixed s s1" "tables_from s s1 d fl"
      "mapped_range s s1 d UPAGES (pagesAddr s - KERNBASE) PTE_U 0 1024" "\<forall>j. j \<notin> ?A \<longrightarrow> view (kmem s1) d j = view (kmem s) d j"
    using staticMap_card [OF inv(1,2) kernel_ranges(1), of PTSIZE "pagesAddr s - KERNBASE" PTE_U] room by (auto simp: PTSIZE_def)
  have l2: "card ?B \<le> length (drop c1 fl)" using s1(4) room by simp
  obtain s2 c2 where s2: "staticMap (toPhy d + KERNBASE) (KSTACKTOP - KSTKSIZE) KSTKSIZE (bootstack - KERNBASE) PTE_W s1 = Some (Inr s2)"
      "alloc_inv s2 (drop c2 (drop c1 fl))" "dir_ok s2 d (drop c2 (drop c1 fl))" "c2 \<le> 1" "fixed s1 s2" "tables_from s1 s2 d (drop c1 fl)"
      "mapped_range s1 s2 d (KSTACKTOP - KSTKSIZE) (bootstack - KERNBASE) PTE_W 0 8" "\<forall>j. j \<notin> ?B \<longrightarrow> view (kmem s2) d j = view (kmem s1) d j"
    using staticMap_card [OF s1(2,3) kernel_ranges(2) l2, of KSTKSIZE "bootstack - KERNBASE" PTE_W] by (auto simp: KSTKSIZE_def)
  have l3: "card ?C \<le> length (drop c2 (drop c1 fl))" using s1(4) s2(4) room by simp
  obtain s3 c3 where s3: "staticMap (toPhy d + KERNBASE) KERNBASE (NOT KERNBASE) 0 PTE_W s2 = Some (Inr s3)"
      "alloc_inv s3 (drop c3 (drop c2 (drop c1 fl)))" "dir_ok s3 d (drop c3 (drop c2 (drop c1 fl)))" "c3 \<le> 128" "fixed s2 s3" "tables_from s2 s3 d (drop c2 (drop c1 fl))"
      "mapped_range s2 s3 d KERNBASE 0 PTE_W 0 131072" "\<forall>j. j \<notin> ?C \<longrightarrow> view (kmem s3) d j = view (kmem s2) d j"
    using staticMap_card [OF s2(2,3) kernel_ranges(3) l3, of "NOT KERNBASE" 0 PTE_W] by (auto simp: KERNBASE_def)
  have "kernelPageDir s1 = toPhy d + KERNBASE" "kernelPageDir s2 = toPhy d + KERNBASE"
    using inv(3) fixedD(1) [OF s1(5)] fixedD(1) [OF s2(5)] by simp_all
  then have "kernel_maps bootstack s = Some (Inr s3)"
    using inv(3) by (simp add: kernel_maps_def P s1(1) s2(1) s3(1))
  moreover have "kernel_mapped s3 d (pagesAddr s) bootstack"
    unfolding kernel_mapped_def
  proof (intro conjI allI impI)
    fix k :: nat assume k: "k < 1024"
    note w = withinD [OF kernel_ranges(1) k]
    have "entry s3 d (UPAGES + page_off k) = entry s2 d (UPAGES + page_off k)"
      by (rule mapped_range_other [OF s3(7) kernel_ranges(3)]) (use w in auto)
    also have "\<dots> = entry s1 d (UPAGES + page_off k)"
      by (rule mapped_range_other [OF s2(7) kernel_ranges(2)]) (use w in auto)
    finally show "entry s3 d (UPAGES + page_off k) = (pagesAddr s - KERNBASE + page_off k) OR PTE_P OR PTE_U"
      using mapped_rangeD [OF s1(7) k] by simp
  next
    fix k :: nat assume k: "k < 8"
    note w = withinD [OF kernel_ranges(2) k]
    have "entry s3 d (KSTACKTOP - KSTKSIZE + page_off k) = entry s2 d (KSTACKTOP - KSTKSIZE + page_off k)"
      by (rule mapped_range_other [OF s3(7) kernel_ranges(3)]) (use w in auto)
    then show "entry s3 d (KSTACKTOP - KSTKSIZE + page_off k) = (bootstack - KERNBASE + page_off k) OR PTE_P OR PTE_W"
      using mapped_rangeD [OF s2(7) k] by simp
  next
    fix k :: nat assume "k < 131072"
    then show "entry s3 d (KERNBASE + page_off k) = page_off k OR PTE_P OR PTE_W"
      using mapped_rangeD [OF s3(7)] by simp
  qed
  moreover have "view (kmem s3) d j = view (kmem s) d j" if "j \<notin> kernel_slots" for j
    using s1(8) s2(8) s3(8) that by (auto simp: kernel_slots_def)
  moreover have "entry s3 d va = entry s d va" if "unat (PDX va) \<noteq> uvpt_ix" "unat (PDX va) \<notin> kernel_slots" for va
    using mapped_range_other [OF s3(7) kernel_ranges(3) that(1)] mapped_range_other [OF s2(7) kernel_ranges(2) that(1)]
      mapped_range_other [OF s1(7) kernel_ranges(1) that(1)] that(2) by (auto simp: kernel_slots_def)
  moreover have "fixed s s3" using s1(5) s2(5) s3(5) fixed_trans by blast
  moreover have "tables_from s s3 d fl" using tables_from_trans [OF s1(6) tables_from_trans [OF s2(6) s3(6)]] .
  ultimately show ?thesis using s1(4) s2(4) s3(2-4) by (intro exI [of _ s3] exI [of _ "c3 + c2 + c1"]) (simp add: add.assoc)
qed

section \<open>Reading through the directory\<close>

lemma mmu_walk_entry:
  assumes "alloc_inv s fl" "dir_ok s d fl" "present (entry s d va)"
  shows "mmu_walk (kmem s) (toPhy d + KERNBASE) va = Some (PTE_ADDR (entry s d va) + KERNBASE + PGOFF va)"
proof -
  note e = entry_present [OF assms(3)]
  have "d < 131072" using assms(2) nPages_unat [OF assms(1)] by (simp add: dir_inv_def)
  moreover have "pn (view (kmem s) d (unat (PDX va))) < 131072"
    using dir_inv_table [OF assms(2) PDX_lt conjunct1 [OF e]] nPages_unat [OF assms(1)] by simp
  ultimately show ?thesis
    using e assms(3) by (simp add: mmu_walk_def Let_def slot_PDX slot_PTX load_slot PDX_lt PTX_lt)
qed

text \<open>An entry of \<open>staticMap\<close> or \<open>insert\<close> for the frame at \<open>a\<close>.\<close>

lemma frame_entry:
  assumes "aligned 4096 a" "unat f < 4096" "present f"
  shows "PTE_ADDR (a OR f) = a" "present (a OR f)" "pn (a OR f) = pn a"
proof -
  have "PTE_ADDR a = a"
    by (rule unat_inj32) (use assms(1) in \<open>simp add: unat_PTE_ADDR aligned_def\<close>)
  then have t: "toPhy (pn a) = a" by (simp add: toPhy_pn)
  show "PTE_ADDR (a OR f) = a" "present (a OR f)" "pn (a OR f) = pn a"
    using entry_bits [OF pn_lt [of a] assms(2)] assms(3) by (simp_all add: t)
qed

lemma vload32_frame:
  assumes "alloc_inv s fl" "dir_ok s d fl" "kernelPageDir s = toPhy d + KERNBASE"
    and "entry s d va = a OR f" "aligned 4096 a" "unat f < 4096" "present f"
  shows "vload32 va s = Inr (load32 (kmem s) (a + KERNBASE + PGOFF va))"
  using mmu_walk_entry [OF assms(1,2), of va] frame_entry [OF assms(5-7)] assms(3,4)
  by (simp add: vload32_def)

lemma map_flags: "unat (PTE_P OR PTE_U) < 4096" "present (PTE_P OR PTE_U)" "unat (PTE_P OR PTE_W) < 4096" "present (PTE_P OR PTE_W)"
  "unat (PTE_W OR PTE_P) < 4096" "present (PTE_W OR PTE_P)"
  by (simp_all add: PTE_P_def PTE_U_def PTE_W_def)

lemma PGOFF_small: "aligned 4096 a \<Longrightarrow> i < 4096 \<Longrightarrow> PGOFF (a + of_nat i) = of_nat i"
  and entry_offset: "aligned 4096 a \<Longrightarrow> i < 4096 \<Longrightarrow> entry s d (a + of_nat i) = entry s d a"
proof -
  assume a: "aligned 4096 a" "i < 4096"
  have u: "unat (a + of_nat i) = unat a + i" using aligned_offset_no_wrap [OF a(1) _ a(2)] by (intro unat_add_of_nat) simp
  obtain k where k: "unat a = 4096 * k" using a(1) by (auto simp: aligned_def)
  show "PGOFF (a + of_nat i) = of_nat i"
    by (rule unat_inj32) (use a(2) k in \<open>simp add: unat_PGOFF u\<close>)
  have d: "(unat a + i) div 4096 = unat a div 4096" using a(2) k by simp
  then have "(unat a + i) div 4096 div 1024 = unat a div 4096 div 1024" by simp
  then have "(unat a + i) div 4194304 = unat a div 4194304" by (simp add: div_mult2_eq [symmetric])
  then show "entry s d (a + of_nat i) = entry s d a" using d by (simp add: entry_def unat_PDX unat_PTX u)
qed

lemma map_checks_ok:
  assumes inv: "alloc_inv s fl" "dir_ok s d fl" "kernelPageDir s = toPhy d + KERNBASE"
    and map: "kernel_mapped s d (pagesAddr s) bootstack"
    and addr: "KERNBASE \<le> pagesAddr s" "aligned 4096 (pagesAddr s)" "aligned 4096 bootstack"
    and o: "cr0Addr = bootstack + of_nat off" "stacktop = bootstack + KSTKSIZE" "off < 0x8000"
    and v: "load32 (kmem s) cr0Addr = cr0"
  shows "map_checks stacktop cr0Addr cr0 s = Inr s"
proof -
  have K: "aligned 4096 KERNBASE" by (simp add: aligned_def KERNBASE_def)
  have al: "aligned 4096 (pagesAddr s - KERNBASE)" "aligned 4096 (bootstack - KERNBASE)"
    using addr K by (simp_all add: aligned_sub)
  have pg: "aligned 4096 (page_off k)" if "k < 1048576" for k using that by (simp add: aligned_def unat_page_off)
  have UP: "aligned 4096 UPAGES" by (simp add: aligned_def mmu_consts)
  have eU: "entry s d UPAGES = (pagesAddr s - KERNBASE) OR (PTE_P OR PTE_U)"
    using map unfolding kernel_mapped_def by (auto dest!: spec [of _ 0] simp: page_off_def or.assoc)
  have "vload32 (UPAGES + of_nat i) s = Inr (load32 (kmem s) (pagesAddr s + of_nat i))" if "i < 4096" for i
    using vload32_frame [OF inv, of "UPAGES + of_nat i", OF _ al(1) map_flags(1,2)] PGOFF_small [OF UP that] entry_offset [OF UP that] eU
    by simp
  from this [of 0] this [of 4] have U: "vload64 UPAGES s = Inr (load32 (kmem s) (pagesAddr s), load32 (kmem s) (pagesAddr s + 4))"
    by (simp add: vload64_def)
  let ?k = "off div 4096" and ?i = "off mod 4096" and ?S = "KSTACKTOP - KSTKSIZE"
  have k: "?k < 8" "?i < 4096" using o(3) by auto
  have S: "aligned 4096 (?S + page_off ?k)" using k(1) pg by (intro aligned_add) (auto simp: aligned_def mmu_consts)
  have sp: "KSTACKTOP - (stacktop - cr0Addr) = ?S + page_off ?k + of_nat ?i"
  proof -
    have "(of_nat off :: u32) = page_off ?k + of_nat ?i" unfolding page_off_def of_nat_add [symmetric] by simp
    then show ?thesis unfolding o(1,2) by simp
  qed
  have "entry s d (?S + page_off ?k) = (bootstack - KERNBASE + page_off ?k) OR (PTE_P OR PTE_W)"
    using map k(1) unfolding kernel_mapped_def by (simp add: or.assoc)
  then have "vload32 (?S + page_off ?k + of_nat ?i) s = Inr (load32 (kmem s) (bootstack - KERNBASE + page_off ?k + KERNBASE + of_nat ?i))"
    using vload32_frame [OF inv, of "?S + page_off ?k + of_nat ?i", OF _ aligned_add [OF _ al(2) pg] map_flags(3,4)] PGOFF_small [OF S k(2)]
      entry_offset [OF S k(2)] k(1) by simp
  moreover have "bootstack - KERNBASE + page_off ?k + KERNBASE + of_nat ?i = cr0Addr"
  proof -
    have "(of_nat off :: u32) = page_off ?k + of_nat ?i" unfolding page_off_def of_nat_add [symmetric] by simp
    then show ?thesis unfolding o(1) by simp
  qed
  ultimately show ?thesis by (simp add: map_checks_def U sp v)
qed


section \<open>The test mapping at 2 GB\<close>

definition bytes4 :: "u8 \<Rightarrow> u32" where
  "bytes4 v = ucast v OR push_bit 8 (ucast v) OR push_bit 16 (ucast v) OR push_bit 24 (ucast v)"

lemma view_set:
  assumes "k < 131072"
  shows "view (mem_set m (toPhy k + KERNBASE) v PGSIZE) = (view m)(k := \<lambda>j. if j < 1024 then bytes4 v else 0)"
proof (intro ext)
  fix k' j
  show "view (mem_set m (toPhy k + KERNBASE) v PGSIZE) k' j = ((view m)(k := \<lambda>j. if j < 1024 then bytes4 v else 0)) k' j"
  proof (cases "k' < 131072 \<and> j < 1024")
    case True
    have b: "unat (toPhy k + KERNBASE) = 3758096384 + 4096 * k"
      using unat_slot [of k 0] assms by (simp add: slot_def)
    have *: "mem_set m (toPhy k + KERNBASE) v PGSIZE (slot k' j + of_nat i) = (if k = k' then v else m (slot k' j + of_nat i))" if "i < 4" for i
    proof -
      have a: "unat (slot k' j + of_nat i) = 3758096384 + 4096 * k' + 4 * j + i"
        using True that by (subst unat_add_of_nat) (auto simp: unat_slot)
      have "unat (slot k' j + of_nat i - (toPhy k + KERNBASE)) < 4096 \<longleftrightarrow> k = k'"
        unfolding unat_sub_if' a b using True that assms by (auto split: if_splits)
      then show ?thesis by (simp add: mem_set_eq PGSIZE_def)
    qed
    show ?thesis
      using *[of 0] *[of 1] *[of 2] *[of 3] True by (auto simp: view_def load32_def bytes4_def)
  next
    case False
    then show ?thesis using assms by (auto simp: view_def)
  qed
qed

lemma insert_new:
  assumes inv: "alloc_inv s (t # fl)" "dir_ok s d (t # fl)" and np: "\<not> present (view (kmem s) d (unat (PDX va)))"
    and va: "unat (PDX va) \<noteq> uvpt_ix" and pp: "pp < unat (nPages s)" "pp \<notin> set (t # fl)"
  shows "\<exists>s'. insert_page (toPhy d + KERNBASE) pp va perm s = Inr (ok, s') \<and> alloc_inv s' fl \<and> dir_ok s' d fl \<and> fixed s s'
     \<and> view (kmem s') = put (install (view (kmem s)) d (unat (PDX va)) t (toPhy t OR TABLE_FLAGS)) t (unat (PTX va)) (toPhy pp OR perm OR PTE_P)
     \<and> refCount (pages s' ! pp) = refCount (pages s ! pp) + 1"
proof -
  let ?j = "unat (PDX va)" and ?l = "unat (PTX va)" and ?e = "toPhy t OR TABLE_FLAGS"
  have t: "t < unat (nPages s)" "t < 131072" "t < 1048576" "t \<noteq> d" "t \<notin> set fl"
    using alloc_inv_lt [OF inv(1), of t] nPages_unat [OF inv(1)] inv(2) alloc_inv_distinct [OF inv(1)] by (auto simp: dir_inv_def)
  obtain s1 where s1: "findPte (toPhy d + KERNBASE) va True s = Inr (Some (slot t ?l), s1)" "alloc_inv s1 fl" "nPages s1 = nPages s"
      "view (kmem s1) = install (view (kmem s)) d ?j t ?e" "pages s1 = (pages s)[t := \<lparr>nextFree = None, refCount = 1\<rparr>]"
    using findPte_new [OF inv np] by blast
  have te: "pn ?e = t" "present ?e" using table_entry(2,3) [OF t(3)] by simp_all
  have d1: "dir_inv (install (view (kmem s)) d ?j t ?e) d (unat (nPages s)) fl"
    by (rule dir_inv_install [OF inv(2) PDX_lt np te t(1,5)])
  let ?pg = "(pages s1)[pp := (pages s1 ! pp)\<lparr>refCount := refCount (pages s1 ! pp) + 1\<rparr>]"
  have len: "pp < length (pages s1)" using pp(1) s1(3) alloc_inv_length [OF s1(2)] by simp
  have i: "incRef pp s1 = Inr (s1\<lparr>pages := ?pg\<rparr>)" "alloc_inv (s1\<lparr>pages := ?pg\<rparr>) fl"
    using incRef_ok [OF s1(2) len] pp(2) by auto
  have a: "\<not> present (load32 (kmem s1) (slot t ?l))"
    using t(2,4) s1(4) by (simp add: load_slot PTX_lt install_apply)
  let ?s' = "invalidateTLB va (s1\<lparr>pages := ?pg, kmem := store32 (kmem s1) (slot t ?l) (toPhy pp OR perm OR PTE_P)\<rparr>)"
  have "insert_page (toPhy d + KERNBASE) pp va perm s = Inr (ok, ?s')"
    using s1(1) i(1) a by (simp add: insert_page_def)
  moreover have v: "view (kmem ?s') = put (install (view (kmem s)) d ?j t ?e) t ?l (toPhy pp OR perm OR PTE_P)"
    using t(2) s1(4) by (simp add: invalidateTLB_def view_store PTX_lt)
  moreover have "dir_ok ?s' d fl"
    using dir_inv_put [OF d1 PDX_lt va, of ?l "toPhy pp OR perm OR PTE_P"] te t(4) s1(3) v by (simp add: invalidateTLB_def install_apply)
  moreover have "alloc_inv ?s' fl" using i(2) by (simp add: alloc_inv_def invalidateTLB_def)
  moreover have "refCount (pages ?s' ! pp) = refCount (pages s ! pp) + 1"
    using len pp(2) s1(5) by (simp add: invalidateTLB_def)
  moreover have "fixed s ?s'"
    using findPte_fixed [OF s1(1)] by (simp add: fixed_def invalidateTLB_def)
  ultimately show ?thesis by blast
qed

lemma decRef_fixed: "decRef i s = Inr s' \<Longrightarrow> fixed s s'"
  by (auto simp: decRef_def page_free_def Let_def fixed_def split: if_splits)

lemma findInfo_fixed:
  assumes "findInfo pd va s = Inr (r, s')"
  shows "fixed s s'"
proof -
  obtain pte s1 where f: "findPte pd va False s = Inr (pte, s1)" using assms by (auto simp: findInfo_def)
  then have "s1 = s'" using assms by (auto simp: findInfo_def split: option.splits if_splits)
  then show ?thesis using findPte_fixed [OF f] by simp
qed

lemma remove_fixed:
  assumes "remove pd va s = Inr s'"
  shows "fixed s s'"
proof -
  obtain r s1 where f: "findInfo pd va s = Inr (r, s1)" using assms by (auto simp: remove_def)
  show ?thesis
  proof (cases "r = None \<or> s1 = s'")
    case True
    then have "s1 = s'" using assms f by (auto simp: remove_def)
    then show ?thesis using findInfo_fixed [OF f] by simp
  next
    case False
    then obtain pp pte s2 where "decRef pp s1 = Inr s2" "s' = invalidateTLB va (s2\<lparr>kmem := store32 (kmem s2) pte 0\<rparr>)"
      using assms f by (auto simp: remove_def split: if_splits)
    moreover from this(1) have "fixed s s2" using fixed_trans [OF findInfo_fixed [OF f] decRef_fixed] by blast
    ultimately show ?thesis by (simp add: fixed_def invalidateTLB_def)
  qed
qed

text \<open>Removing the last reference: the page heads the free list.\<close>

lemma remove_last:
  assumes inv: "alloc_inv s fl" "dir_ok s d fl" and p: "present (entry s d va)" and va: "unat (PDX va) \<noteq> uvpt_ix"
    and k: "k = pn (entry s d va)" "data_page (view (kmem s)) d (unat (nPages s)) fl k" and c: "refCount (pages s ! k) = 1"
  shows "\<exists>s'. remove (toPhy d + KERNBASE) va s = Inr s' \<and> alloc_inv s' (k # fl) \<and> dir_ok s' d (k # fl) \<and> fixed s s'
     \<and> view (kmem s') = put (view (kmem s)) (pn (view (kmem s) d (unat (PDX va)))) (unat (PTX va)) 0
     \<and> (\<forall>i. i \<noteq> k \<longrightarrow> pages s' ! i = pages s ! i) \<and> refCount (pages s' ! k) = 0 \<and> (fl \<noteq> [] \<longrightarrow> nextFree (pages s' ! k) \<noteq> None)"
proof -
  obtain s' where s': "remove (toPhy d + KERNBASE) va s = Inr s'" "alloc_inv s' (k # fl)" "dir_ok s' d (k # fl)"
      "view (kmem s') = put (view (kmem s)) (pn (view (kmem s) d (unat (PDX va)))) (unat (PTX va)) 0"
      "\<forall>i. i \<noteq> k \<longrightarrow> pages s' ! i = pages s ! i" "refCount (pages s' ! k) = 0"
    using remove_present [OF inv p va k refl] c by auto
  have "nextFree (pages s' ! k) \<noteq> None" if "fl \<noteq> []"
    using alloc_inv_path [OF s'(2)] that by (cases fl) auto
  then show ?thesis using s' remove_fixed [OF s'(1)] by blast
qed

lemma insert_replacing:
  assumes inv: "alloc_inv s fl" "dir_ok s d fl" and va: "unat (PDX va) \<noteq> uvpt_ix" and p: "present (entry s d va)"
    and k: "k = pn (entry s d va)" "data_page (view (kmem s)) d (unat (nPages s)) fl k" "refCount (pages s ! k) = 1"
    and pp: "pp < unat (nPages s)" "pp \<notin> set fl" "pp \<noteq> k" "fl \<noteq> []"
  shows "\<exists>s'. insert_page (toPhy d + KERNBASE) pp va perm s = Inr (ok, s') \<and> alloc_inv s' (k # fl) \<and> dir_ok s' d (k # fl) \<and> fixed s s'
     \<and> view (kmem s') = put (view (kmem s)) (pn (view (kmem s) d (unat (PDX va)))) (unat (PTX va)) (toPhy pp OR perm OR PTE_P)
     \<and> refCount (pages s' ! pp) = refCount (pages s ! pp) + 1 \<and> refCount (pages s' ! k) = 0 \<and> nextFree (pages s' ! k) \<noteq> None"
proof -
  let ?j = "unat (PDX va)" and ?l = "unat (PTX va)" and ?pv = "view (kmem s)"
  have tp: "present (?pv d ?j)" using entry_present [OF p] by simp
  let ?t = "pn (?pv d ?j)"
  have t: "?t < 131072" "?t \<noteq> d"
    using dir_inv_table [OF inv(2) PDX_lt tp] nPages_unat [OF inv(1)] dir_inv_neq [OF inv(2) PDX_lt va tp] by simp_all
  have len: "pp < length (pages s)" using pp(1) alloc_inv_length [OF inv(1)] by simp
  let ?s2 = "s\<lparr>pages := (pages s)[pp := (pages s ! pp)\<lparr>refCount := refCount (pages s ! pp) + 1\<rparr>]\<rparr>"
  have s2: "incRef pp s = Inr ?s2" "alloc_inv ?s2 fl" using incRef_ok [OF inv(1) len pp(2)] by simp_all
  have e2: "entry ?s2 d va = entry s d va" by (simp add: entry_def)
  obtain s3 where s3: "remove (toPhy d + KERNBASE) va ?s2 = Inr s3" "alloc_inv s3 (k # fl)" "dir_ok s3 d (k # fl)" "fixed ?s2 s3"
      "view (kmem s3) = put ?pv ?t ?l 0" "\<forall>i. i \<noteq> k \<longrightarrow> pages s3 ! i = pages ?s2 ! i" "refCount (pages s3 ! k) = 0"
      "nextFree (pages s3 ! k) \<noteq> None"
    using remove_last [of ?s2 fl d va k] inv(2) s2(2) va p k pp(3,4) e2 by auto
  let ?v = "toPhy pp OR perm OR PTE_P"
  let ?s' = "invalidateTLB va (s3\<lparr>kmem := store32 (kmem s3) (slot ?t ?l) ?v\<rparr>)"
  have "load32 (kmem s) (slot ?t ?l) = entry s d va"
    using entry_present [OF p] t(1) by (simp add: load_slot PTX_lt)
  then have "insert_page (toPhy d + KERNBASE) pp va perm s = Inr (ok, ?s')"
    using findPte_hit [OF inv tp, of True] s2(1) s3(1) p by (simp add: insert_page_def)
  moreover have v: "view (kmem ?s') = put ?pv ?t ?l ?v"
    using t(1) by (simp add: invalidateTLB_def view_store PTX_lt s3(5)) (simp add: put_def)
  moreover have "dir_ok ?s' d (k # fl)"
    using dir_inv_put [OF s3(3) PDX_lt va, of ?l ?v] tp t v fixedD(3) [OF s3(4)] by (simp add: invalidateTLB_def s3(5) put_def)
  moreover have "fixed s ?s'" using s3(4) by (simp add: fixed_def invalidateTLB_def)
  ultimately show ?thesis using s3(2,6-8) len pp(3) by (intro exI [of _ ?s']) (simp add: invalidateTLB_def)
qed

lemma va2gb_indices: "unat (PDX va2gb) = 512" "unat (PTX va2gb) = 0" "PGOFF va2gb = 0" "PDX (va2gb + 4) = PDX va2gb"
  "PTX (va2gb + 4) = PTX va2gb" "PGOFF (va2gb + 4) = 4" "uvpt_ix = 893"
  by (simp_all add: va2gb_def unat_PDX unat_PTX unat_PGOFF uvpt_ix_def mmu_consts word_unat_eq_iff)

text \<open>\<open>alloc(false)\<close> and filling the page.\<close>

lemma alloc_fill:
  assumes inv: "alloc_inv s (i # fl)" "dir_ok s d (i # fl)"
  shows "\<exists>s1 s'. alloc_checked s = Inr (i, s1) \<and> fill_page i v s1 = Inr s' \<and> alloc_inv s' fl \<and> dir_ok s' d fl \<and> fixed s s'
     \<and> view (kmem s') = (view (kmem s))(i := \<lambda>j. if j < 1024 then bytes4 v else 0)
     \<and> (\<forall>k. refCount (pages s' ! k) = refCount (pages s ! k)) \<and> i < unat (nPages s) \<and> i \<notin> set fl \<and> i \<noteq> d"
proof -
  let ?s1 = "s\<lparr>freeList := nextFree (pages s ! i), pages := (pages s)[i := (pages s ! i)\<lparr>nextFree := None\<rparr>]\<rparr>"
  have i: "i < unat (nPages s)" "i < 131072" "i \<noteq> d" "i \<notin> set fl"
    using alloc_inv_lt [OF inv(1), of i] nPages_unat [OF inv(1)] inv(2) alloc_inv_distinct [OF inv(1)] by (auto simp: dir_inv_def)
  have A: "page_alloc False s = Inr (Some i, ?s1)" "alloc_inv ?s1 fl"
    using page_alloc_cons(1) [OF inv(1), of False] page_alloc_cons(2) [OF inv(1)] by simp_all
  let ?s' = "?s1\<lparr>kmem := mem_set (kmem s) (toPhy i + KERNBASE) v PGSIZE\<rparr>"
  have "fill_page i v ?s1 = Inr ?s'"
    using toKernV_ok [OF A(2), of i] i(1) by (simp add: fill_page_def)
  moreover have w: "view (kmem ?s') = (view (kmem s))(i := \<lambda>j. if j < 1024 then bytes4 v else 0)"
    using i(2) by (simp add: view_set)
  moreover have "dir_inv (view (kmem s)) d (unat (nPages s)) fl" by (rule dir_inv_subset [OF inv(2)]) auto
  then have "dir_ok ?s' d fl" using i(3) w by (simp add: dir_inv_def)
  moreover have "refCount (pages ?s' ! k) = refCount (pages s ! k)" for k
    using i(1) alloc_inv_length [OF inv(1)] by (cases "k = i") simp_all
  ultimately show ?thesis
    using A i by (intro exI [of _ ?s1] exI [of _ ?s']) (simp add: alloc_checked_def fixed_def)
qed

lemma vload64_2gb:
  assumes "alloc_inv s fl" "dir_ok s d fl" "kernelPageDir s = toPhy d + KERNBASE"
    and "entry s d va2gb = toPhy i OR PTE_W OR PTE_P" "i < 131072"
  shows "vload64 va2gb s = Inr (view (kmem s) i 0, view (kmem s) i 1)"
proof -
  have al: "aligned 4096 (toPhy i)" using assms(5) by (simp add: aligned_toPhy)
  have e: "entry s d va2gb = toPhy i OR (PTE_W OR PTE_P)" "entry s d (va2gb + 4) = toPhy i OR (PTE_W OR PTE_P)"
    using assms(4) by (simp_all add: or.assoc entry_def va2gb_indices)
  have "vload32 va2gb s = Inr (load32 (kmem s) (slot i 0))" "vload32 (va2gb + 4) s = Inr (load32 (kmem s) (slot i 1))"
    using vload32_frame [OF assms(1-3) e(1) al map_flags(5,6)] vload32_frame [OF assms(1-3) e(2) al map_flags(5,6)]
    by (simp_all add: va2gb_indices slot_def)
  then show ?thesis using assms(5) by (simp add: vload64_def load_slot)
qed

lemma insert_check_ok:
  assumes inv: "alloc_inv s (a # t # b # r # fl)" "dir_ok s d (a # t # b # r # fl)" "kernelPageDir s = toPhy d + KERNBASE"
    and np: "\<not> present (view (kmem s) d 512)"
  shows "\<exists>s'. insert_check s = Inr s' \<and> alloc_inv s' (b # a # r # fl) \<and> dir_ok s' d (b # a # r # fl) \<and> fixed s s'
     \<and> view (kmem s') d 512 = toPhy t OR TABLE_FLAGS \<and> (\<forall>l. lookup (view (kmem s')) d 512 l = 0)
     \<and> (\<forall>j. j \<noteq> 512 \<longrightarrow> view (kmem s') d j = view (kmem s) d j)
     \<and> (\<forall>va. unat (PDX va) \<noteq> uvpt_ix \<longrightarrow> unat (PDX va) \<noteq> 512 \<longrightarrow> entry s' d va = entry s d va)"
proof -
  let ?e = "toPhy t OR TABLE_FLAGS" and ?A = "toPhy a OR PTE_W OR PTE_P" and ?B = "toPhy b OR PTE_W OR PTE_P"
  have va: "unat (PDX va2gb) \<noteq> uvpt_ix" by (simp add: va2gb_indices)
  have ne: "distinct [d, a, t, b, r]" and lt: "a < unat (nPages s)" "t < unat (nPages s)" "b < unat (nPages s)"
    and n: "unat (nPages s) \<le> 131072" and z: "refCount (pages s ! a) = 0" "refCount (pages s ! b) = 0"
    using alloc_inv_distinct [OF inv(1)] inv(2) alloc_inv_lt [OF inv(1)] nPages_unat [OF inv(1)] alloc_inv_ref0 [OF inv(1)]
    by (auto simp: dir_inv_def)
  have te: "pn ?e = t" "present ?e" using table_entry(2,3) lt(2) n by simp_all
  have ab: "pn ?A = a" "present ?A" "pn ?B = b" "present ?B"
    using entry_bits(2,3) [of a "PTE_W OR PTE_P"] entry_bits(2,3) [of b "PTE_W OR PTE_P"] map_flags(5,6) lt n by (simp_all add: or.assoc)
  obtain s0 s1 where s1: "alloc_checked s = Inr (a, s0)" "fill_page a 0x18 s0 = Inr s1" "alloc_inv s1 (t # b # r # fl)" "dir_ok s1 d (t # b # r # fl)"
      "fixed s s1" "view (kmem s1) = (view (kmem s))(a := \<lambda>j. if j < 1024 then bytes4 0x18 else 0)"
      "\<forall>k. refCount (pages s1 ! k) = refCount (pages s ! k)" "a \<notin> set (t # b # r # fl)"
    using alloc_fill [OF inv(1,2)] by blast
  have "\<not> present (view (kmem s1) d (unat (PDX va2gb)))" using np ne by (simp add: s1(6) va2gb_indices)
  then obtain s2 where s2: "insert_page (toPhy d + KERNBASE) a va2gb PTE_W s1 = Inr (ok, s2)" "alloc_inv s2 (b # r # fl)" "dir_ok s2 d (b # r # fl)"
      "fixed s1 s2" "view (kmem s2) = put (install (view (kmem s1)) d 512 t ?e) t 0 ?A" "refCount (pages s2 ! a) = refCount (pages s1 ! a) + 1"
    using insert_new [OF s1(3,4) _ va _ s1(8), of PTE_W] lt(1) fixedD(3) [OF s1(5)] by (auto simp: va2gb_indices)
  have v2: "view (kmem s2) d 512 = ?e" "view (kmem s2) t l = (if l = 0 then ?A else 0)" "view (kmem s2) a = view (kmem s1) a" for l
    using ne by (auto simp: s2(5) put_apply install_apply fun_eq_iff)
  have e2: "entry s2 d va2gb = ?A" using te by (simp add: entry_def lookup_def va2gb_indices v2)
  have k2: "kernelPageDir s2 = toPhy d + KERNBASE" "refCount (pages s2 ! a) = 1" "a < length (pages s2)" "nPages s2 = nPages s"
    using inv(3) fixedD [OF s1(5)] fixedD [OF s2(4)] s1(7) s2(6) z lt alloc_inv_length [OF s2(2)] by simp_all
  have w2: "vload64 va2gb s2 = Inr (0x18181818, 0x18181818)"
    using vload64_2gb [OF s2(2,3) k2(1) e2] lt n v2(3) by (simp add: s1(6) bytes4_def)
  obtain s3' s3 where s3: "alloc_checked s2 = Inr (b, s3')" "fill_page b 0x10 s3' = Inr s3" "alloc_inv s3 (r # fl)" "dir_ok s3 d (r # fl)"
      "fixed s2 s3" "view (kmem s3) = (view (kmem s2))(b := \<lambda>j. if j < 1024 then bytes4 0x10 else 0)"
      "\<forall>k. refCount (pages s3 ! k) = refCount (pages s2 ! k)" "b \<notin> set (r # fl)"
    using alloc_fill [OF s2(2,3)] by blast
  have v3: "view (kmem s3) d = view (kmem s2) d" "view (kmem s3) t = view (kmem s2) t" using ne by (auto simp: s3(6))
  have e3: "entry s3 d va2gb = ?A" using te by (simp add: entry_def lookup_def va2gb_indices v3 v2)
  have row: "view (kmem s2) d j = view (kmem s) d j" if "j \<noteq> 512" for j
    using ne that by (auto simp: s2(5) s1(6) put_apply install_apply)
  have old: "\<forall>j<1024. present (view (kmem s) d j) \<longrightarrow> pn (view (kmem s) d j) \<notin> {a, t, b}"
    using inv(2) by (auto simp: dir_inv_def)
  have data: "data_page (view (kmem s3)) d (unat (nPages s3)) (r # fl) k" if "k \<in> {a, b}" for k
  proof -
    have "pn (view (kmem s3) d j) \<noteq> k" if "j < 1024" "present (view (kmem s3) d j)" for j
      using old that te ne row [of j] v2(1) v3(1) \<open>k \<in> {a, b}\<close> by (cases "j = 512") auto
    then show ?thesis using that s1(8) s3(8) lt k2(4) fixedD(3) [OF s3(5)] ne by (auto simp: data_page_def)
  qed
  have p3: "present (entry s3 d va2gb)" "a = pn (entry s3 d va2gb)" using ab e3 by simp_all
  have c3: "refCount (pages s3 ! a) = 1" using k2(2) s3(7) by simp
  have n3: "nPages s3 = nPages s" using fixedD(3) [OF s3(5)] k2(4) by simp
  have pp3: "b < unat (nPages s3)" "b \<notin> set (r # fl)" "b \<noteq> a" "r # fl \<noteq> []" using lt(3) s3(8) ne n3 by auto
  have t3: "pn (view (kmem s3) d (unat (PDX va2gb))) = t" using te by (simp add: va2gb_indices v3 v2)
  obtain s4 where s4: "insert_page (toPhy d + KERNBASE) b va2gb PTE_W s3 = Inr (ok, s4)" "alloc_inv s4 (a # r # fl)" "dir_ok s4 d (a # r # fl)"
      "fixed s3 s4" "view (kmem s4) = put (view (kmem s3)) t 0 ?B" "refCount (pages s4 ! b) = refCount (pages s3 ! b) + 1"
      "refCount (pages s4 ! a) = 0" "nextFree (pages s4 ! a) \<noteq> None"
    using insert_replacing [OF s3(3,4) va p3 data [OF insertI1] c3 pp3, of PTE_W, unfolded t3 va2gb_indices(2)] by blast
  have v4: "view (kmem s4) d = view (kmem s2) d" "view (kmem s4) t l = (if l = 0 then ?B else 0)" "view (kmem s4) b = view (kmem s3) b" for l
    using ne by (auto simp: s4(5) put_apply v3 v2 fun_eq_iff)
  have e4: "entry s4 d va2gb = ?B" using te by (simp add: entry_def lookup_def va2gb_indices v4 v2)
  have f4: "fixed s s4" using s1(5) s2(4) s3(5) s4(4) fixed_trans by blast
  have k4: "kernelPageDir s4 = toPhy d + KERNBASE" "nPages s4 = nPages s" "length (pages s4) = length (pages s)"
    using fixedD [OF f4] inv(3) f4 by (simp_all add: fixed_def)
  have c4: "refCount (pages s4 ! b) = 1" using s4(6) s3(7) alloc_inv_ref0 [OF s2(2), of b] by simp
  have w4: "vload64 va2gb s4 = Inr (0x10101010, 0x10101010)"
    using vload64_2gb [OF s4(2,3) k4(1) e4] lt n v4(3) by (simp add: s3(6) bytes4_def)
  have d4: "data_page (view (kmem s4)) d (unat (nPages s4)) (a # r # fl) b"
    using data [of b] ne v3(1) v4(1) n3 k4(2) by (auto simp: data_page_def)
  have p4: "present (entry s4 d va2gb)" "b = pn (entry s4 d va2gb)" using ab e4 by simp_all
  have t4: "pn (view (kmem s4) d (unat (PDX va2gb))) = t" using te by (simp add: va2gb_indices v4 v2)
  obtain s5 where s5: "remove (toPhy d + KERNBASE) va2gb s4 = Inr s5" "alloc_inv s5 (b # a # r # fl)" "dir_ok s5 d (b # a # r # fl)" "fixed s4 s5"
      "view (kmem s5) = put (view (kmem s4)) t 0 0" "refCount (pages s5 ! b) = 0" "nextFree (pages s5 ! b) \<noteq> None"
    using remove_last [OF s4(2,3) p4(1) va p4(2) d4 c4, unfolded t4 va2gb_indices(2)] by blast
  have len: "a < length (pages s)" "b < length (pages s)" using lt alloc_inv_length [OF inv(1)] by simp_all
  have "insert_check s = Inr s5"
    unfolding insert_check_def s1(1) bindE_Inr prod.case s1(2) fixedD(1) [OF s1(5)] inv(3) s2(1) page_at_def if_P [OF k2(3)] k2(2) w2
      k2(1) s3(1,2) fixedD(1) [OF s3(5)] s4(1) k4(1) w4 s5(1)
    using s4(7,8) s5(6,7) len k4(3) s5(4) by (simp add: assertE_def fixed_def)
  moreover have v5: "view (kmem s5) d = view (kmem s2) d" "view (kmem s5) t l = 0" for l
    using ne by (auto simp: s5(5) put_apply v4 fun_eq_iff)
  moreover have "entry s5 d va = entry s d va" if "unat (PDX va) \<noteq> uvpt_ix" "unat (PDX va) \<noteq> 512" for va
  proof -
    have "view (kmem s5) k = view (kmem s) k" if "k \<notin> {a, t, b, d}" for k
      using that ne by (auto simp: s5(5) s4(5) s3(6) s2(5) s1(6) put_def install_def)
    moreover have "pn (view (kmem s) d (unat (PDX va))) \<notin> {a, t, b, d}" if "present (view (kmem s) d (unat (PDX va)))"
      using old that PDX_lt [of va] dir_inv_neq [OF inv(2) PDX_lt \<open>unat (PDX va) \<noteq> uvpt_ix\<close> that] by auto
    ultimately show ?thesis using row [OF that(2)] v5(1) by (simp add: entry_def lookup_def)
  qed
  ultimately show ?thesis
    using s5(2,3) fixed_trans [OF f4 s5(4)] row v2(1) te by (intro exI [of _ s5]) (simp add: lookup_def)
qed


section \<open>pgdir::init\<close>

text \<open>Writing to a page that is neither the directory nor one of its tables changes no mapping.\<close>

lemma store_outside:
  fixes v :: u32
  assumes q: "q < 131072" "j < 1024" "q \<noteq> d" "\<And>k. k < 1024 \<Longrightarrow> present (view (kmem s) d k) \<Longrightarrow> pn (view (kmem s) d k) \<noteq> q"
  defines "s' \<equiv> s\<lparr>kmem := store32 (kmem s) (slot q j) v\<rparr>"
  shows "view (kmem s') d = view (kmem s) d" "dir_ok s' d fl = dir_ok s d fl" "entry s' d va = entry s d va" "alloc_inv s' fl = alloc_inv s fl"
proof -
  have v: "view (kmem s') = put (view (kmem s)) q j v" using q(1,2) by (simp add: s'_def view_store)
  show d: "view (kmem s') d = view (kmem s) d" using q(3) by (simp add: v put_def)
  show "dir_ok s' d fl = dir_ok s d fl" using d by (simp add: dir_inv_def s'_def)
  show "entry s' d va = entry s d va"
    using q(4) [OF PDX_lt [of va]] q(3) by (auto simp: entry_def lookup_def v put_apply)
  show "alloc_inv s' fl = alloc_inv s fl" by (simp add: s'_def)
qed

lemma kernel_mapped_cong: "(\<And>va. entry s' d va = entry s d va) \<Longrightarrow> kernel_mapped s' d arr bs = kernel_mapped s d arr bs"
  by (simp add: kernel_mapped_def)

text \<open>
  The conditions under which \<open>pgdir::init\<close> is called: a directory with no table for 2 GB, a page-aligned
  boot stack, and a word on it, in page \<open>q\<close>, that belongs neither to the free pages nor to the directory.
\<close>

definition init_ready :: "vmem \<Rightarrow> nat \<Rightarrow> nat list \<Rightarrow> u32 \<Rightarrow> u32 \<Rightarrow> nat \<Rightarrow> nat \<Rightarrow> bool" where
  "init_ready s d fl bootstack cr0Addr q off \<longleftrightarrow> alloc_inv s fl \<and> dir_ok s d fl \<and> kernelPageDir s = toPhy d + KERNBASE
     \<and> KERNBASE \<le> pagesAddr s \<and> aligned 4096 (pagesAddr s) \<and> KERNBASE \<le> bootstack \<and> aligned 4096 bootstack \<and> 134 \<le> length fl
     \<and> cr0Addr = bootstack + of_nat off \<and> off < 0x8000 \<and> (\<exists>j<1024. cr0Addr = slot q j) \<and> q < 131072 \<and> q \<notin> set fl \<and> q \<noteq> d
     \<and> (\<forall>k<1024. present (view (kmem s) d k) \<longrightarrow> pn (view (kmem s) d k) \<noteq> q) \<and> \<not> present (view (kmem s) d 512)"

lemma PHY_ADDR_dir: "d < 131072 \<Longrightarrow> PHY_ADDR (toPhy d + KERNBASE) = Inr (toPhy d)"
  using unat_slot [of d 0] by (simp add: PHY_ADDR_def slot_def word_less_nat_alt) (simp add: KERNBASE_def)

lemma drop4: "4 \<le> length xs \<Longrightarrow> \<exists>a b c d ys. xs = a # b # c # d # ys"
  by (auto simp: numeral_eq_Suc Suc_le_length_iff)

lemma pgdir_init_ok:
  assumes r: "init_ready (vm m) d fl bootstack cr0Addr q off"
  shows "\<exists>m' c a b. pgdir_init bootstack (bootstack + KSTKSIZE) cr0Addr cr0 m = Some (Inr m') \<and> c \<le> 133
     \<and> alloc_inv (vm m') (b # a # drop c fl) \<and> dir_ok (vm m') d (b # a # drop c fl) \<and> a \<in> set fl \<and> b \<in> set fl
     \<and> fixed (vm m) (vm m') \<and> cr3 m' = toPhy d \<and> kernel_mapped (vm m') d (pagesAddr (vm m)) bootstack
     \<and> present (view (kmem (vm m')) d 512) \<and> (\<forall>l. lookup (view (kmem (vm m'))) d 512 l = 0)
     \<and> tasks m' = tasks m \<and> freeTasks m' = freeTasks m \<and> current m' = current m
     \<and> (\<forall>va. unat (PDX va) \<noteq> uvpt_ix \<longrightarrow> unat (PDX va) \<notin> insert 512 kernel_slots \<longrightarrow> entry (vm m') d va = entry (vm m) d va)"
proof -
  let ?s = "vm m"
  note r = assms [unfolded init_ready_def]
  have inv: "alloc_inv ?s fl" "dir_ok ?s d fl" "kernelPageDir ?s = toPhy d + KERNBASE" using r by blast+
  have addr: "KERNBASE \<le> pagesAddr ?s" "aligned 4096 (pagesAddr ?s)" "KERNBASE \<le> bootstack" "aligned 4096 bootstack" "134 \<le> length fl"
    using r by blast+
  have o: "cr0Addr = bootstack + of_nat off" "off < 0x8000" using r by blast+
  obtain j where q: "j < 1024" "cr0Addr = slot q j" "q < 131072" "q \<notin> set fl" "q \<noteq> d"
      "\<And>k. k < 1024 \<Longrightarrow> present (view (kmem ?s) d k) \<Longrightarrow> pn (view (kmem ?s) d k) \<noteq> q"
    using r by blast
  have np: "\<not> present (view (kmem ?s) d 512)" using r by blast
  have room: "130 \<le> length fl" using addr(5) by simp
  obtain s1 c where s1: "kernel_maps bootstack ?s = Some (Inr s1)" "alloc_inv s1 (drop c fl)" "dir_ok s1 d (drop c fl)" "c \<le> 130"
      "fixed ?s s1" "tables_from ?s s1 d fl" "kernel_mapped s1 d (pagesAddr ?s) bootstack"
      "\<forall>j. j \<notin> kernel_slots \<longrightarrow> view (kmem s1) d j = view (kmem ?s) d j"
      "\<And>va. unat (PDX va) \<noteq> uvpt_ix \<Longrightarrow> unat (PDX va) \<notin> kernel_slots \<Longrightarrow> entry s1 d va = entry ?s d va"
    using kernel_maps_ok [OF inv addr(1,3) room] by blast
  define cr0' where "cr0' = new_cr0 cr0"
  let ?s2 = "s1\<lparr>hwlog := Lcr0 cr0' # Lcr3 (toPhy d) # hwlog s1\<rparr>"
  let ?s3 = "?s2\<lparr>kmem := store32 (kmem ?s2) (slot q j) cr0'\<rparr>"
  have k1: "kernelPageDir s1 = toPhy d + KERNBASE" "pagesAddr s1 = pagesAddr ?s" using fixedD [OF s1(5)] inv(3) by simp_all
  have qt: "pn (view (kmem ?s2) d k) \<noteq> q" if "k < 1024" "present (view (kmem ?s2) d k)" for k
    using s1(6) [unfolded tables_from_def, THEN spec, of k] q(4) q(6) [OF that(1)] that(2) by auto
  note st = store_outside [OF q(3,1,5) qt, where v = cr0']
  have "alloc_inv ?s2 (drop c fl)" using s1(2) by simp
  then have i3: "alloc_inv ?s3 (drop c fl)" "dir_ok ?s3 d (drop c fl)" "kernelPageDir ?s3 = toPhy d + KERNBASE"
    using st(2,4) s1(3) k1(1) by auto
  have m3: "kernel_mapped ?s3 d (pagesAddr ?s3) bootstack"
    using s1(7) k1(2) kernel_mapped_cong [of ?s3 d s1] st(3) by (simp add: entry_def)
  have M: "map_checks (bootstack + KSTKSIZE) cr0Addr cr0' ?s3 = Inr ?s3"
    by (rule map_checks_ok [OF i3 m3 _ _ addr(4) o(1) refl o(2)]) (use addr(1,2) k1(2) q(2) in simp_all)
  have "4 \<le> length (drop c fl)" using s1(4) addr(5) by simp
  then obtain a t b r rest where fl: "drop c fl = a # t # b # r # rest" using drop4 by blast
  have np3: "\<not> present (view (kmem ?s3) d 512)" using np st(1) s1(8) by (simp add: kernel_slots_def)
  obtain s4 where s4: "insert_check ?s3 = Inr s4" "alloc_inv s4 (b # a # r # rest)" "dir_ok s4 d (b # a # r # rest)" "fixed ?s3 s4"
      "view (kmem s4) d 512 = toPhy t OR TABLE_FLAGS" "\<forall>l. lookup (view (kmem s4)) d 512 l = 0"
      "\<And>va. unat (PDX va) \<noteq> uvpt_ix \<Longrightarrow> unat (PDX va) \<noteq> 512 \<Longrightarrow> entry s4 d va = entry ?s3 d va"
    using insert_check_ok [OF i3(1,2) [unfolded fl] i3(3) np3] by blast
  have "d < 131072" using inv(2) nPages_unat [OF inv(1)] by (simp add: dir_inv_def)
  then have cr: "load_cr3 (kernelPageDir s1) (m\<lparr>vm := s1\<rparr>) = Inr (m\<lparr>vm := lcr3 (toPhy d) s1, cr3 := toPhy d\<rparr>)"
    by (simp add: load_cr3_def k1(1) PHY_ADDR_dir)
  let ?m' = "m\<lparr>cr3 := toPhy d, vm := s4\<rparr>"
  have swap: "s1\<lparr>kmem := x, hwlog := y\<rparr> = s1\<lparr>hwlog := y, kmem := x\<rparr>" for x y by (cases s1) simp
  have "pgdir_init bootstack (bootstack + KSTKSIZE) cr0Addr cr0 m = Some (Inr ?m')"
    using s1(1) cr M s4(1) by (simp add: pgdir_init_def Let_def cr0'_def [symmetric] lcr0_def lcr3_def q(2) swap)
  moreover have "kernel_mapped s4 d (pagesAddr ?s) bootstack"
  proof -
    have e: "entry s4 d (va + page_off k) = entry ?s3 d (va + page_off k)" if "within va 0 n J" "k < n" "512 \<notin> J" for va n J k
      using withinD [OF that(1,2)] that(3) by (intro s4(7)) auto
    show ?thesis
      using m3 e [OF kernel_ranges(1)] e [OF kernel_ranges(2)] e [OF kernel_ranges(3)] k1(2) by (simp add: kernel_mapped_def)
  qed
  moreover have "drop (c + 3) fl = r # rest" using fl by (metis drop_drop add.commute drop0 drop_Suc_Cons numeral_3_eq_3)
  moreover have "fixed ?s s4" using s1(5) s4(4) by (simp add: fixed_def)
  moreover have "a \<in> set fl" "b \<in> set fl" using fl by (metis in_set_dropD list.set_intros)+
  moreover have "present (view (kmem s4) d 512)"
    using s4(5) table_entry(3) alloc_inv_lt [OF s1(2), of t] nPages_unat [OF s1(2)] by (simp add: fl)
  moreover have "entry s4 d va = entry ?s d va" if "unat (PDX va) \<noteq> uvpt_ix" "unat (PDX va) \<notin> insert 512 kernel_slots" for va
    using s4(7) [of va] st(3) [of va] s1(9) [of va] that by (simp add: entry_def)
  ultimately show ?thesis
    using s1(4) s4(2,3,6) by (intro exI [of _ ?m'] exI [of _ "c + 3"] exI [of _ a] exI [of _ b]) simp
qed

end
