(* ===== verification/VmBoot.thy ===== *)
theory VmBoot
  imports VmInit
begin

text \<open>
  What \<open>vmem::init\<close> leaves behind, from the memory detected to the tested kernel directory, and that the
  pages of the task array are still on the free list then.
\<close>

section \<open>The directory page\<close>

text \<open>Clearing memory above a page does not change its entries.\<close>

lemma view_clear_above:
  assumes "k < 131072" "unat KERNBASE + 4096 * (k + 1) \<le> unat a" "unat a + unat c \<le> 4294967296"
  shows "view (mem_clear m a c) k = view m k"
proof
  fix j
  show "view (mem_clear m a c) k j = view m k j"
  proof (cases "j < 1024")
    case True
    have K: "unat KERNBASE = 3758096384" by (simp add: KERNBASE_def)
    have *: "mem_clear m a c (slot k j + of_nat i) = m (slot k j + of_nat i)" if "i < 4" for i
    proof -
      have s: "unat (slot k j + of_nat i) = 3758096384 + 4096 * k + 4 * j + i"
        using True that assms(1) by (subst unat_add_of_nat) (auto simp: unat_slot)
      have "\<not> unat (slot k j + of_nat i - a) < unat c"
        unfolding unat_sub_if' s using assms K True that by (auto split: if_splits)
      then show ?thesis by (simp add: mem_clear_eq)
    qed
    show ?thesis using *[of 0] *[of 1] *[of 2] *[of 3] True assms(1) by (simp add: view_def load32_def)
  qed (simp add: view_def)
qed

lemma ROUNDUP_aligned:
  assumes "aligned 4096 a" "unat a + 4096 < 4294967296"
  shows "ROUNDUP (a + PGSIZE) PGSIZE = a + PGSIZE"
proof -
  have u: "unat (a + PGSIZE) = unat a + 4096" using assms(2) by (simp add: PGSIZE_def unat_word_ariths)
  have "unat (ROUNDUP (a + PGSIZE) PGSIZE) = (unat a + 4096 + 4095) div 4096 * 4096" if "unat a + 8191 < 4294967296"
    using unat_ROUNDUP [of PGSIZE "a + PGSIZE"] that by (simp add: u) (simp add: PGSIZE_def)
  moreover obtain k where k: "unat a = 4096 * k" using assms(1) by (auto simp: aligned_def)
  then have "k < 1048575" using assms(2) by simp
  then have "unat a + 8191 < 4294967296" using k by simp
  moreover have "(unat a + 4096 + 4095) div 4096 * 4096 = unat a + 4096" using k by simp
  ultimately show ?thesis by (intro unat_inj32) (simp add: u)
qed

text \<open>An address that is a whole number of pages above \<open>KERNBASE\<close>.\<close>

lemma page_address:
  assumes "aligned 4096 a" "KERNBASE \<le> a"
  defines "k \<equiv> unat (a - KERNBASE) div 4096"
  shows "a = toPhy k + KERNBASE" "k < 131072" "unat a = unat KERNBASE + 4096 * k"
proof -
  have K: "unat KERNBASE = 3758096384" by (simp add: KERNBASE_def)
  have d: "unat (a - KERNBASE) = unat a - 3758096384" using unat_sub_le [OF assms(2)] K by simp
  have le: "3758096384 \<le> unat a" using assms(2) K by (simp add: word_le_nat_alt)
  obtain j where j: "unat a = 4096 * j" using assms(1) by (auto simp: aligned_def)
  then have "917504 \<le> j" using le by simp
  then obtain i where "j = 917504 + i" using le_Suc_ex by blast
  then have k: "unat a = 3758096384 + 4096 * k" using j unfolding k_def d by simp
  then show "unat a = unat KERNBASE + 4096 * k" using K by simp
  show "k < 131072" using k unat_lt_2p32 [of a] by simp
  then show "a = toPhy k + KERNBASE"
    using k unat_slot [of k 0] by (intro unat_inj32) (simp add: slot_def)
qed

lemma pgdir_alloc_ok:
  fixes kernEnd :: u32
  defines "K \<equiv> ROUNDUP kernEnd PGSIZE"
  defines "d \<equiv> unat (K - KERNBASE) div 4096"
  assumes "bootNext s = None" "\<not> bootAllocForbidden s" "KERNBASE \<le> kernEnd" "unat kernEnd + 8192 < 4294967296"
  shows "\<exists>m. pgdir_alloc kernEnd s = Inr (s\<lparr>bootNext := Some (K + PGSIZE), kernelPageDir := K, kmem := m\<rparr>)
     \<and> K = toPhy d + KERNBASE \<and> d < 131072 \<and> aligned 4096 K \<and> unat K = unat KERNBASE + 4096 * d \<and> unat kernEnd \<le> unat K \<and> unat K < unat kernEnd + 4096
     \<and> view m d = (\<lambda>_. 0)(uvpt_ix := toPhy d OR PTE_U OR PTE_P)"
proof -
  note R = ROUNDUP_page [of kernEnd, folded K_def]
  have r: "unat kernEnd \<le> unat K" "unat K < unat kernEnd + 4096" "aligned 4096 K" using R assms(6) by simp_all
  have "KERNBASE \<le> K" using r(1) assms(5) by (simp add: word_le_nat_alt)
  note p = page_address [OF r(3) this, folded d_def]
  have up: "ROUNDUP (K + PGSIZE) PGSIZE = K + PGSIZE" using r assms(6) by (intro ROUNDUP_aligned) simp_all
  let ?m = "store32 (mem_clear (kmem s) K PGSIZE) (K + 4 * PDX UVPT) (toPhy d OR PTE_U OR PTE_P)"
  have "K + 4 * PDX UVPT = slot d uvpt_ix" using slot_PDX [of d UVPT] unfolding p(1) [symmetric] uvpt_ix_def .
  then have "view ?m d = (\<lambda>_. 0)(uvpt_ix := toPhy d OR PTE_U OR PTE_P)"
    using p(1,2) view_clear [OF p(2)] by (simp add: view_store PDX_lt uvpt_ix_def put_def)
  moreover have "pgdir_alloc kernEnd s = Inr (s\<lparr>bootNext := Some (K + PGSIZE), kernelPageDir := K, kmem := ?m\<rparr>)"
  proof -
    have nz: "PGSIZE \<noteq> 0" by (simp add: PGSIZE_def)
    have "PHY_ADDR K = Inr (toPhy d)" using p(1) PHY_ADDR_dir [OF p(2)] by simp
    then show ?thesis using assms(3,4) nz up by (simp add: pgdir_alloc_def bootAlloc_def Let_def K_def [symmetric] assertE_def)
  qed
  ultimately show ?thesis using p r by blast
qed

section \<open>Up to the page descriptors\<close>

text \<open>
  A machine on which the kernel boots: 4 MB to 512 MB of memory, the kernel's image between 1 MB and an end
  that leaves room for the descriptors and 140 more pages below 4 MB, the boot stack inside the image.
\<close>

definition boot_config :: "(u8 \<Rightarrow> u8) \<Rightarrow> u32 \<Rightarrow> u32 \<Rightarrow> nat \<Rightarrow> vmem \<Rightarrow> bool" where
  "boot_config cmos kernEnd bootstack off s \<longleftrightarrow> bootNext s = None \<and> \<not> bootAllocForbidden s \<and> freeList s = None
     \<and> 4096 \<le> unat (totalMem (detect cmos s)) \<and> unat (totalMem (detect cmos s)) \<le> 524288
     \<and> unat KERNBASE + unat EXTPHYSMEM \<le> unat kernEnd
     \<and> unat kernEnd + 8192 + 8 * unat (nPages (detect cmos s)) \<le> unat KERNBASE + 880 * 4096
     \<and> KERNBASE \<le> bootstack \<and> aligned 4096 bootstack \<and> unat bootstack + 0x8000 \<le> unat kernEnd \<and> off < 0x8000 \<and> 4 dvd off"

lemma detect_fields: "nPages (detect cmos s) = totalMem (detect cmos s) div 4" "bootNext (detect cmos s) = bootNext s"
  "bootAllocForbidden (detect cmos s) = bootAllocForbidden s" "freeList (detect cmos s) = freeList s"
  by (simp_all add: detect_def Let_def PGSIZE_def)

lemma init_pages:
  assumes c: "boot_config cmos kernEnd bootstack off s"
  defines "s1 \<equiv> detect cmos s"
  shows "\<exists>s3 s4 d nf. pgdir_alloc kernEnd s1 = Inr s3 \<and> page_init kernEnd s3 = Inr s4
     \<and> alloc_inv s4 (init_free nf (unat (nPages s1))) \<and> nPages s4 = nPages s1 \<and> kernelPageDir s4 = toPhy d + KERNBASE \<and> d < nf \<and> nf \<le> 882
     \<and> unat kernEnd \<le> unat KERNBASE + 4096 * d \<and> KERNBASE \<le> pagesAddr s4 \<and> aligned 4096 (pagesAddr s4)
     \<and> bootNext s4 = Some (toPhy nf + KERNBASE) \<and> \<not> bootAllocForbidden s4 \<and> view (kmem s4) d = (\<lambda>_. 0)(uvpt_ix := toPhy d OR PTE_U OR PTE_P)"
proof -
  have K: "unat KERNBASE = 3758096384" "unat EXTPHYSMEM = 1048576" by (simp_all add: KERNBASE_def EXTPHYSMEM_def)
  note c = c [unfolded boot_config_def, folded s1_def, unfolded K]
  have n: "nPages s1 = totalMem s1 div 4" by (simp add: s1_def detect_fields)
  have "4096 div 4 \<le> unat (totalMem s1) div 4" using c by (intro div_le_mono) blast
  then have n1: "1024 \<le> unat (nPages s1)" by (simp add: n unat_div)
  have b1: "bootNext s1 = None" "\<not> bootAllocForbidden s1" and b2: "freeList s1 = None" using c by (simp_all add: s1_def detect_fields)
  have e: "KERNBASE \<le> kernEnd" "unat kernEnd + 8192 < 4294967296" "unat kernEnd + 8192 + 8 * unat (nPages s1) \<le> 3761700864"
      "3758096384 + 1048576 \<le> unat kernEnd"
    using c K by (auto simp: word_le_nat_alt)
  let ?K = "ROUNDUP kernEnd PGSIZE"
  let ?d = "unat (?K - KERNBASE) div 4096"
  obtain m where m: "pgdir_alloc kernEnd s1 = Inr (s1\<lparr>bootNext := Some (?K + PGSIZE), kernelPageDir := ?K, kmem := m\<rparr>)"
      "?K = toPhy ?d + KERNBASE" "?d < 131072" "aligned 4096 ?K" "unat ?K = 3758096384 + 4096 * ?d" "unat kernEnd \<le> unat ?K"
      "unat ?K < unat kernEnd + 4096" "view m ?d = (\<lambda>_. 0)(uvpt_ix := toPhy ?d OR PTE_U OR PTE_P)"
    using pgdir_alloc_ok [OF b1 e(1,2)] unfolding K by blast
  let ?s3 = "s1\<lparr>bootNext := Some (?K + PGSIZE), kernelPageDir := ?K, kmem := m\<rparr>"
  have nx: "unat (?K + PGSIZE) = unat ?K + 4096" using m(7) e(3) by (simp add: PGSIZE_def unat_word_ariths)
  have ready: "boot_ready ?s3 (?K + PGSIZE)"
    unfolding boot_ready_def
  proof (intro conjI)
    show "aligned 4096 (?K + PGSIZE)" using m(4) nx unfolding aligned_def by (simp only: dvd_add_left_iff dvd_refl)
    show "KERNBASE + EXTPHYSMEM \<le> ?K + PGSIZE"
      using nx m(6) e(4) by (simp add: word_le_nat_alt KERNBASE_def EXTPHYSMEM_def)
    show "unat (?K + PGSIZE) + 8 * unat (nPages ?s3) \<le> unat KERNBASE + 1023 * 4096" using nx m(7) e(3) K by simp
    show "unat (totalMem ?s3) \<le> 524288" using c by simp
  qed (use b1 b2 n n1 in simp_all)
  let ?E = "boot_end ?s3 (?K + PGSIZE)"
  let ?nf = "unat (?E - KERNBASE) div 4096"
  note b = boot_end_bounds [OF ready, unfolded vmem.simps]
  have KE: "KERNBASE \<le> ?E" using b(1) by (simp add: word_le_nat_alt KERNBASE_def EXTPHYSMEM_def)
  have E: "?E = toPhy ?nf + KERNBASE"
    using b(3,4) unat_slot [of ?nf 0] unat_sub_le [OF KE] K(1) KE by (intro unat_inj32) (simp add: slot_def word_le_nat_alt)
  have sz: "unat (?K + PGSIZE + SIZEOF_PageInfo * nPages s1) = unat ?K + 4096 + 8 * unat (nPages s1)"
    using nx m(7) e(3) by (simp add: unat_word_ariths SIZEOF_PageInfo_def)
  have "unat ?E < unat ?K + 4096 + 8 * unat (nPages s1) + 4096"
    using ROUNDUP_page(2) [of "?K + PGSIZE + SIZEOF_PageInfo * nPages s1", unfolded sz] m(7) e(3) by (simp add: boot_end_def)
  then have "4096 * ?nf \<le> 882 * 4096" unfolding b(4) [symmetric] unat_sub_le [OF KE] K(1) using m(7) e(3) by linarith
  then have nf: "?nf \<le> 882" by linarith
  have "4096 * ?d < 4096 * ?nf" unfolding b(4) [symmetric] unat_sub_le [OF KE] K(1) using b(5) m(5) nx by linarith
  then have dnf: "?d < ?nf" by linarith
  obtain s4 where s4: "page_init kernEnd ?s3 = Inr s4" "alloc_inv s4 (init_free ?nf (unat (nPages s1)))" "pagesAddr s4 = ?K + PGSIZE"
      "nPages s4 = nPages s1" "bootNext s4 = Some ?E" "kmem s4 = mem_clear m (?K + PGSIZE) (SIZEOF_PageInfo * nPages s1)"
      "kernelPageDir s4 = ?K" "bootAllocForbidden s4 = bootAllocForbidden s1"
    using page_init_ok [OF ready, of kernEnd] by auto
  have "view (kmem s4) ?d = view m ?d"
    unfolding s4(6) using m(3,5,7) nx e(3) K(1) by (intro view_clear_above) (simp_all add: unat_word_ariths SIZEOF_PageInfo_def)
  moreover have "KERNBASE \<le> ?K + PGSIZE" using nx m(5) K(1) by (simp add: word_le_nat_alt)
  moreover have "aligned 4096 (?K + PGSIZE)" using ready by (simp add: boot_ready_def)
  ultimately show ?thesis
    using m(1,2,5,6,8) s4 E nf dnf K(1) b1 by (intro exI [of _ ?s3] exI [of _ s4] exI [of _ ?d] exI [of _ ?nf]) simp
qed

section \<open>The task array\<close>

lemma array_bytes: "SIZEOF_Task * of_nat maxCount = (31744 :: u32)" "ROUNDUP 31744 PGSIZE = (32768 :: u32)"
  by (simp_all add: SIZEOF_Task_def maxCount_def ROUNDUP_def ROUNDDOWN_def PGSIZE_def)

lemma envs_range: "within UENVS 0 8 {891..891}"
proof -
  have "uvpt_ix = 893" by simp
  then show ?thesis by (intro withinI) (simp_all add: mmu_consts)
qed

lemma bootAlloc_at:
  assumes "bootNext s = Some (toPhy nf + KERNBASE)" "\<not> bootAllocForbidden s" "sz \<noteq> 0"
  shows "bootAlloc kernEnd sz s = Inr (toPhy nf + KERNBASE, s\<lparr>bootNext := Some (ROUNDUP (toPhy nf + KERNBASE + sz) PGSIZE)\<rparr>)"
  using assms by (simp add: bootAlloc_Some)

lemma allocArray_ok:
  assumes inv: "alloc_inv s fl" "dir_ok s d fl" "kernelPageDir s = toPhy d + KERNBASE"
    and b: "bootNext s = Some (toPhy nf + KERNBASE)" "\<not> bootAllocForbidden s" and nf: "d < nf" "nf \<le> 882" and fl: "fl \<noteq> []"
  shows "\<exists>s' c. allocArray kernEnd (m\<lparr>vm := s\<rparr>) = Some (Inr (m\<lparr>vm := s', tasks := replicate maxCount blank_task\<rparr>))
     \<and> alloc_inv s' (drop c fl) \<and> dir_ok s' d (drop c fl) \<and> c \<le> 1 \<and> kernelPageDir s' = kernelPageDir s \<and> pagesAddr s' = pagesAddr s
     \<and> nPages s' = nPages s \<and> bootNext s' \<noteq> None
     \<and> (\<forall>j. j \<noteq> 891 \<longrightarrow> view (kmem s') d j = view (kmem s) d j) \<and> (\<forall>j. view (kmem s') d j = view (kmem s) d j \<or> pn (view (kmem s') d j) \<in> set fl)
     \<and> (\<forall>k<8. entry s' d (UENVS + page_off k) = (toPhy nf + page_off k) OR PTE_P OR PTE_U)"
proof -
  let ?E = "toPhy nf + KERNBASE"
  let ?s1 = "s\<lparr>bootNext := Some (ROUNDUP (?E + 31744) PGSIZE)\<rparr>"
  let ?s2 = "?s1\<lparr>kmem := mem_clear (kmem s) ?E 31744\<rparr>"
  have E: "unat ?E = 3758096384 + 4096 * nf" using nf(2) unat_slot [of nf 0] by (simp add: slot_def)
  have A: "bootAlloc kernEnd 31744 s = Inr (?E, ?s1)" by (rule bootAlloc_at [OF b]) simp
  have P: "PHY_ADDR ?E = Inr (toPhy nf)" using nf(2) by (intro PHY_ADDR_dir) simp
  have row: "view (kmem ?s2) d = view (kmem s) d"
    using nf E by (simp, intro view_clear_above) (simp_all add: KERNBASE_def)
  have i2: "alloc_inv ?s2 fl" "dir_ok ?s2 d fl" using inv(1,2) row by (simp_all add: alloc_inv_def dir_inv_def)
  have l: "card {891..891 :: nat} \<le> length fl" using fl by (cases fl) simp_all
  obtain s' c where s': "staticMap (toPhy d + KERNBASE) UENVS 32768 (toPhy nf) PTE_U ?s2 = Some (Inr s')"
      "alloc_inv s' (drop c fl)" "dir_ok s' d (drop c fl)" "c \<le> card {891..891 :: nat}" "fixed ?s2 s'" "tables_from ?s2 s' d fl"
      "mapped_range ?s2 s' d UENVS (toPhy nf) PTE_U 0 8" "\<forall>j. j \<notin> {891..891} \<longrightarrow> view (kmem s') d j = view (kmem ?s2) d j"
    using staticMap_card [OF i2 envs_range l, of 32768 "toPhy nf" PTE_U] by auto
  have "allocArray kernEnd (m\<lparr>vm := s\<rparr>) = Some (Inr (m\<lparr>vm := s', tasks := replicate maxCount blank_task\<rparr>))"
    using s'(1) inv(3) by (simp add: allocArray_def array_bytes A P Let_def)
  moreover have "entry s' d (UENVS + page_off k) = (toPhy nf + page_off k) OR PTE_P OR PTE_U" if "k < 8" for k
    using mapped_rangeD [OF s'(7) that] .
  ultimately show ?thesis
    using s' fixedD [OF s'(5)] row by (intro exI [of _ s'] exI [of _ c]) (simp add: tables_from_def)
qed

section \<open>vmem::init\<close>

text \<open>A fresh directory with its recursive slot only.\<close>

lemma fresh_dir:
  assumes "view (kmem s) d = (\<lambda>_. 0)(uvpt_ix := toPhy d OR PTE_U OR PTE_P)" "d < unat (nPages s)" "unat (nPages s) \<le> 131072" "d \<notin> set fl"
  shows "dir_ok s d fl" "\<And>k. present (view (kmem s) d k) \<Longrightarrow> pn (view (kmem s) d k) = d"
proof -
  have f: "unat (PTE_U OR PTE_P) < 4096" "d < 1048576" using assms(2,3) by (simp_all add: PTE_U_def PTE_P_def)
  have e: "pn (toPhy d OR PTE_U OR PTE_P) = d" using entry_bits(2) [OF f(2,1)] by (simp add: or.assoc)
  show k: "pn (view (kmem s) d k) = d" if "present (view (kmem s) d k)" for k
    using that e by (auto simp: assms(1) split: if_splits)
  have "j = uvpt_ix" if "present (view (kmem s) d j)" for j
    using that by (auto simp: assms(1) split: if_splits)
  then show "dir_ok s d fl" using k assms(2,4) by (auto simp: dir_inv_def)
qed

text \<open>The word on the boot stack lies in a page below the directory's.\<close>

lemma stack_word:
  assumes "KERNBASE \<le> bootstack" "aligned 4096 bootstack" "off < 0x8000" "4 dvd off" "unat bootstack + 0x8000 \<le> unat KERNBASE + 4096 * d" "d < 131072"
  shows "\<exists>q j. bootstack + of_nat off = slot q j \<and> j < 1024 \<and> q < d"
proof -
  let ?k = "unat (bootstack - KERNBASE) div 4096"
  have K: "unat KERNBASE = 3758096384" by (simp add: KERNBASE_def)
  note p = page_address [OF assms(2,1)]
  let ?q = "?k + off div 4096" and ?j = "off mod 4096 div 4"
  have q: "?q < d" using p(3) assms(3,5) K by linarith
  have "4 * ?j = off mod 4096" using assms(4) by (simp add: dvd_mod)
  then have o: "4096 * (off div 4096) + 4 * ?j = off" by simp
  have "unat (bootstack + of_nat off) = unat bootstack + off" using assms(3,5,6) K by (intro unat_add_of_nat) simp
  also have "\<dots> = unat (slot ?q ?j)" using p(3) q assms(6) K o by (simp add: unat_slot)
  finally show ?thesis using q by (intro exI [of _ ?q] exI [of _ ?j]) (simp add: word_unat_eq_iff)
qed

lemma low_pages_left:
  assumes "k \<le> 134" "nf \<le> x" "x < 890"
  shows "x \<in> set (drop k (init_free nf n))"
proof -
  have "[nf..<1024] = [nf..<890] @ [890..<1024]" using assms upt_add_eq_append [of nf 890 134] by (simp del: upt_rec_numeral)
  then have "init_free nf n = rev [890..<1024] @ rev [nf..<890] @ rev [1024..<n]" by (simp add: init_free_def del: upt_rec_numeral)
  moreover have "k - length (rev [890..<1024]) = 0" using assms(1) by simp
  ultimately have "drop k (init_free nf n) = drop k (rev [890..<1024]) @ rev [nf..<890] @ rev [1024..<n]"
    by (simp del: upt_rec_numeral)
  moreover have "x \<in> set (rev [nf..<890])" using assms by simp
  ultimately show ?thesis by (simp del: upt_rec_numeral)
qed

lemma bootAlloc_zero: "bootNext s \<noteq> None \<Longrightarrow> \<exists>a. bootAlloc kernEnd 0 s = Inr (a, s)"
  by (auto simp: bootAlloc_def Let_def)

lemma vmem_init_ok:
  assumes c: "boot_config cmos kernEnd bootstack off (vm m)"
  defines "n \<equiv> unat (nPages (detect cmos (vm m)))"
  shows "\<exists>m' d nf fl. vmem_init cmos kernStart kernEnd bootstack (bootstack + KSTKSIZE) (bootstack + of_nat off) cr0 m = Some (Inr m')
     \<and> alloc_inv (vm m') fl \<and> dir_ok (vm m') d fl \<and> kernelPageDir (vm m') = toPhy d + KERNBASE \<and> cr3 m' = toPhy d
     \<and> nPages (vm m') = nPages (detect cmos (vm m)) \<and> kernel_mapped (vm m') d (pagesAddr (vm m')) bootstack
     \<and> present (view (kmem (vm m')) d 512) \<and> (\<forall>l. lookup (view (kmem (vm m'))) d 512 l = 0)
     \<and> tasks m' = replicate maxCount blank_task \<and> freeTasks m' = freeTasks m \<and> current m' = current m
     \<and> bootAllocForbidden (vm m') \<and> d < nf \<and> set fl \<subseteq> {nf..<n} \<and> {nf..<nf + 8} \<subseteq> set fl
     \<and> (\<forall>k<8. entry (vm m') d (UENVS + page_off k) = (toPhy nf + page_off k) OR PTE_P OR PTE_U)"
proof -
  let ?s1 = "detect cmos (vm m)"
  obtain s3 s4 d nf where s4: "pgdir_alloc kernEnd ?s1 = Inr s3" "page_init kernEnd s3 = Inr s4" "alloc_inv s4 (init_free nf n)"
      "nPages s4 = nPages ?s1" "kernelPageDir s4 = toPhy d + KERNBASE" "d < nf" "nf \<le> 882" "unat kernEnd \<le> unat KERNBASE + 4096 * d"
      "KERNBASE \<le> pagesAddr s4" "aligned 4096 (pagesAddr s4)" "bootNext s4 = Some (toPhy nf + KERNBASE)" "\<not> bootAllocForbidden s4"
      "view (kmem s4) d = (\<lambda>_. 0)(uvpt_ix := toPhy d OR PTE_U OR PTE_P)"
    using init_pages [OF c] unfolding n_def by blast
  let ?fl = "init_free nf n"
  have n: "1024 \<le> n" "n \<le> 131072"
    using c div_le_mono [of 4096 "unat (totalMem ?s1)" 4] nPages_unat [OF s4(3)] s4(4) by (simp_all add: boot_config_def n_def detect_fields unat_div)
  have set: "set ?fl = {nf..<n}" using s4(7) n by (intro set_init_free) simp_all
  have dfl: "d \<notin> set ?fl" using s4(6) by (simp add: set)
  note fr = fresh_dir [OF s4(13), of ?fl]
  have d4: "dir_ok s4 d ?fl" using fr(1) s4(4,6,7) n dfl by (simp add: n_def)
  have len: "142 \<le> length ?fl" using s4(7) n by (simp add: init_free_def)
  then have ne: "?fl \<noteq> []" by auto
  let ?m2 = "kprint ''Available'' [Num (totalMem ?s1), Num ((totalMem ?s1 + 1023) div 1024)] ((kprint ''Initializing virtual memory...'' [] m)\<lparr>vm := ?s1\<rparr>)"
  obtain s5 c1 where s5: "allocArray kernEnd (?m2\<lparr>vm := s4\<rparr>) = Some (Inr (?m2\<lparr>vm := s5, tasks := replicate maxCount blank_task\<rparr>))"
      "alloc_inv s5 (drop c1 ?fl)" "dir_ok s5 d (drop c1 ?fl)" "c1 \<le> 1" "kernelPageDir s5 = kernelPageDir s4" "pagesAddr s5 = pagesAddr s4"
      "nPages s5 = nPages s4" "bootNext s5 \<noteq> None" "\<forall>j. j \<noteq> 891 \<longrightarrow> view (kmem s5) d j = view (kmem s4) d j"
      "\<And>j. view (kmem s5) d j = view (kmem s4) d j \<or> pn (view (kmem s5) d j) \<in> set ?fl"
      "\<forall>k<8. entry s5 d (UENVS + page_off k) = (toPhy nf + page_off k) OR PTE_P OR PTE_U"
    using allocArray_ok [OF s4(3) d4 s4(5,11,12,6,7) ne, of kernEnd ?m2] by blast
  let ?s6 = "s5\<lparr>bootAllocForbidden := True\<rparr>"
  let ?m6 = "?m2\<lparr>tasks := replicate maxCount blank_task, vm := ?s6\<rparr>"
  note bc = c [unfolded boot_config_def]
  have dn: "d < 131072" using s4(6,7) by simp
  obtain q j where q: "bootstack + of_nat off = slot q j" "j < 1024" "q < d"
    using stack_word [of bootstack off d] bc s4(8) dn by auto
  have qf: "q \<notin> set ?fl" using q(3) s4(6) by (simp add: set)
  have "init_ready ?s6 d (drop c1 ?fl) bootstack (bootstack + of_nat off) q off"
    unfolding init_ready_def
  proof (intro conjI allI impI)
    show "alloc_inv ?s6 (drop c1 ?fl)" using s5(2) by (simp add: alloc_inv_def)
    show "134 \<le> length (drop c1 ?fl)" using len s5(4) by simp
    show "\<exists>j<1024. bootstack + of_nat off = slot q j" using q by blast
    show "q \<notin> set (drop c1 ?fl)" using qf by (meson in_set_dropD)
    fix k assume k: "k < (1024 :: nat)" "present (view (kmem ?s6) d k)"
    show "pn (view (kmem ?s6) d k) \<noteq> q"
      using s5(10) [of k] fr(2) [of k] k(2) qf q(3) s4(4,6,7) n dfl by (auto simp: n_def)
  qed (use s5 s4 bc q dn in \<open>simp_all\<close>)
  then have ready: "init_ready (vm ?m6) d (drop c1 ?fl) bootstack (bootstack + of_nat off) q off" by simp
  obtain m7 c2 a b where m7: "pgdir_init bootstack (bootstack + KSTKSIZE) (bootstack + of_nat off) cr0 ?m6 = Some (Inr m7)" "c2 \<le> 133"
      "alloc_inv (vm m7) (b # a # drop c2 (drop c1 ?fl))" "dir_ok (vm m7) d (b # a # drop c2 (drop c1 ?fl))"
      "a \<in> set (drop c1 ?fl)" "b \<in> set (drop c1 ?fl)" "fixed (vm ?m6) (vm m7)" "cr3 m7 = toPhy d"
      "kernel_mapped (vm m7) d (pagesAddr (vm ?m6)) bootstack" "present (view (kmem (vm m7)) d 512)" "\<forall>l. lookup (view (kmem (vm m7))) d 512 l = 0"
      "tasks m7 = tasks ?m6" "freeTasks m7 = freeTasks ?m6" "current m7 = current ?m6"
      "\<And>va. unat (PDX va) \<noteq> uvpt_ix \<Longrightarrow> unat (PDX va) \<notin> insert 512 kernel_slots \<Longrightarrow> entry (vm m7) d va = entry (vm ?m6) d va"
    using pgdir_init_ok [OF ready, of cr0] by blast
  let ?fl' = "b # a # drop c2 (drop c1 ?fl)"
  have f7: "nPages (vm m7) = nPages ?s1" "kernelPageDir (vm m7) = toPhy d + KERNBASE" "pagesAddr (vm m7) = pagesAddr s5"
      "bootAllocForbidden (vm m7)" "bootNext (vm m7) \<noteq> None"
    using fixedD [OF m7(7)] s5(5-8) s4(4,5) by simp_all
  obtain cur where cur: "bootAlloc kernEnd 0 (vm m7) = Inr (cur, vm m7)" using bootAlloc_zero [OF f7(5)] by blast
  define m' where "m' = kprint ''Done'' [] (kprint ''Kernel at'' [Num kernStart, Num kernEnd, Num cur, Num ((cur - kernStart + 1023) div 1024)] m7)"
  have "vmem_init cmos kernStart kernEnd bootstack (bootstack + KSTKSIZE) (bootstack + of_nat off) cr0 m = Some (Inr m')"
    using s4(1,2) s5(1) m7(1) cur by (simp add: vmem_init_def Let_def m'_def kprint_def)
  moreover have m': "vm m' = vm m7" "cr3 m' = cr3 m7" "tasks m' = tasks m7" "freeTasks m' = freeTasks m7" "current m' = current m7"
    by (simp_all add: m'_def kprint_def)
  moreover have "set ?fl' \<subseteq> {nf..<n}" using m7(5,6) set by (auto dest!: in_set_dropD)
  moreover have "{nf..<nf + 8} \<subseteq> set ?fl'"
  proof
    fix x assume "x \<in> {nf..<nf + 8}"
    then have "x \<in> set (drop (c2 + c1) ?fl)" using s5(4) m7(2) s4(7) by (intro low_pages_left) auto
    then show "x \<in> set ?fl'" by simp
  qed
  moreover have "entry (vm m7) d (UENVS + page_off k) = (toPhy nf + page_off k) OR PTE_P OR PTE_U" if "k < 8" for k
  proof -
    have w: "unat (PDX (UENVS + page_off k)) = 891" using withinD [OF envs_range that] by simp
    have "entry (vm m7) d (UENVS + page_off k) = entry ?s6 d (UENVS + page_off k)"
      using m7(15) [of "UENVS + page_off k"] w by (simp add: kernel_slots_def)
    also have "\<dots> = entry s5 d (UENVS + page_off k)" by (simp add: entry_def)
    finally show ?thesis using s5(11) that by simp
  qed
  moreover have "tasks m7 = replicate maxCount blank_task" "freeTasks m7 = freeTasks m" "current m7 = current m"
      "kernel_mapped (vm m7) d (pagesAddr (vm m7)) bootstack"
    using m7(9,12-14) f7(3) by (simp_all add: kprint_def)
  ultimately show ?thesis
    using m7(3,4,8,10,11) f7(1,2,4) s4(6)
    by (intro exI [of _ m'] exI [of _ d] exI [of _ nf] exI [of _ ?fl']) (simp only: m' simp_thms, blast)
qed

section \<open>Properties\<close>

text \<open>A machine with 128 MB, as the clock chip's registers say.\<close>

definition boot_cmos :: "u8 \<Rightarrow> u8" where
  "boot_cmos r = (if r = 0x15 then 0x80 else if r = 0x16 then 0x02 else if r = 0x18 then 0x3C else if r = 0x35 then 0x07 else 0)"

definition boot_machine :: machine where
  "boot_machine = \<lparr>vm = small_vm\<lparr>freeList := None, bootNext := None, bootAllocForbidden := False\<rparr>, tasks = [], freeTasks = None,
     current = None, cr3 = 0x1000, rnd = 1, io = typed_line, klog = []\<rparr>"

lemma boot_machine_config: "boot_config boot_cmos 0xE0150000 0xE0120000 0x7F00 (vm boot_machine)"
proof -
  have "nvram_read boot_cmos NVRAM_BASELO = 640" "nvram_read boot_cmos NVRAM_EXTLO = 15360" "nvram_read boot_cmos NVRAM_EXT16LO = 1792"
    by (simp_all add: nvram_read_def boot_cmos_def NVRAM_BASELO_def NVRAM_EXTLO_def NVRAM_EXT16LO_def)
  then have "totalMem (detect boot_cmos s) = 131072" for s by (simp add: detect_def Let_def)
  then show ?thesis by (simp add: boot_config_def detect_fields boot_machine_def aligned_def KERNBASE_def EXTPHYSMEM_def)
qed

text \<open>
  C26: memory initialisation succeeds. On every machine with 4 to 512 MB on which the kernel's image and the
  page descriptors leave 140 pages below 4 MB, \<open>vmem::init\<close> returns with all its assertions passed: the page
  pool and the kernel directory are well formed, the directory is loaded and maps the descriptors at \<open>UPAGES\<close>,
  the boot stack below \<open>KSTACKTOP\<close> and all physical memory at \<open>KERNBASE\<close>, the task array is cleared, and
  \<open>bootAlloc\<close> is closed. The test mapping leaves an empty page table at 2 GB.
\<close>

theorem vmem_init_boots:
  assumes "boot_config cmos kernEnd bootstack off (vm m)"
  shows "\<exists>m' d fl. vmem_init cmos kernStart kernEnd bootstack (bootstack + KSTKSIZE) (bootstack + of_nat off) cr0 m = Some (Inr m')
     \<and> alloc_inv (vm m') fl \<and> dir_ok (vm m') d fl \<and> kernelPageDir (vm m') = toPhy d + KERNBASE \<and> cr3 m' = toPhy d
     \<and> (\<forall>k<1024. entry (vm m') d (UPAGES + page_off k) = (pagesAddr (vm m') - KERNBASE + page_off k) OR PTE_P OR PTE_U)
     \<and> (\<forall>k<8. entry (vm m') d (KSTACKTOP - KSTKSIZE + page_off k) = (bootstack - KERNBASE + page_off k) OR PTE_P OR PTE_W)
     \<and> (\<forall>k<131072. entry (vm m') d (KERNBASE + page_off k) = page_off k OR PTE_P OR PTE_W)
     \<and> tasks m' = replicate maxCount blank_task \<and> bootAllocForbidden (vm m')
     \<and> present (view (kmem (vm m')) d 512) \<and> (\<forall>l. lookup (view (kmem (vm m'))) d 512 l = 0)"
  using vmem_init_ok [OF assms, of kernStart cr0] unfolding kernel_mapped_def by blast

theorem vmem_init_boots_witness:
  "\<exists>m' d. vmem_init boot_cmos 0xE0100000 0xE0150000 0xE0120000 (0xE0120000 + KSTKSIZE) (0xE0120000 + of_nat 0x7F00) 0x11 boot_machine = Some (Inr m')
     \<and> cr3 m' = toPhy d \<and> entry (vm m') d (KERNBASE + page_off 131071) = page_off 131071 OR PTE_P OR PTE_W"
proof -
  have "131071 < (131072 :: nat)" by simp
  then show ?thesis using vmem_init_boots [OF boot_machine_config, of "0xE0100000" "0x11"] by blast
qed

text \<open>
  C27: the task array lies in free memory. \<open>task::allocArray\<close> takes its memory from \<open>bootAlloc\<close> after
  \<open>page::init\<close> has put the pages from there on into the free list. When \<open>vmem::init\<close> returns, the eight pages
  that hold the array, the ones mapped at \<open>UENVS\<close>, are unreferenced and on the free list, so that
  \<open>PageInfo::alloc\<close> hands them out once the others before them are gone.
\<close>

theorem task_array_left_free:
  assumes "boot_config cmos kernEnd bootstack off (vm m)"
  shows "\<exists>m' d fl nf. vmem_init cmos kernStart kernEnd bootstack (bootstack + KSTKSIZE) (bootstack + of_nat off) cr0 m = Some (Inr m')
     \<and> kernelPageDir (vm m') = toPhy d + KERNBASE \<and> alloc_inv (vm m') fl
     \<and> (\<forall>k<8. entry (vm m') d (UENVS + page_off k) = (toPhy nf + page_off k) OR PTE_P OR PTE_U
           \<and> nf + k \<in> set fl \<and> refCount (pages (vm m') ! (nf + k)) = 0)
     \<and> (\<exists>s'. alloc_many (page_alloc True) (length fl) (vm m') = Inr (fl, s'))"
proof -
  obtain m' d nf fl where m': "vmem_init cmos kernStart kernEnd bootstack (bootstack + KSTKSIZE) (bootstack + of_nat off) cr0 m = Some (Inr m')"
      "alloc_inv (vm m') fl" "kernelPageDir (vm m') = toPhy d + KERNBASE" "{nf..<nf + 8} \<subseteq> set fl"
      "\<forall>k<8. entry (vm m') d (UENVS + page_off k) = (toPhy nf + page_off k) OR PTE_P OR PTE_U"
    using vmem_init_ok [OF assms, of kernStart cr0] by blast
  have "nf + k \<in> set fl" if "k < 8" for k using m'(4) that by auto
  moreover have "\<exists>s'. alloc_many (page_alloc True) (length fl) (vm m') = Inr (fl, s')"
    using pool.alloc_many_take [OF m'(2), of True "length fl"] by auto
  ultimately show ?thesis using m' alloc_inv_ref0 [OF m'(2)] by blast
qed

theorem task_array_left_free_witness:
  "\<exists>m' d fl nf. vmem_init boot_cmos 0xE0100000 0xE0150000 0xE0120000 (0xE0120000 + KSTKSIZE) (0xE0120000 + of_nat 0x7F00) 0x11 boot_machine
       = Some (Inr m') \<and> entry (vm m') d UENVS = toPhy nf OR PTE_P OR PTE_U \<and> nf \<in> set fl \<and> alloc_inv (vm m') fl"
proof -
  obtain m' d fl nf where m': "vmem_init boot_cmos 0xE0100000 0xE0150000 0xE0120000 (0xE0120000 + KSTKSIZE) (0xE0120000 + of_nat 0x7F00) 0x11 boot_machine
       = Some (Inr m')" "alloc_inv (vm m') fl"
     "\<forall>k<8. entry (vm m') d (UENVS + page_off k) = (toPhy nf + page_off k) OR PTE_P OR PTE_U
           \<and> nf + k \<in> set fl \<and> refCount (pages (vm m') ! (nf + k)) = 0"
    using task_array_left_free [OF boot_machine_config, of "0xE0100000" "0x11"] by blast
  from m'(3) [rule_format, of 0] show ?thesis using m'(1,2) by (auto simp: page_off_def)
qed

end
