(* ===== verification/KernelInit.thy ===== *)
theory KernelInit
  imports VmBoot System Mp
begin

text \<open>
  The kernel's entry in C++, \<open>i386InitLitchi\<close> of \<open>kernel/init.cc\<close>: every component is initialised in turn,
  then the monitor takes over. \<open>boot_env\<close> collects what the linker, the entry code and the devices provide.
\<close>

record boot_env =
  edata :: u32
  bss_end :: u32
  env_kernStart :: u32
  env_kernEnd :: u32
  env_bootstack :: u32
  env_cr0Addr :: u32
  env_cr0 :: u32
  env_cmos :: "u8 \<Rightarrow> u8"
  env_cga :: "u16 \<times> u8 \<times> u8 \<times> u16 list \<times> u16 list"
  env_lsr :: u8
  env_kbd :: "u8 \<times> u8"
  env_ivt :: "nat \<Rightarrow> u32"
  env_kernelTS :: u32
  env_version :: "string \<times> u32"
  env_elf :: "string \<times> u32"

definition console_init :: "boot_env \<Rightarrow> kio \<Rightarrow> kio" where
  "console_init env s = (let (k, polls, c) = s; (readback, hi, lo, cga_mem, mono_mem) = env_cga env in
     (kbdInit (env_kbd env) k, polls, serial_init (env_lsr env) (cga_init readback hi lo cga_mem mono_mem c)))"

text \<open>The tables that \<open>trap::init\<close> fills: interrupt gates, the task state and the global descriptors.\<close>

record cpu_tables =
  idt :: "GateDesc list"
  kernelTS :: TaskState
  gdtTable :: "SegDesc list"

definition trap_setup :: "boot_env \<Rightarrow> cpu_tables \<Rightarrow> machine \<Rightarrow> cpu_tables \<times> machine" where
  "trap_setup env t m =
     (let m1 = kprint ''Initializing traps...'' [] m; (ts, g) = initPerCpu (env_kernelTS env) (kernelTS t) (gdtTable t) in
      (t\<lparr>idt := trap_init (env_ivt env), kernelTS := ts, gdtTable := g\<rparr>, kprint ''Done'' [] m1))"

text \<open>Everything before \<open>mp::init\<close>, and the whole.\<close>

definition init_kernel :: "boot_env \<Rightarrow> cpu_tables \<Rightarrow> machine \<Rightarrow> (cpu_tables \<times> machine) outcome option" where
  "init_kernel env t m =
     (let m1 = m\<lparr>vm := (vm m)\<lparr>kmem := mem_set (kmem (vm m)) (edata env) 0 (bss_end env - edata env)\<rparr>\<rparr>;
          m2 = kprint ''Hello, Litchi!'' [Str (fst (env_version env)), Num (snd (env_version env))] (m1\<lparr>io := console_init env (io m1)\<rparr>) in
      bindO (vmem_init (env_cmos env) (env_kernStart env) (env_kernEnd env) (env_bootstack env) (env_bootstack env + KSTKSIZE)
        (env_cr0Addr env) (env_cr0 env) m2) (\<lambda>m3.
      bindO (Some (task_init m3)) (\<lambda>m4.
      Some (Inr (trap_setup env t (kprint ''User ELF [%s] is embedded at %p'' [Str (fst (env_elf env)), Num (snd (env_elf env))] m4))))))"

definition i386InitLitchi :: "boot_env \<Rightarrow> (string \<Rightarrow> u32) \<Rightarrow> lapic_dev \<Rightarrow> mp \<Rightarrow> cpu_tables \<Rightarrow> machine
    \<Rightarrow> (mp \<times> cpu_tables \<times> machine) outcome option" where
  "i386InitLitchi env lit dev p t m =
     bindO (init_kernel env t m) (\<lambda>(t1, m1). bindO (mp_init lit dev (p, m1)) (\<lambda>(p2, m2). Some (Inr (p2, t1, m2))))"

lemma detect_kmem: "totalMem (detect cmos (s\<lparr>kmem := x\<rparr>)) = totalMem (detect cmos s)" "nPages (detect cmos (s\<lparr>kmem := x\<rparr>)) = nPages (detect cmos s)"
  by (simp_all add: detect_def Let_def)

lemma boot_config_kmem: "boot_config cmos ke bs off (s\<lparr>kmem := x\<rparr>) = boot_config cmos ke bs off s"
  by (simp add: boot_config_def detect_kmem)

lemma link_tasks_vm: "foldE link_task xs m = Inr m' \<Longrightarrow> vm m' = vm m \<and> cr3 m' = cr3 m"
proof (induction xs arbitrary: m)
  case (Cons x xs)
  then obtain m1 where m1: "link_task x m = Inr m1" "foldE link_task xs m1 = Inr m'" by auto
  from m1(1) have "vm m1 = vm m \<and> cr3 m1 = cr3 m" by (auto simp: link_task_def set_task_def)
  then show ?case using Cons.IH [OF m1(2)] by simp
qed simp

lemma task_init_vm:
  assumes "task_init m = Inr m'"
  shows "kernelPageDir (vm m') = kernelPageDir (vm m)" "cr3 m' = cr3 m"
proof -
  obtain m1 where m1: "foldE link_task (rev [0..<maxCount]) (kprint ''Initializing tasks...'' [] m) = Inr m1"
      "m' = kprint ''Done'' [] (task_initPerCpu m1)"
    using assms by (auto simp: task_init_def)
  show "kernelPageDir (vm m') = kernelPageDir (vm m)" "cr3 m' = cr3 m"
    using link_tasks_vm [OF m1(1)] by (simp_all add: m1(2) task_initPerCpu_def kprint_def)
qed


definition demo_env :: boot_env where
  "demo_env = \<lparr>edata = 0xE0148000, bss_end = 0xE0150000, env_kernStart = 0xE0100000, env_kernEnd = 0xE0150000,
     env_bootstack = 0xE0120000, env_cr0Addr = 0xE0127F00, env_cr0 = 0x11, env_cmos = boot_cmos,
     env_cga = (0xA55A, 0, 0, replicate 2000 0, []), env_lsr = 0x60, env_kbd = (0, 0), env_ivt = (\<lambda>i. 0xE0101000 + 16 * of_nat i),
     env_kernelTS = 0xE0148100, env_version = (''0'', 2020), env_elf = (''hello'', 0xE0140000)\<rparr>"


end
