(* ===== verification/Debug.thy ===== *)
theory Debug
  imports Task
begin

text \<open>
  \<open>kernel/kdebug.cc\<close> and \<open>kernel/panic.cc\<close>: the walk over the stack frames and the panic message. The
  frame pointer is an argument; the stack is read through the loaded directory. A panic ends in a loop
  around \<open>hlt\<close>; what remains of it is the state in which the machine halts.
\<close>

definition kload32 :: "machine \<Rightarrow> u32 \<Rightarrow> u32 outcome" where
  "kload32 m va = (case mmu_walk (kmem (vm m)) (cr3 m + KERNBASE) va of
     None \<Rightarrow> Inl (Panic ''Unhandled page fault from kernel'') | Some a \<Rightarrow> Inr (load32 (kmem (vm m)) a))"

primrec backtrace_loop :: "nat \<Rightarrow> u32 \<Rightarrow> machine \<Rightarrow> machine outcome" where
  "backtrace_loop 0 bp m = Inr m"
| "backtrace_loop (Suc depth) bp m =
     (if bp \<noteq> 0 \<and> bp + 24 < KSTACKTOP then
        bindE (kload32 m (bp + 4)) (\<lambda>ip. bindE (kload32 m (bp + 8)) (\<lambda>a1. bindE (kload32 m (bp + 12)) (\<lambda>a2.
        bindE (kload32 m (bp + 16)) (\<lambda>a3. bindE (kload32 m (bp + 20)) (\<lambda>a4. bindE (kload32 m (bp + 24)) (\<lambda>a5.
        let m1 = kprint ''  %p  %p  %p %p %p %p %p'' (map Num [bp, ip, a1, a2, a3, a4, a5]) m in
        bindE (kload32 m1 bp) (\<lambda>bp. backtrace_loop depth bp m1)))))))
      else Inr m)"

definition backtrace :: "u32 \<Rightarrow> machine \<Rightarrow> machine outcome" where
  "backtrace bp m = backtrace_loop 5 bp (kprint ''Backtrace:'' [] m)"

text \<open>The flag is the static \<open>PANIC\<close>; the message's own format and arguments come as they are.\<close>

definition kernelPanic :: "string \<Rightarrow> u32 \<Rightarrow> string \<times> arg list \<Rightarrow> u32 \<Rightarrow> bool \<times> machine \<Rightarrow> (bool \<times> machine) outcome" where
  "kernelPanic file line msg bp st =
     (let (PANIC, m) = st in
      if PANIC then Inr (True, m)
      else bindE (backtrace bp (kprint (fst msg) (snd msg) (kprint ''KERNEL PANIC AT %s:%d =>'' [Str file, Num line] m)))
        (\<lambda>m1. Inr (True, kprint ''********'' [] m1)))"

definition kernelWarning :: "string \<Rightarrow> u32 \<Rightarrow> string \<times> arg list \<Rightarrow> machine \<Rightarrow> machine" where
  "kernelWarning file line msg m =
     kprint ''********'' [] (kprint (fst msg) (snd msg) (kprint ''KERNEL WARNING AT %s:%d =>'' [Str file, Num line] m))"

text \<open>The walk changes nothing but the messages, and prints at most \<open>depth\<close> of them.\<close>

lemma backtrace_loop_prints:
  "backtrace_loop depth bp m = Inr m' \<Longrightarrow> \<exists>ls. m' = m\<lparr>klog := ls @ klog m\<rparr> \<and> length ls \<le> depth"
proof (induction depth arbitrary: bp m)
  case 0
  then show ?case by (intro exI [of _ "[]"]) simp
next
  case (Suc depth)
  show ?case
  proof (cases "bp \<noteq> 0 \<and> bp + 24 < KSTACKTOP")
    case False
    have "m' = m" using Suc.prems unfolding backtrace_loop.simps if_not_P [OF False] by simp
    then show ?thesis by (intro exI [of _ "[]"]) simp
  next
    case True
    then obtain args bp' where "backtrace_loop depth bp' (kprint ''  %p  %p  %p %p %p %p %p'' args m) = Inr m'"
      using Suc.prems by (auto simp: Let_def)
    from Suc.IH [OF this] obtain ls where "m' = (kprint ''  %p  %p  %p %p %p %p %p'' args m)\<lparr>klog := ls @ klog (kprint ''  %p  %p  %p %p %p %p %p'' args m)\<rparr>"
        "length ls \<le> depth" by blast
    then show ?thesis by (intro exI [of _ "ls @ [(''  %p  %p  %p %p %p %p %p'', args)]"]) (simp add: kprint_def)
  qed
qed

lemma backtrace_prints: "backtrace bp m = Inr m' \<Longrightarrow> \<exists>ls. m' = m\<lparr>klog := ls @ klog m\<rparr> \<and> length ls \<le> 6"
proof -
  assume "backtrace bp m = Inr m'"
  then obtain ls where "m' = (kprint ''Backtrace:'' [] m)\<lparr>klog := ls @ klog (kprint ''Backtrace:'' [] m)\<rparr>" "length ls \<le> 5"
    using backtrace_loop_prints unfolding backtrace_def by blast
  then show ?thesis by (intro exI [of _ "ls @ [(''Backtrace:'', [])]"]) (simp add: kprint_def)
qed

text \<open>
  \<open>KSTACKTOP\<close> equals \<open>KERNBASE\<close>, and the boot stack, on which the kernel runs until the first trap, is part of
  the kernel's image above it: a panic there prints no frame.
\<close>

lemma backtrace_boot_stack:
  assumes "KERNBASE \<le> bp" "unat bp + 24 < 4294967296"
  shows "backtrace bp m = Inr (kprint ''Backtrace:'' [] m)"
proof -
  have "unat (bp + 24) = unat bp + 24" using assms(2) by (subst unat_add_no_wrap) simp_all
  then have "\<not> bp + 24 < KSTACKTOP" using assms(1) by (simp add: word_less_nat_alt word_le_nat_alt KERNBASE_def KSTACKTOP_def)
  then have "\<not> (bp \<noteq> 0 \<and> bp + 24 < KSTACKTOP)" by simp
  then have "backtrace_loop (Suc 4) bp m1 = Inr m1" for m1 unfolding backtrace_loop.simps by (rule if_not_P)
  moreover have "(5 :: nat) = Suc 4" by simp
  ultimately show ?thesis unfolding backtrace_def by metis
qed

text \<open>A panic inside a panic halts at once.\<close>

lemma kernelPanic_nested: "kernelPanic file line msg bp (True, m) = Inr (True, m)"
  by (simp add: kernelPanic_def)

lemma kernelPanic_halts: "kernelPanic file line msg bp (b, m) = Inr (p, m') \<Longrightarrow> p \<and> (\<exists>ls. m' = m\<lparr>klog := ls @ klog m\<rparr>)"
proof (cases b)
  case False
  let ?m = "kprint (fst msg) (snd msg) (kprint ''KERNEL PANIC AT %s:%d =>'' [Str file, Num line] m)"
  assume a: "kernelPanic file line msg bp (b, m) = Inr (p, m')"
  then obtain m1 where m1: "backtrace bp ?m = Inr m1" "p" "m' = kprint ''********'' [] m1" using False by (auto simp: kernelPanic_def)
  obtain ls where "m1 = ?m\<lparr>klog := ls @ klog ?m\<rparr>" using backtrace_prints [OF m1(1)] by blast
  then have "m' = m\<lparr>klog := ((''********'', []) # ls @ [(fst msg, snd msg), (''KERNEL PANIC AT %s:%d =>'', [Str file, Num line])]) @ klog m\<rparr>"
    using m1(3) by (simp add: kprint_def)
  then show ?thesis using m1(2) by blast
qed (auto simp: kernelPanic_def intro: exI [of _ "[]"])

end
