(* ===== verification/Entry.thy ===== *)
theory Entry
  imports PageAlloc
begin

text \<open>
  The page directory of the entry code, \<open>kernel/entrypgdir.c\<close>: two entries for pages of 4 MB, under which
  the kernel runs until it has built its own directory.
\<close>

definition PTE_PS :: u32 where "PTE_PS = 0x080"

definition entry_pgdir_super :: "nat \<Rightarrow> u32" where
  "entry_pgdir_super = (\<lambda>_. 0)(0 := 0 OR PTE_P OR PTE_W OR PTE_PS, unat (drop_bit 22 KERNBASE) := 0 OR PTE_P OR PTE_W OR PTE_PS)"

text \<open>How the processor translates through an entry with the page size bit set.\<close>

definition super_walk :: "(nat \<Rightarrow> u32) \<Rightarrow> u32 \<Rightarrow> u32 option" where
  "super_walk dir va = (let e = dir (unat (PDX va)) in
     if e AND PTE_P \<noteq> 0 \<and> e AND PTE_PS \<noteq> 0 then Some ((e AND 0xFFC00000) OR (va AND 0x003FFFFF)) else None)"

lemma low_22: "unat ((va :: u32) AND 0x003FFFFF) = unat va mod 4194304"
proof -
  have "(0x003FFFFF :: u32) = mask 22" by (simp add: mask_eq_exp_minus_1)
  then show ?thesis by (simp only: unat_and_mask) simp
qed

lemma quot_iff: "0 < d \<Longrightarrow> x div d = q \<longleftrightarrow> q * d \<le> x \<and> x < (q + 1) * d" for x d q :: nat
  by (metis Suc_eq_plus1 div_less_iff_less_mult less_Suc_eq_le less_eq_div_iff_mult_less_eq order_antisym_conv order_refl)

text \<open>It maps the first 4 MB to themselves and once more at \<open>KERNBASE\<close>, and nothing else.\<close>

lemma entry_pgdir_window:
  "super_walk entry_pgdir_super va =
     (if va < 0x400000 then Some va else if KERNBASE \<le> va \<and> va < KERNBASE + 0x400000 then Some (va - KERNBASE) else None)"
proof -
  have i: "unat (PDX va) = unat va div 4194304" by (rule unat_PDX)
  have lt: "unat va < 4294967296" by (rule unat_lt_2p32)
  have k: "unat (drop_bit 22 KERNBASE) = 896" by (simp add: KERNBASE_def)
  have q: "unat va div 4194304 < 1024" by (rule less_mult_imp_div_less) (use lt in simp)
  have e: "super_walk entry_pgdir_super va = (if unat va div 4194304 = 0 \<or> unat va div 4194304 = 896 then Some (va AND 0x003FFFFF) else None)"
    using q unfolding super_walk_def entry_pgdir_super_def k i by (simp add: PTE_P_def PTE_W_def PTE_PS_def)
  have z: "unat va div 4194304 = 0 \<longleftrightarrow> va < 0x400000" by (simp add: word_less_nat_alt div_eq_0_iff)
  have w: "unat va div 4194304 = 896 \<longleftrightarrow> KERNBASE \<le> va \<and> va < KERNBASE + 0x400000"
    using quot_iff [of 4194304 "unat va" 896] by (simp add: KERNBASE_def word_less_nat_alt word_le_nat_alt)
  have lo: "va AND 0x003FFFFF = va" if "va < 0x400000"
    using that by (intro unat_inj32) (simp add: low_22 word_less_nat_alt)
  have hi: "va AND 0x003FFFFF = va - KERNBASE" if "KERNBASE \<le> va \<and> va < KERNBASE + 0x400000"
  proof (rule unat_inj32)
    have "unat va = 896 * 4194304 + unat va mod 4194304" using that w by (metis div_mult_mod_eq)
    then show "unat (va AND 0x003FFFFF) = unat (va - KERNBASE)" using that by (simp add: low_22 unat_sub KERNBASE_def)
  qed
  show ?thesis unfolding e z w using lo hi by simp
qed

end
