(* ===== verification/UserConsole.thy ===== *)
theory UserConsole
  imports System UserPrint
begin

text \<open>
  The user's \<open>print\<close> down to the console: the library's buffer lies in a page of the task that runs, every
  request is a \<open>putString\<close> system call, and the kernel reads the characters back through the task's directory.
\<close>

section \<open>The buffer in the memory of the task\<close>

text \<open>The inline assembly of \<open>syscall\<close>: the registers are loaded and the trap instruction is executed.\<close>

definition syscall_frame :: "Num \<Rightarrow> u32 \<Rightarrow> u32 \<Rightarrow> u32 \<Rightarrow> u32 \<Rightarrow> u32 \<Rightarrow> Frame \<Rightarrow> Frame" where
  "syscall_frame n a1 a2 a3 a4 a5 f = f\<lparr>trapType := T_syscall,
     regs := (regs f)\<lparr>eax := num_code n, edx := a1, ecx := a2, ebx := a3, edi := a4, esi := a5\<rparr>\<rparr>"

text \<open>A trap from the user code that runs with frame \<open>f\<close>.\<close>

definition user_trap :: "u32 \<Rightarrow> Frame \<Rightarrow> machine \<Rightarrow> trap_end outcome option" where
  "user_trap va f m = trap (eflags f AND FL_IF \<noteq> 0) va f m"

text \<open>
  \<open>printVa\<close> in progress: \<open>idx\<close> and \<open>count\<close> of the \<open>PrintBuf\<close> whose array \<open>buf\<close> is at a fixed address, the
  registers of the task and the machine; or a trap from which the task has not come back.
\<close>

datatype uprint = Live nat u32 Frame machine | Trapped "trap_end outcome option"

text \<open>A store to memory that is not mapped is a page fault.\<close>

definition user_store16 :: "u32 \<Rightarrow> u16 \<Rightarrow> machine \<Rightarrow> u32 + machine" where
  "user_store16 va c m = (case user_write va (ucast c) m of None \<Rightarrow> Inl va
     | Some m1 \<Rightarrow> (case user_write (va + 1) (ucast (drop_bit 8 c)) m1 of None \<Rightarrow> Inl (va + 1) | Some m2 \<Rightarrow> Inr m2))"

definition mflush :: "u32 \<Rightarrow> uprint \<Rightarrow> uprint" where
  "mflush buf s = (case s of Trapped r \<Rightarrow> Trapped r
     | Live idx count f m \<Rightarrow>
         if idx \<noteq> 0 then
           (case user_trap 0 (syscall_frame putString buf (of_nat idx) 0 0 0 f) m of
              Some (Inr (Resume f1 m1)) \<Rightarrow> Live 0 count f1 m1
            | r \<Rightarrow> Trapped r)
         else s)"

definition mputChar :: "u32 \<Rightarrow> u32 \<Rightarrow> uprint \<Rightarrow> uprint" where
  "mputChar buf c s = (case s of Trapped r \<Rightarrow> Trapped r
     | Live idx count f m \<Rightarrow>
         if c AND 0x00ff \<noteq> 0 then
           (case user_store16 (buf + 2 * of_nat idx) (ucast (c AND 0xffff)) m of
              Inl va \<Rightarrow> Trapped (user_trap va (f\<lparr>trapType := T_pageFault\<rparr>) m)
            | Inr m1 \<Rightarrow>
                (case (if idx + 1 = pb_maxCount - 1 then mflush buf (Live (idx + 1) count f m1) else Live (idx + 1) count f m1) of
                   Trapped r \<Rightarrow> Trapped r
                 | Live idx1 count1 f1 m2 \<Rightarrow> Live idx1 (count1 + 1) f1 m2))
         else s)"

text \<open>The format and its arguments are read from the memory \<open>k\<close>.\<close>

definition mprintVa :: "u32 \<Rightarrow> mem \<Rightarrow> u32 \<Rightarrow> u32 \<Rightarrow> Frame \<Rightarrow> machine \<Rightarrow> uprint option" where
  "mprintVa buf k fmt ap f m =
     map_option (mflush buf) (printFmtVa (mputChar buf) k fmt ap DEF_FORE DEF_BACK (Live 0 0 f m))"

section \<open>A page of the running task\<close>

abbreviation UW :: u32 where "UW \<equiv> PTE_P OR PTE_U OR PTE_W"

text \<open>\<open>va\<close> is mapped writable to the physical page \<open>i\<close>, which holds neither the directory nor the table.\<close>

definition buf_page :: "machine \<Rightarrow> nat \<Rightarrow> nat \<Rightarrow> u32 \<Rightarrow> bool" where
  "buf_page m d i va \<longleftrightarrow> cr3 m = toPhy d \<and> d < 131072 \<and> i < 131072 \<and> i \<noteq> d
     \<and> (let pde = view (kmem (vm m)) d (unat (PDX va)); pte = view (kmem (vm m)) (pn pde) (unat (PTX va)) in
        pde AND UW = UW \<and> pte AND UW = UW \<and> pn pde < 131072 \<and> pn pde \<noteq> i \<and> pn pte = i)"

definition frame_addr :: "nat \<Rightarrow> u32 \<Rightarrow> u32" where
  "frame_addr i va = toPhy i + KERNBASE + PGOFF va"

lemma UW_present: "e AND UW = UW \<Longrightarrow> present e"
proof -
  assume a: "e AND UW = UW"
  have u: "UW AND PTE_P = PTE_P" by (simp add: PTE_P_def PTE_U_def PTE_W_def)
  have "e AND PTE_P = (e AND UW) AND PTE_P" using u by (simp add: and.assoc)
  then show ?thesis using a u by (simp add: PTE_P_def)
qed

lemma UW_user: "e AND UW = UW \<Longrightarrow> e AND (PTE_U OR PTE_P) \<noteq> 0"
proof -
  assume a: "e AND UW = UW"
  have u: "UW AND (PTE_U OR PTE_P) = PTE_U OR PTE_P" by (simp add: PTE_P_def PTE_U_def PTE_W_def)
  have "e AND (PTE_U OR PTE_P) = (e AND UW) AND (PTE_U OR PTE_P)" using u by (simp only: and.assoc)
  then show ?thesis using a u by (simp add: PTE_P_def PTE_U_def)
qed

lemma buf_page_walk:
  assumes "buf_page m d i va"
  shows "mmu_walk (kmem (vm m)) (cr3 m + KERNBASE) va = Some (frame_addr i va)"
    and "user_write va b m = Some (m\<lparr>vm := (vm m)\<lparr>kmem := (kmem (vm m))(frame_addr i va := b)\<rparr>\<rparr>)"
proof -
  let ?pde = "view (kmem (vm m)) d (unat (PDX va))"
  let ?pte = "view (kmem (vm m)) (pn ?pde) (unat (PTX va))"
  note p = assms [unfolded buf_page_def Let_def]
  have l: "load32 (kmem (vm m)) (toPhy d + KERNBASE + 4 * PDX va) = ?pde" using p by (simp add: slot_PDX load_slot PDX_lt)
  have t: "load32 (kmem (vm m)) (PTE_ADDR ?pde + KERNBASE + 4 * PTX va) = ?pte" using p by (simp add: slot_PTX load_slot PTX_lt)
  have a: "PTE_ADDR ?pte = toPhy i" using p toPhy_pn [of ?pte] by simp
  show "mmu_walk (kmem (vm m)) (cr3 m + KERNBASE) va = Some (frame_addr i va)"
    using p UW_present by (simp add: mmu_walk_def Let_def l t a frame_addr_def)
  show "user_write va b m = Some (m\<lparr>vm := (vm m)\<lparr>kmem := (kmem (vm m))(frame_addr i va := b)\<rparr>\<rparr>)"
    using p by (simp add: user_write_def Let_def l t a frame_addr_def)
qed

text \<open>Changing bytes of one page leaves the entries of the others.\<close>

lemma view_other_page:
  assumes "i < 131072" "k \<noteq> i" "\<And>a. m' a \<noteq> m a \<Longrightarrow> \<exists>p<4096. a = toPhy i + KERNBASE + of_nat p"
  shows "view m' k = view m k"
proof
  fix j
  show "view m' k j = view m k j"
  proof (cases "k < 131072 \<and> j < 1024")
    case True
    have "m' (slot k j + of_nat b) = m (slot k j + of_nat b)" if "b < 4" for b
    proof (rule ccontr)
      assume "m' (slot k j + of_nat b) \<noteq> m (slot k j + of_nat b)"
      then obtain p where p: "p < 4096" "slot k j + of_nat b = slot i 0 + of_nat p" using assms(3) by (force simp: slot_def)
      have "unat (slot k j + of_nat b) = 3758096384 + 4096 * k + 4 * j + b"
        using True that by (subst unat_add_of_nat) (auto simp: unat_slot)
      moreover have "unat (slot i 0 + of_nat p) = 3758096384 + 4096 * i + p"
        using assms(1) p(1) by (subst unat_add_of_nat) (auto simp: unat_slot)
      ultimately have "4096 * k + (4 * j + b) = 4096 * i + p" using p(2) by simp
      then have "(4096 * k + (4 * j + b)) div 4096 = (4096 * i + p) div 4096" by simp
      then show False using True that p(1) assms(2) by simp
    qed
    from this [of 0] this [of 1] this [of 2] this [of 3] show ?thesis using True by (simp add: view_def load32_def)
  qed (auto simp: view_def)
qed

lemma buf_page_kmem:
  assumes "buf_page m d i va" "\<And>a. k a \<noteq> kmem (vm m) a \<Longrightarrow> \<exists>p<4096. a = toPhy i + KERNBASE + of_nat p"
  shows "buf_page (m\<lparr>vm := (vm m)\<lparr>kmem := k\<rparr>\<rparr>) d i va" "view k d = view (kmem (vm m)) d"
proof -
  note p = assms(1) [unfolded buf_page_def Let_def]
  have v: "view k r = view (kmem (vm m)) r" if "r \<noteq> i" for r
    using view_other_page [of i r k "kmem (vm m)"] p that assms(2) by blast
  then show "view k d = view (kmem (vm m)) d" using p by metis
  then show "buf_page (m\<lparr>vm := (vm m)\<lparr>kmem := k\<rparr>\<rparr>) d i va" using p v by (simp add: buf_page_def Let_def)
qed

section \<open>The bytes of the buffer\<close>

definition char_bytes :: "u16 list \<Rightarrow> u8 list" where
  "char_bytes xs = concat (map (\<lambda>c. [ucast c, ucast (drop_bit 8 c)]) xs)"

lemma char_bytes_simps [simp]: "char_bytes [] = []" "char_bytes (c # xs) = ucast c # ucast (drop_bit 8 c) # char_bytes xs"
  "length (char_bytes xs) = 2 * length xs"
  by (simp_all add: char_bytes_def) (induction xs, simp_all)

lemma add_in_page:
  fixes x n :: nat
  assumes "x mod 4096 + n < 4096"
  shows "(x + n) div 4096 = x div 4096 \<and> (x + n) mod 4096 = x mod 4096 + n"
proof -
  have g: "r < 4096 \<Longrightarrow> (r + 4096 * q) div 4096 = q \<and> (r + 4096 * q) mod 4096 = r" for r q :: nat by simp
  have "x + n = (x mod 4096 + n) + 4096 * (x div 4096)" by simp
  then show ?thesis using g [OF assms, of "x div 4096"] by simp
qed

lemma unat_in_page:
  assumes "unat (va :: u32) mod 4096 + n < 4096"
  shows "unat (va + of_nat n) = unat va + n"
proof -
  have q: "unat va = unat va div 4096 * 4096 + unat va mod 4096" by simp
  have "unat va div 4096 < 1048576" by (rule less_mult_imp_div_less) (use unat_lt_2p32 [of va] in simp)
  then have "unat va + n < 4294967296" using q assms by linarith
  then show ?thesis by (rule unat_add_of_nat)
qed

lemma frame_addr_next:
  assumes "unat (PGOFF va) + n < 4096"
  shows "frame_addr i (va + of_nat n) = frame_addr i va + of_nat n" "PDX (va + of_nat n) = PDX va" "PTX (va + of_nat n) = PTX va"
    "unat (PGOFF (va + of_nat n)) = unat (PGOFF va) + n"
proof -
  have o: "unat va mod 4096 + n < 4096" using assms by (simp add: unat_PGOFF)
  note u = unat_in_page [OF o]
  have d: "(unat va + n) div 4096 = unat va div 4096" "(unat va + n) mod 4096 = unat va mod 4096 + n"
    using add_in_page [OF o] by simp_all
  show "unat (PGOFF (va + of_nat n)) = unat (PGOFF va) + n" by (simp add: unat_PGOFF u d)
  have "PGOFF (va + of_nat n) = PGOFF va + of_nat n"
    using o by (intro unat_inj32) (subst unat_add_of_nat, simp_all add: unat_PGOFF u d)
  then show "frame_addr i (va + of_nat n) = frame_addr i va + of_nat n" by (simp add: frame_addr_def)
  have "(unat va + n) div 4194304 = unat va div 4194304"
    using d(1) div_mult2_eq [of "unat va + n" 4096 1024] div_mult2_eq [of "unat va" 4096 1024] by simp
  then show "PDX (va + of_nat n) = PDX va" by (intro unat_inj32) (simp add: unat_PDX u)
  show "PTX (va + of_nat n) = PTX va" by (intro unat_inj32) (simp add: unat_PTX u d)
qed

lemma buf_page_next: "buf_page m d i va \<Longrightarrow> unat (PGOFF va) + n < 4096 \<Longrightarrow> buf_page m d i (va + of_nat n)"
  by (simp add: buf_page_def frame_addr_next)

text \<open>Writing bytes of the page from \<open>va\<close> on.\<close>

lemma page_bytes:
  assumes "buf_page m d i va" "unat (PGOFF va) + n < 4096" "\<And>a. k a \<noteq> kmem (vm m) a \<Longrightarrow> \<exists>p<n. a = frame_addr i va + of_nat p"
  shows "buf_page (m\<lparr>vm := (vm m)\<lparr>kmem := k\<rparr>\<rparr>) d i va" "view k d = view (kmem (vm m)) d"
proof -
  have "\<exists>p<4096. a = toPhy i + KERNBASE + of_nat p" if a: "k a \<noteq> kmem (vm m) a" for a
  proof -
    obtain p where p: "p < n" "a = frame_addr i va + of_nat p" using assms(3) [OF a] by blast
    then have "a = toPhy i + KERNBASE + of_nat (unat (PGOFF va) + p)" by (simp add: frame_addr_def add.assoc)
    then show ?thesis using p(1) assms(2) by (intro exI [of _ "unat (PGOFF va) + p"]) simp
  qed
  then show "buf_page (m\<lparr>vm := (vm m)\<lparr>kmem := k\<rparr>\<rparr>) d i va" "view k d = view (kmem (vm m)) d"
    using buf_page_kmem [OF assms(1)] by blast+
qed

lemma char_bytes_nth: "k < length xs \<Longrightarrow> char_bytes xs ! (2 * k) = ucast (xs ! k)"
  "k < length xs \<Longrightarrow> char_bytes xs ! (2 * k + 1) = ucast (drop_bit 8 (xs ! k))"
proof (induction xs arbitrary: k)
  case (Cons c xs)
  { case 1 then show ?case using Cons.IH(1) by (cases k) auto }
  { case 2 then show ?case using Cons.IH(2) by (cases k) auto }
qed simp_all

lemma bytes_char: "ucast (ucast (c :: u16) :: u8) OR push_bit 8 (ucast (ucast (drop_bit 8 c) :: u8)) = c"
  by (rule bit_word_eqI) (auto simp: bit_simps)

text \<open>
  Task \<open>c\<close> runs, its directory is the page \<open>d\<close> and is well formed, and a buffer of 512 bytes at \<open>va\<close> lies in
  one page below \<open>ULIM\<close> that the task may write.
\<close>

definition user_buffer :: "machine \<Rightarrow> nat \<Rightarrow> nat list \<Rightarrow> nat \<Rightarrow> nat \<Rightarrow> u32 \<Rightarrow> bool" where
  "user_buffer m c fl d i va \<longleftrightarrow> kernel_ok m \<and> current m = Some c \<and> pageDir (tasks m ! c) = toPhy d + KERNBASE
     \<and> alloc_inv (vm m) fl \<and> dir_ok (vm m) d fl \<and> buf_page m d i va \<and> va < ULIM \<and> unat (PGOFF va) + 512 \<le> 4096"

text \<open>The first bytes of the buffer hold the characters \<open>xs\<close>.\<close>

definition buf_holds :: "machine \<Rightarrow> nat \<Rightarrow> u32 \<Rightarrow> u16 list \<Rightarrow> bool" where
  "buf_holds m i va xs \<longleftrightarrow> (\<forall>p<2 * length xs. kmem (vm m) (frame_addr i va + of_nat p) = char_bytes xs ! p)"

lemma user_buffer_byte:
  assumes "user_buffer m c fl d i va" "p < 512"
  shows "readable m (va + of_nat p)" "byte_at m (va + of_nat p) = kmem (vm m) (frame_addr i va + of_nat p)"
    "user_write (va + of_nat p) b m = Some (m\<lparr>vm := (vm m)\<lparr>kmem := (kmem (vm m))(frame_addr i va + of_nat p := b)\<rparr>\<rparr>)"
proof -
  note u = assms(1) [unfolded user_buffer_def]
  have o: "unat (PGOFF va) + p < 4096" using u assms(2) by linarith
  have b: "buf_page m d i (va + of_nat p)" by (rule buf_page_next [OF _ o]) (use u in simp)
  note w = buf_page_walk [OF b, unfolded frame_addr_next(1) [OF o]]
  show "readable m (va + of_nat p)" "byte_at m (va + of_nat p) = kmem (vm m) (frame_addr i va + of_nat p)"
    using w(1) by (simp_all add: readable_def byte_at_def)
  show "user_write (va + of_nat p) b m = Some (m\<lparr>vm := (vm m)\<lparr>kmem := (kmem (vm m))(frame_addr i va + of_nat p := b)\<rparr>\<rparr>)"
    by (rule w(2))
qed

lemma user_buffer_chars:
  assumes u: "user_buffer m c fl d i va" and h: "buf_holds m i va xs" and k: "k < length xs" "length xs \<le> 255"
  shows "readable m (va + 2 * of_nat k) \<and> readable m (va + 2 * of_nat k + 1) \<and> char16 m (va + 2 * of_nat k) = xs ! k"
proof -
  have e: "va + of_nat (2 * k) = va + 2 * of_nat k" "va + of_nat (2 * k + 1) = va + 2 * of_nat k + 1" by simp_all
  have lt: "2 * k < 512" "2 * k + 1 < 512" "2 * k < 2 * length xs" "2 * k + 1 < 2 * length xs" using k by simp_all
  have b: "byte_at m (va + of_nat p) = char_bytes xs ! p" if "p < 2 * length xs" for p
    using user_buffer_byte(2) [OF u, of p] h that k(2) by (simp add: buf_holds_def)
  note b [OF lt(3), unfolded e] b [OF lt(4), unfolded e]
  then show ?thesis
    using user_buffer_byte(1) [OF u lt(1)] user_buffer_byte(1) [OF u lt(2)] char_bytes_nth [OF k(1)] bytes_char [of "xs ! k"]
    unfolding char16_def e by simp
qed

lemma dir_inv_cong: "pv' d = pv d \<Longrightarrow> dir_inv pv d n fl \<Longrightarrow> dir_inv pv' d n fl"
  by (simp add: dir_inv_def)

lemma user_buffer_kmem:
  assumes u: "user_buffer m c fl d i va" and k: "\<And>a. k a \<noteq> kmem (vm m) a \<Longrightarrow> \<exists>p<510. a = frame_addr i va + of_nat p"
  shows "user_buffer (m\<lparr>vm := (vm m)\<lparr>kmem := k\<rparr>\<rparr>) c fl d i va"
proof -
  note u = u [unfolded user_buffer_def]
  have o: "unat (PGOFF va) + 510 < 4096" using u by linarith
  have "buf_page m d i va" using u by simp
  then have p: "buf_page (m\<lparr>vm := (vm m)\<lparr>kmem := k\<rparr>\<rparr>) d i va" "view k d = view (kmem (vm m)) d"
    using page_bytes [of m d i va 510 k] o k by blast+
  let ?s = "(vm m)\<lparr>kmem := k\<rparr>"
  have "same_tasks m (m\<lparr>vm := ?s\<rparr>)" by simp
  moreover have "kernel_ok m" using u by simp
  ultimately have "kernel_ok (m\<lparr>vm := ?s\<rparr>)" by (rule same_tasks_kernel)
  moreover have "alloc_inv ?s fl" using u by simp
  moreover have "dir_ok ?s d fl"
    using dir_inv_cong [where pv = "view (kmem (vm m))" and pv' = "view k", OF p(2)] u by simp
  ultimately show ?thesis using u p(1) unfolding user_buffer_def by simp
qed

lemma user_store16_ok:
  assumes u: "user_buffer m c fl d i va" and h: "buf_holds m i va xs" and n: "length xs < 255"
  shows "\<exists>m1. user_store16 (va + 2 * of_nat (length xs)) ch m = Inr m1 \<and> user_buffer m1 c fl d i va
     \<and> buf_holds m1 i va (xs @ [ch]) \<and> io m1 = io m"
proof -
  let ?n = "2 * length xs"
  let ?a = "frame_addr i va + of_nat ?n" and ?b = "frame_addr i va + of_nat (?n + 1)"
  let ?k1 = "(kmem (vm m))(?a := ucast ch)"
  let ?k2 = "?k1(?b := ucast (drop_bit 8 ch))"
  let ?m1 = "m\<lparr>vm := (vm m)\<lparr>kmem := ?k1\<rparr>\<rparr>" and ?m2 = "m\<lparr>vm := (vm m)\<lparr>kmem := ?k2\<rparr>\<rparr>"
  have lt: "?n < 510" "?n + 1 < 510" "?n < 512" "?n + 1 < 512" using n by linarith+
  have e: "va + 2 * of_nat (length xs) = va + of_nat ?n" "va + of_nat ?n + 1 = va + of_nat (?n + 1)" by simp_all
  have u1: "user_buffer ?m1 c fl d i va"
    by (rule user_buffer_kmem [OF u]) (use lt(1) in \<open>metis fun_upd_other\<close>)
  have u2: "user_buffer ?m2 c fl d i va"
    by (rule user_buffer_kmem [OF u]) (use lt(1,2) in \<open>metis fun_upd_other\<close>)
  have st: "user_store16 (va + 2 * of_nat (length xs)) ch m = Inr ?m2"
    using user_buffer_byte(3) [OF u lt(3), of "ucast ch"] user_buffer_byte(3) [OF u1 lt(4), of "ucast (drop_bit 8 ch)"]
    unfolding user_store16_def e by simp
  have ne: "frame_addr i va + of_nat p \<noteq> frame_addr i va + (of_nat q :: u32)" if "p \<noteq> q" "p < 512" "q < 512" for p q :: nat
  proof
    assume "frame_addr i va + of_nat p = frame_addr i va + (of_nat q :: u32)"
    then have "unat (of_nat p :: u32) = unat (of_nat q :: u32)" by simp
    then show False using that by (simp add: unat_of_nat)
  qed
  have "kmem (vm ?m2) (frame_addr i va + of_nat p) = char_bytes (xs @ [ch]) ! p" if pl: "p < 2 * length (xs @ [ch])" for p
  proof -
    have cb: "char_bytes (xs @ [ch]) = char_bytes xs @ [ucast ch, ucast (drop_bit 8 ch)]" by (simp add: char_bytes_def)
    consider "p < ?n" | "p = ?n" | "p = ?n + 1" using pl by fastforce
    then show ?thesis
    proof cases
      case 1
      then show ?thesis using h ne [of p ?n] ne [of p "?n + 1"] lt by (simp add: cb nth_append buf_holds_def del: of_nat_Suc of_nat_mult of_nat_add)
    next
      case 2
      then show ?thesis using ne [of ?n "?n + 1"] lt by (simp add: cb nth_append del: of_nat_Suc of_nat_mult of_nat_add)
    next
      case 3
      then show ?thesis by (simp add: cb nth_append)
    qed
  qed
  then show ?thesis using st u2 by (intro exI [of _ ?m2]) (simp add: buf_holds_def)
qed

text \<open>The kernel's check accepts every request for this buffer.\<close>

lemma user_buffer_check:
  assumes "user_buffer m c fl d i va" "n \<le> 255"
  shows "userCheck (pageDir (tasks m ! c)) va (of_nat n) PTE_U (vm m) = Some (Inr True)"
proof -
  note u = assms(1) [unfolded user_buffer_def]
  have vn: "unat (va + of_nat n) = unat va + n" by (rule unat_in_page) (use u assms(2) in \<open>simp add: unat_PGOFF\<close>)
  have acc: "accepts (vm m) d PTE_U va"
    using u UW_present UW_user by (simp add: accepts_def buf_page_def Let_def entry_def lookup_def)
  have "accepts (vm m) d PTE_U (va + page_off k)" if "unat va + 4096 * k < unat (va + of_nat n)" for k
  proof -
    have "k = 0" using that assms(2) unfolding vn by simp
    then show ?thesis using acc by (simp add: page_off_def)
  qed
  then show ?thesis using u userCheck_result [of "vm m" fl d] by simp
qed

lemma syscall_frame_fields:
  "trapType (syscall_frame n a1 a2 a3 a4 a5 f) = T_syscall" "eax (regs (syscall_frame n a1 a2 a3 a4 a5 f)) = num_code n"
  "edx (regs (syscall_frame n a1 a2 a3 a4 a5 f)) = a1" "ecx (regs (syscall_frame n a1 a2 a3 a4 a5 f)) = a2"
  "user_frame (syscall_frame n a1 a2 a3 a4 a5 f) = user_frame f" "user_frame (with_eax v f) = user_frame f"
  by (simp_all add: syscall_frame_def user_frame_def with_eax_def)

lemma user_trap_trap: "user_frame f \<Longrightarrow> user_trap va f m = trap False va f m"
  by (simp add: user_trap_def user_frame_def)

lemma user_buffer_saved:
  assumes u: "user_buffer m c fl d i va" and f: "user_frame f"
  shows "user_buffer ((saved c f m)\<lparr>io := x\<rparr>) c fl d i va"
proof -
  note u = u [unfolded user_buffer_def]
  have k: "kernel_ok m" "current m = Some c" using u by simp_all
  note t = kernel_ok_task [OF k]
  have "kernel_ok (saved c f m)" unfolding saved_def
    by (rule kernel_ok_current [OF k]) (use t f in \<open>simp_all add: can_be_current_def\<close>)
  moreover have "same_tasks (saved c f m) ((saved c f m)\<lparr>io := x\<rparr>)" by simp
  ultimately have "kernel_ok ((saved c f m)\<lparr>io := x\<rparr>)" by (rule same_tasks_kernel [rotated])
  then show ?thesis using u t unfolding user_buffer_def buf_page_def by (simp add: saved_def)
qed

lemma buffer_request:
  assumes u: "user_buffer m c fl d i va" and h: "buf_holds m i va xs" and n: "length xs \<le> 255" and f: "user_frame f"
  shows "\<exists>f1 m1. user_trap fa (syscall_frame putString va (of_nat (length xs)) 0 0 0 f) m = Some (Inr (Resume f1 m1))
     \<and> user_buffer m1 c fl d i va \<and> user_frame f1 \<and> io m1 = fold (\<lambda>ch. kput (ucast ch)) xs (io m)"
proof -
  let ?n = "of_nat (length xs) :: u32" and ?tf = "syscall_frame putString va (of_nat (length xs)) 0 0 0 f"
  have k: "kernel_ok m" "current m = Some c" using u by (simp_all add: user_buffer_def)
  have us: "user_buffer (saved c ?tf m) c fl d i va"
    using user_buffer_saved [OF u, of ?tf "io m"] f by (simp add: syscall_frame_fields saved_def set_task_def)
  have hs: "buf_holds (saved c ?tf m) i va xs" using h by (simp add: buf_holds_def saved_def)
  have un: "unat ?n = length xs" using n by simp
  have ch: "readable (saved c ?tf m) (va + 2 * of_nat k) \<and> readable (saved c ?tf m) (va + 2 * of_nat k + 1)
     \<and> char16 (saved c ?tf m) (va + 2 * of_nat k) = xs ! k" if "k < length xs" for k
    by (rule user_buffer_chars [OF us hs that n])
  let ?x = "fold (\<lambda>ch. kput (ucast ch)) xs (io m)"
  have "fold (\<lambda>k. kput (ucast (char16 (saved c ?tf m) (va + 2 * of_nat k)))) [0..<length xs] (io m) = ?x"
  proof -
    have "fold (\<lambda>k. kput (ucast (char16 (saved c ?tf m) (va + 2 * of_nat k)))) [0..<length xs] (io m)
        = fold (\<lambda>k. kput (ucast (xs ! k))) [0..<length xs] (io m)"
      by (rule fold_cong) (use ch in auto)
    also have "\<dots> = fold (\<lambda>ch. kput (ucast ch)) (map ((!) xs) [0..<length xs]) (io m)" by (simp add: fold_map comp_def)
    finally show ?thesis by (simp add: map_nth)
  qed
  then have "putString_loop va (unat ?n) (saved c ?tf m) = Inr ((saved c ?tf m)\<lparr>io := ?x\<rparr>)"
    unfolding un putString_loop_result using ch by (simp add: saved_def)
  moreover have "userCheck (pageDir (tasks (saved c ?tf m) ! c)) va ?n PTE_U (vm (saved c ?tf m)) = Some (Inr True)"
    by (rule user_buffer_check [OF us n])
  moreover have "task_at c (saved c ?tf m) = Inr (tasks (saved c ?tf m) ! c)" "current (saved c ?tf m) = Some c"
    using us kernel_ok_task [of "saved c ?tf m" c] by (simp_all add: user_buffer_def task_at_def)
  ultimately have s: "ksyscall_main (eax (regs ?tf)) (edx (regs ?tf)) (ecx (regs ?tf)) (saved c ?tf m)
      = Some (Inr (Return 0 ((saved c ?tf m)\<lparr>io := ?x\<rparr>)))"
    by (simp add: syscall_frame_fields ksyscall_main_def sys_putString_def task_at_def)
  have uf: "user_frame ?tf" using f by (simp add: syscall_frame_fields)
  have "user_trap fa ?tf m = Some (Inr (Resume (with_eax 0 ?tf) ((saved c (with_eax 0 ?tf) m)\<lparr>io := ?x\<rparr>)))"
    unfolding user_trap_trap [OF uf] by (rule syscall_trap [OF k uf syscall_frame_fields(1) s])
  moreover have "user_buffer ((saved c (with_eax 0 ?tf) m)\<lparr>io := ?x\<rparr>) c fl d i va"
    by (rule user_buffer_saved [OF u]) (use f in \<open>simp add: syscall_frame_fields\<close>)
  ultimately show ?thesis using f by (simp add: syscall_frame_fields)
qed

section \<open>The print in progress\<close>

text \<open>
  The characters \<open>done\<close> are on the console, the characters \<open>pend\<close> are in the buffer.
\<close>

definition live_ok :: "nat \<Rightarrow> nat list \<Rightarrow> nat \<Rightarrow> nat \<Rightarrow> u32 \<Rightarrow> kio \<Rightarrow> u16 list \<Rightarrow> u16 list \<Rightarrow> u32 \<Rightarrow> uprint \<Rightarrow> bool" where
  "live_ok c fl d i va io0 shown pend n s \<longleftrightarrow> (\<exists>f m. s = Live (length pend) n f m \<and> user_buffer m c fl d i va
     \<and> buf_holds m i va pend \<and> length pend < 255 \<and> user_frame f \<and> io m = fold (\<lambda>ch. kput (ucast ch)) shown io0)"


lemma live_flush:
  assumes "live_ok c fl d i va io0 shown pend n s"
  shows "live_ok c fl d i va io0 (shown @ pend) [] n (mflush va s)"
proof -
  obtain f m where s: "s = Live (length pend) n f m" "user_buffer m c fl d i va" "buf_holds m i va pend" "length pend \<le> 255"
      "user_frame f" "io m = fold (\<lambda>ch. kput (ucast ch)) shown io0" using assms by (auto simp: live_ok_def)
  show ?thesis
  proof (cases "pend = []")
    case True
    then show ?thesis using assms s(1) by (simp add: mflush_def)
  next
    case False
    obtain f1 m1 where "user_trap 0 (syscall_frame putString va (of_nat (length pend)) 0 0 0 f) m = Some (Inr (Resume f1 m1))"
        "user_buffer m1 c fl d i va" "user_frame f1" "io m1 = fold (\<lambda>ch. kput (ucast ch)) pend (io m)"
      using buffer_request [OF s(2-5)] by blast
    then show ?thesis using s(1,6) False by (simp add: mflush_def live_ok_def buf_holds_def)
  qed
qed

lemma live_flush_full:
  assumes u: "user_buffer m c fl d i va" "buf_holds m i va pend" "length pend = 255" "user_frame f"
    "io m = fold (\<lambda>ch. kput (ucast ch)) shown io0"
  shows "live_ok c fl d i va io0 (shown @ pend) [] n (mflush va (Live (length pend) n f m))"
proof -
  obtain f1 m1 where "user_trap 0 (syscall_frame putString va (of_nat (length pend)) 0 0 0 f) m = Some (Inr (Resume f1 m1))"
      "user_buffer m1 c fl d i va" "user_frame f1" "io m1 = fold (\<lambda>ch. kput (ucast ch)) pend (io m)"
    using buffer_request [OF u(1,2) _ u(4)] u(3) by (metis order_refl)
  then show ?thesis using u(3,5) by (simp add: mflush_def live_ok_def buf_holds_def)
qed

lemma live_put:
  assumes l: "live_ok c fl d i va io0 shown pend n s"
  shows "\<exists>shown' pend'. shown' @ pend' = shown @ pend @ sent_char ch
     \<and> live_ok c fl d i va io0 shown' pend' (n + of_nat (length (sent_char ch))) (mputChar va ch s)"
proof (cases "ch AND 0xff = 0")
  case True
  then show ?thesis using l by (intro exI [of _ shown] exI [of _ pend]) (auto simp: sent_char_def mputChar_def live_ok_def)
next
  case False
  obtain f m where s: "s = Live (length pend) n f m" "user_buffer m c fl d i va" "buf_holds m i va pend" "length pend < 255"
      "user_frame f" "io m = fold (\<lambda>ch. kput (ucast ch)) shown io0" using l by (auto simp: live_ok_def)
  obtain m1 where m1: "user_store16 (va + 2 * of_nat (length pend)) (ucast ch) m = Inr m1" "user_buffer m1 c fl d i va"
      "buf_holds m1 i va (pend @ [ucast ch])" "io m1 = io m"
    using user_store16_ok [OF s(2-4)] by blast
  have u: "(ucast (ch AND 0xffff) :: u16) = ucast ch" by (rule low_char)
  let ?p = "pend @ [ucast ch]"
  show ?thesis
  proof (cases "length pend + 1 = 255")
    case True
    have "live_ok c fl d i va io0 (shown @ ?p) [] n (mflush va (Live (length ?p) n f m1))"
      by (rule live_flush_full) (use m1 s True in simp_all)
    then obtain f2 m2 where fl: "mflush va (Live (length pend + 1) n f m1) = Live 0 n f2 m2" "user_buffer m2 c fl d i va" "user_frame f2"
        "io m2 = fold (\<lambda>ch. kput (ucast ch)) (shown @ ?p) io0" by (auto simp: live_ok_def)
    then have "mputChar va ch s = Live 0 (n + 1) f2 m2" using False m1(1) True by (simp add: mputChar_def s(1) u pb_maxCount_def)
    then show ?thesis using fl False by (intro exI [of _ "shown @ ?p"] exI [of _ "[]"]) (simp add: sent_char_def live_ok_def buf_holds_def)
  next
    case ne: False
    then have "mputChar va ch s = Live (length ?p) (n + 1) f m1" using False m1(1) by (simp add: mputChar_def s(1) u pb_maxCount_def)
    then show ?thesis using m1 s ne False by (intro exI [of _ shown] exI [of _ ?p]) (simp add: sent_char_def live_ok_def)
  qed
qed

lemma live_feed:
  "live_ok c fl d i va io0 shown pend n s \<Longrightarrow> \<exists>shown' pend'. shown' @ pend' = shown @ pend @ concat (map sent_char chs)
     \<and> live_ok c fl d i va io0 shown' pend' (n + of_nat (length (concat (map sent_char chs)))) (feed (mputChar va) chs s)"
proof (induction chs arbitrary: shown pend n s)
  case (Cons ch chs)
  obtain sh1 p1 where 1: "sh1 @ p1 = shown @ pend @ sent_char ch"
      "live_ok c fl d i va io0 sh1 p1 (n + of_nat (length (sent_char ch))) (mputChar va ch s)"
    using live_put [OF Cons.prems] by blast
  from Cons.IH [OF 1(2)] obtain sh2 p2 where 2: "sh2 @ p2 = sh1 @ p1 @ concat (map sent_char chs)"
      "live_ok c fl d i va io0 sh2 p2 (n + of_nat (length (sent_char ch)) + of_nat (length (concat (map sent_char chs))))
        (feed (mputChar va) chs (mputChar va ch s))"
    by blast
  have "sh2 @ p2 = shown @ pend @ concat (map sent_char (ch # chs))" using 1(1) 2(1) by (metis append.assoc concat.simps(2) list.simps(9))
  moreover have "n + of_nat (length (sent_char ch)) + of_nat (length (concat (map sent_char chs)))
      = n + of_nat (length (concat (map sent_char (ch # chs))))" by (simp add: add.assoc)
  ultimately show ?case using 2(2) by (metis feed_simps(2))
qed auto

section \<open>Properties\<close>

lemma serial_bytes_char: "serial_bytes (ucast (ucast ch :: u16)) = serial_bytes ch"
proof -
  have "(ucast (ucast ch :: u16) :: u32) AND 0xff = ch AND 0xff"
  proof -
    have m: "(0xff :: u32) = mask 8" by (simp add: mask_eq_exp_minus_1)
    show ?thesis unfolding m by (rule bit_word_eqI) (auto simp: bit_simps)
  qed
  moreover have "(ucast (ucast (ucast ch :: u16) :: u32) :: u8) = ucast ch" by (rule bit_word_eqI) (auto simp: bit_simps)
  ultimately show ?thesis by (simp add: serial_bytes_def)
qed

lemma kput_serial:
  "devices_ok (snd (snd s)) \<Longrightarrow> devices_ok (snd (snd (fold (\<lambda>ch. kput (ucast ch)) (map (ucast :: u32 \<Rightarrow> u16) chs) s)))
     \<and> serial_log (snd (snd (fold (\<lambda>ch. kput (ucast ch)) (map (ucast :: u32 \<Rightarrow> u16) chs) s)))
       = serial_log (snd (snd s)) @ concat (map serial_bytes chs)"
proof (induction chs arbitrary: s)
  case (Cons ch chs)
  have k: "snd (snd (kput (ucast (ucast ch :: u16)) s)) = kputChar (ucast (ucast ch :: u16)) (snd (snd s))" by (simp add: kput_def)
  have "devices_ok (snd (snd (kput (ucast (ucast ch :: u16)) s)))"
      "serial_log (snd (snd (kput (ucast (ucast ch :: u16)) s))) = serial_log (snd (snd s)) @ serial_bytes ch"
    unfolding k using kputChar_devices [OF Cons.prems, of "ucast (ucast ch :: u16)"] by (simp_all add: serial_bytes_char)
  then show ?case using Cons.IH [of "kput (ucast (ucast ch :: u16)) s"] by simp
qed simp

text \<open>The print as a whole.\<close>

lemma mprint_ok:
  assumes "cstr k fmt xs" "wf_fmt xs" "user_buffer m c fl d i va" "user_frame f" "devices_ok (snd (snd (io m)))"
  shows "\<exists>chs f1 m1. rendered k fmt ap DEF_FORE DEF_BACK = Some chs
     \<and> mprintVa va k fmt ap f m = Some (Live 0 (of_nat (printed chs)) f1 m1)
     \<and> io m1 = fold (\<lambda>ch. kput (ucast ch)) (map (ucast :: u32 \<Rightarrow> u16) (filter (\<lambda>ch. ch AND 0xff \<noteq> 0) chs)) (io m)
     \<and> serial_log (snd (snd (io m1))) = serial_log (snd (snd (io m))) @ concat (map serial_bytes (filter (\<lambda>ch. ch AND 0xff \<noteq> 0) chs))
     \<and> user_buffer m1 c fl d i va \<and> user_frame f1"
proof -
  obtain s where s: "printFmtVa (mputChar va) k fmt ap DEF_FORE DEF_BACK (Live 0 0 f m) = Some s"
    using printFmt_loop_total [OF assms(1,2), of "mputChar va"] unfolding printFmtVa_def by fast
  then obtain chs where chs: "rendered k fmt ap DEF_FORE DEF_BACK = Some chs" "s = feed (mputChar va) chs (Live 0 0 f m)"
    by (auto simp: printFmtVa_feed)
  let ?sent = "filter (\<lambda>ch. ch AND 0xff \<noteq> 0) chs"
  have e: "concat (map sent_char chs) = map ucast ?sent" by (induction chs) (simp_all add: sent_char_def)
  have "live_ok c fl d i va (io m) [] [] 0 (Live 0 0 f m)" using assms(3,4) by (simp add: live_ok_def buf_holds_def)
  from live_feed [OF this, of chs] obtain sh p where l: "sh @ p = map ucast ?sent"
      "live_ok c fl d i va (io m) sh p (of_nat (printed chs)) s" by (auto simp: e chs(2) printed_def)
  obtain f1 m1 where m1: "mflush va s = Live 0 (of_nat (printed chs)) f1 m1" "user_buffer m1 c fl d i va" "user_frame f1"
      "io m1 = fold (\<lambda>ch. kput (ucast ch)) (map (ucast :: u32 \<Rightarrow> u16) ?sent) (io m)"
    using live_flush [OF l(2)] unfolding l(1) by (auto simp: live_ok_def)
  have "mprintVa va k fmt ap f m = Some (Live 0 (of_nat (printed chs)) f1 m1)" using s m1(1) by (simp add: mprintVa_def)
  then show ?thesis using chs(1) m1(2,3) kput_serial [OF assms(5), of ?sent] unfolding m1(4) [symmetric]
    by (intro exI [of _ chs] exI [of _ f1] exI [of _ m1]) (simp add: m1(4))
qed

text \<open>
  C31: The user's \<open>print\<close> from the format string to the serial line. For a format with complete directives
  and a buffer on a writable page of the running task, \<open>printVa\<close> returns the number of characters with
  a non-zero code: every store to the buffer succeeds, the kernel's check accepts every request and the
  task comes back from every trap. The console has then received exactly these characters, in order and
  once each, and the serial line has transmitted them.
\<close>

theorem user_print_reaches_console:
  assumes "cstr k fmt xs" "wf_fmt xs" "user_buffer m c fl d i va" "user_frame f" "devices_ok (snd (snd (io m)))"
  shows "\<exists>chs f1 m1. rendered k fmt ap DEF_FORE DEF_BACK = Some chs
     \<and> mprintVa va k fmt ap f m = Some (Live 0 (of_nat (printed chs)) f1 m1)
     \<and> io m1 = fold (\<lambda>ch. kput (ucast ch)) (map (ucast :: u32 \<Rightarrow> u16) (filter (\<lambda>ch. ch AND 0xff \<noteq> 0) chs)) (io m)
     \<and> serial_log (snd (snd (io m1))) = serial_log (snd (snd (io m))) @ concat (map serial_bytes (filter (\<lambda>ch. ch AND 0xff \<noteq> 0) chs))
     \<and> user_buffer m1 c fl d i va \<and> user_frame f1"
  by (rule mprint_ok [OF assms])

text \<open>Page 2 mapped at 8 MB, writable for the user.\<close>

definition user_vm :: vmem where
  "user_vm = small_vm\<lparr>kmem := store32 (store32 (\<lambda>_. 0) (slot 1 2) 7) (slot 0 0) 0x2007,
     pages := (pages small_vm)[2 := \<lparr>nextFree = None, refCount = 1\<rparr>]\<rparr>"

lemma user_vm_buffer: "user_buffer (one_task user_vm (toPhy 1 + KERNBASE)) 0 [3, 4, 5, 6, 7] 1 2 0x800000"
proof -
  have v: "view (kmem user_vm) = put (put (\<lambda>_ _. 0) 1 2 7) 0 0 0x2007" by (simp add: user_vm_def view_store)
  have p: "pn 0x2007 = 2" "present 0x2007" by (simp_all add: pn_def unat_PTE_ADDR unat_PGNUM PTE_P_def)
  have n: "nPages user_vm = 8" by (simp add: user_vm_def small_vm_def)
  have inv: "alloc_inv user_vm [3, 4, 5, 6, 7]" by (simp add: alloc_inv_def user_vm_def small_vm_def All_less_Suc)
  have dir: "dir_ok user_vm 1 [3, 4, 5, 6, 7]" by (auto simp: dir_inv_def put_apply v n p)
  have ix: "unat (PDX 0x800000) = 2" "unat (PTX 0x800000) = 0" by (simp_all add: unat_PDX unat_PTX)
  have "(7 :: u32) AND UW = UW" "(0x2007 :: u32) AND UW = UW" by (simp_all add: PTE_P_def PTE_U_def PTE_W_def)
  then have "buf_page (one_task user_vm (toPhy 1 + KERNBASE)) 1 2 0x800000"
    using p by (simp add: buf_page_def v ix put_apply)
  moreover have "(0x800000 :: u32) < ULIM" "unat (PGOFF 0x800000) + 512 \<le> 4096"
    by (simp_all add: mmu_consts unat_PGOFF)
  ultimately show ?thesis using inv dir one_task_ok [of user_vm "toPhy 1 + KERNBASE"] by (simp add: user_buffer_def)
qed

theorem user_print_reaches_console_witness:
  "\<exists>chs f1 m1. rendered demo_fmt 0x100 0x500 DEF_FORE DEF_BACK = Some chs
     \<and> mprintVa 0x800000 demo_fmt 0x100 0x500 new_frame (one_task user_vm (toPhy 1 + KERNBASE)) = Some (Live 0 (of_nat (printed chs)) f1 m1)
     \<and> serial_log (snd (snd (io m1))) = serial_log (snd (snd typed_line)) @ concat (map serial_bytes (filter (\<lambda>ch. ch AND 0xff \<noteq> 0) chs))"
proof -
  have d: "devices_ok (snd (snd (io (one_task user_vm (toPhy 1 + KERNBASE)))))"
    using fresh_console_ok by (simp add: typed_line_def)
  show ?thesis
    using user_print_reaches_console [OF demo_fmt_cstr _ user_vm_buffer new_frame_user d, of "0x500"] by (force simp: isDigit_def)
qed

end
