(* ===== verification/UserInput.thy ===== *)
theory UserInput
  imports UserConsole
begin

text \<open>
  The user's line input over system calls: \<open>getChar\<close> and \<open>putChar\<close> of \<open>user/lib/readline.cc\<close> and
  \<open>user/lib/printf.cc\<close> as traps of the running task, and the library's loop on top of them.
\<close>

text \<open>A task in user code, or the trap from which it has not come back.\<close>

datatype utask = Runs Frame machine | Left "trap_end outcome option"

definition usyscall :: "Num \<Rightarrow> u32 \<Rightarrow> utask \<Rightarrow> utask" where
  "usyscall n a1 s = (case s of Left r \<Rightarrow> Left r
     | Runs f m \<Rightarrow> (case user_trap 0 (syscall_frame n a1 0 0 0 0 f) m of
         Some (Inr (Resume f1 m1)) \<Rightarrow> Runs f1 m1
       | r \<Rightarrow> Left r))"

definition uputChar :: "u32 \<Rightarrow> utask \<Rightarrow> utask" where
  "uputChar c s = usyscall putChar c s"

text \<open>The result of the call is returned as a \<open>char\<close>.\<close>

definition ugetChar :: "utask \<Rightarrow> (u32 \<times> utask) option" where
  "ugetChar s = (case usyscall getChar 0 s of Left r \<Rightarrow> None | Runs f m \<Rightarrow> Some (ucast (ucast (eax (regs f)) :: u8), Runs f m))"

definition ureadline :: "u8 list \<Rightarrow> utask \<Rightarrow> (u8 list \<times> utask) option" where
  "ureadline buf s = ureadline_loop ugetChar uputChar buf 0 s"

text \<open>\<open>readlineVa\<close> with its prompt (0 for a null format), printed through the buffer at \<open>pb\<close>.\<close>

definition ureadlineVa :: "u32 \<Rightarrow> u8 list \<Rightarrow> mem \<Rightarrow> u32 \<Rightarrow> u32 \<Rightarrow> Frame \<Rightarrow> machine \<Rightarrow> (u8 list \<times> utask) option" where
  "ureadlineVa pb buf k promptFmt ap f m =
     (if promptFmt \<noteq> 0 then
        (case mprintVa pb k promptFmt ap f m of None \<Rightarrow> None
         | Some (Trapped r) \<Rightarrow> ureadline buf (Left r)
         | Some (Live idx count f1 m1) \<Rightarrow> ureadline buf (Runs f1 m1))
      else ureadline buf (Runs f m))"

section \<open>The system calls as a terminal\<close>

definition utask_ok :: "nat \<Rightarrow> utask \<Rightarrow> bool" where
  "utask_ok c s \<longleftrightarrow> (\<exists>f m. s = Runs f m \<and> kernel_ok m \<and> current m = Some c \<and> user_frame f \<and> kio_ok (io m))"

definition utask_io :: "utask \<Rightarrow> kio" where
  "utask_io s = (case s of Runs f m \<Rightarrow> io m | Left r \<Rightarrow> undefined)"

text \<open>The kernel does not write a character with code zero.\<close>

definition echoed :: "u32 \<Rightarrow> u8 list" where
  "echoed c = (if c AND 0xff \<noteq> 0 then serial_bytes c else [])"

lemma kernel_ok_saved:
  assumes "kernel_ok m" "current m = Some c" "user_frame f"
  shows "kernel_ok ((saved c f m)\<lparr>io := x\<rparr>) \<and> current ((saved c f m)\<lparr>io := x\<rparr>) = Some c"
proof -
  note t = kernel_ok_task [OF assms(1,2)]
  have "kernel_ok (saved c f m)" unfolding saved_def
    by (rule kernel_ok_current [OF assms(1,2)]) (use t assms(3) in \<open>simp_all add: can_be_current_def\<close>)
  moreover have "same_tasks (saved c f m) ((saved c f m)\<lparr>io := x\<rparr>)" by simp
  ultimately have "kernel_ok ((saved c f m)\<lparr>io := x\<rparr>)" by (rule same_tasks_kernel [rotated])
  then show ?thesis using assms(2) by (simp add: saved_def)
qed

text \<open>A call that only changes the console: the task goes on with the result in \<open>eax\<close>.\<close>

lemma usyscall_io:
  assumes m: "kernel_ok m" "current m = Some c" "user_frame f"
    and s: "\<And>m'. io m' = io m \<Longrightarrow> ksyscall_main (num_code n) a1 0 m' = Some (Inr (Return v (m'\<lparr>io := x\<rparr>)))" and x: "kio_ok x"
  shows "\<exists>f1 m1. usyscall n a1 (Runs f m) = Runs f1 m1 \<and> eax (regs f1) = v \<and> utask_ok c (Runs f1 m1) \<and> io m1 = x"
proof -
  let ?tf = "syscall_frame n a1 0 0 0 0 f"
  have uf: "user_frame ?tf" using m(3) by (simp add: syscall_frame_fields)
  have k: "ksyscall_main (eax (regs ?tf)) (edx (regs ?tf)) (ecx (regs ?tf)) (saved c ?tf m) = Some (Inr (Return v ((saved c ?tf m)\<lparr>io := x\<rparr>)))"
    unfolding syscall_frame_fields by (rule s) (simp add: saved_def)
  have "user_trap 0 ?tf m = Some (Inr (Resume (with_eax v ?tf) ((saved c (with_eax v ?tf) m)\<lparr>io := x\<rparr>)))"
    unfolding user_trap_trap [OF uf] by (rule syscall_trap [OF m(1,2) uf syscall_frame_fields(1) k])
  moreover have "user_frame (with_eax v ?tf)" using uf by (simp add: syscall_frame_fields)
  ultimately show ?thesis
    using kernel_ok_saved [OF m(1,2), of "with_eax v ?tf" x] x by (simp add: usyscall_def utask_ok_def with_eax_def)
qed

lemma uputChar_ok:
  assumes "utask_ok c s"
  shows "utask_ok c (uputChar ch s) \<and> utask_io (uputChar ch s) = (if ch AND 0xff \<noteq> 0 then kput ch (utask_io s) else utask_io s)"
proof -
  obtain f m where s: "s = Runs f m" "kernel_ok m" "current m = Some c" "user_frame f" "kio_ok (io m)"
    using assms by (auto simp: utask_ok_def)
  let ?x = "if ch AND 0xff \<noteq> 0 then kput ch (io m) else io m"
  have x: "kio_ok ?x" using kterm.good_put [OF s(5)] s(5) by simp
  have "ksyscall_main (num_code putChar) ch 0 m' = Some (Inr (Return 0 (m'\<lparr>io := ?x\<rparr>)))" if "io m' = io m" for m'
  proof -
    have "m'\<lparr>io := io m\<rparr> = m'" using that [symmetric] by simp
    then show ?thesis using that by (simp add: ksyscall_main_def sys_putChar_def out_putChar_def)
  qed
  from usyscall_io [OF s(2-4) this x] show ?thesis unfolding uputChar_def s(1) by (auto simp: utask_io_def)
qed

lemma ugetChar_ok:
  assumes "utask_ok c s" "kstream (utask_io s) = ch # chs"
  shows "\<exists>s'. ugetChar s = Some (ucast ch, s') \<and> utask_ok c s' \<and> kstream (utask_io s') = chs
    \<and> snd (snd (utask_io s')) = snd (snd (utask_io s))"
proof -
  obtain f m where s: "s = Runs f m" "kernel_ok m" "current m = Some c" "user_frame f" "kio_ok (io m)"
    using assms(1) by (auto simp: utask_ok_def)
  obtain x where x: "kget (io m) = Some (ucast ch, x)" "kio_ok x" "kstream x = chs" "snd (snd x) = snd (snd (io m))"
    using kget_next [OF s(5)] assms(2) s(1) by (auto simp: utask_io_def)
  have b: "(ucast (word_of_int (as_char (ucast ch)) :: u32) :: u8) = ch"
    by (simp add: as_char_def ucast_back8 flip: scast_eq) (rule bit_word_eqI, auto simp: bit_simps)
  have "ksyscall_main (num_code getChar) 0 0 m' = Some (Inr (Return (word_of_int (as_char (ucast ch))) (m'\<lparr>io := x\<rparr>)))"
    if "io m' = io m" for m'
    using x(1) that by (simp add: ksyscall_main_def sys_getChar_def)
  from usyscall_io [OF s(2-4) this x(2)] obtain f1 m1 where
    "usyscall getChar 0 s = Runs f1 m1" "eax (regs f1) = word_of_int (as_char (ucast ch))" "utask_ok c (Runs f1 m1)" "io m1 = x"
    unfolding s(1) by blast
  then show ?thesis using b x(3,4) s(1) by (simp add: ugetChar_def utask_io_def)
qed

interpretation uterm: line_terminal uputChar "utask_ok c" "\<lambda>s. serial_log (snd (snd (utask_io s)))" echoed ugetChar
    "\<lambda>s. kstream (utask_io s)" for c
proof
  fix s ch chs
  assume ok: "utask_ok c s"
  then obtain f m where s: "s = Runs f m" "kio_ok (io m)" by (auto simp: utask_ok_def)
  have d: "devices_ok (snd (snd (utask_io s)))" using s by (simp add: utask_io_def kio_ok_def)
  show "utask_ok c (uputChar ch s)" using uputChar_ok [OF ok] by blast
  show "serial_log (snd (snd (utask_io (uputChar ch s)))) = serial_log (snd (snd (utask_io s))) @ echoed ch"
    using uputChar_ok [OF ok, of ch] kputChar_devices [OF d, of ch] by (simp add: echoed_def kput_def)
  show "kstream (utask_io (uputChar ch s)) = kstream (utask_io s)"
    using uputChar_ok [OF ok, of ch] by (simp add: kput_def kstream_def)
next
  fix s ch chs
  assume "utask_ok c s" "kstream (utask_io s) = ch # chs"
  from ugetChar_ok [OF this] show "\<exists>s'. ugetChar s = Some (ucast ch, s') \<and> utask_ok c s' \<and> kstream (utask_io s') = chs
      \<and> serial_log (snd (snd (utask_io s'))) = serial_log (snd (snd (utask_io s)))" by auto
qed

section \<open>Properties\<close>

lemma edit_echo:
  "edit line chs = Some (res, ech, rest) \<Longrightarrow> concat (map echoed ech) = concat (map serial_bytes ech)"
proof (induction line chs arbitrary: ech rule: edit.induct)
  case (2 line c chs)
  have nz: "(ucast c :: u32) AND 0xff \<noteq> 0" if "isSimpleChar (sint c) \<or> c = 8"
  proof
    assume z: "(ucast c :: u32) AND 0xff = 0"
    have "(ucast c :: u32) AND 0xff = ucast c"
    proof -
      have m: "(0xff :: u32) = mask 8" by (simp add: mask_eq_exp_minus_1)
      show ?thesis unfolding m by (rule bit_word_eqI) (auto simp: bit_simps dest: bit_imp_le_length)
    qed
    then have "c = 0" using z ucast_back8 [of c] by simp
    then show False using that by (simp add: isSimpleChar_def)
  qed
  show ?case
    using 2 nz by (auto simp: echoed_def split: if_splits)
qed simp

text \<open>The loop as a whole.\<close>

lemma user_readline_line:
  assumes "kernel_ok m" "current m = Some c" "user_frame f" "kio_ok (io m)"
    and "\<forall>ch\<in>set (kstream (io m)). 0 \<le> sint ch" "edit [] (kstream (io m)) = Some (line, ech, rest)"
    and "length buf = READLINE_BUF_SIZE"
  shows "\<exists>buf' f' m'. ureadline buf (Runs f m) = Some (buf', Runs f' m')
     \<and> length line < READLINE_BUF_SIZE \<and> take (length line + 1) buf' = line @ [0] \<and> length buf' = length buf
     \<and> kstream (io m') = rest \<and> serial_log (snd (snd (io m'))) = serial_log (snd (snd (io m))) @ concat (map serial_bytes ech)
     \<and> kernel_ok m' \<and> current m' = Some c \<and> user_frame f'"
proof -
  have h: "holds buf []" using assms(7) by (simp add: holds_def READLINE_BUF_SIZE_def)
  have ok: "utask_ok c (Runs f m)" using assms(1-4) by (simp add: utask_ok_def)
  have s: "kstream (utask_io (Runs f m)) = kstream (io m)" by (simp add: utask_io_def)
  obtain buf' s' where k: "kreadline_loop ugetChar uputChar buf 0 (Runs f m) = Some (Inr (buf', s'))" "holds buf' line"
      "buf' ! length line = 0" "utask_ok c s'" "kstream (utask_io s') = rest"
      "serial_log (snd (snd (utask_io s'))) = serial_log (snd (snd (utask_io (Runs f m)))) @ concat (map echoed ech)"
    using uterm.kreadline_edit [OF ok s assms(6,5) h] by auto
  obtain f' m' where s': "s' = Runs f' m'" "kernel_ok m'" "current m' = Some c" "user_frame f'" using k(4) by (auto simp: utask_ok_def)
  have "ureadline buf (Runs f m) = Some (buf', Runs f' m')" using ureadline_agrees [OF k(1)] s'(1) by (simp add: ureadline_def)
  then show ?thesis using k(2,3,5,6) s' edit_echo [OF assms(6)] assms(7)
    by (auto simp: utask_io_def holds_def READLINE_BUF_SIZE_def take_Suc_conv_app_nth)
qed

lemma kput_stream: "kio_ok s \<Longrightarrow> kio_ok (fold (\<lambda>ch. kput (ucast ch)) xs s) \<and> kstream (fold (\<lambda>ch. kput (ucast ch)) xs s) = kstream s"
  for xs :: "u16 list"
proof (induction xs arbitrary: s)
  case (Cons x xs)
  show ?case
    using Cons.IH [of "kput (ucast x) s"] kterm.good_put [OF Cons.prems] kterm.put_stream [OF Cons.prems, of "ucast x"] by simp
qed simp

text \<open>
  C32: Asking the user for a line. When the prompt is a format with complete directives, the buffer for
  output lies on a writable page of the running task, and the pending keystrokes decode to 7-bit
  characters that contain a line end, the library's \<open>readlineVa\<close> returns to the same task, after system
  calls for the prompt, for every character read and for every character echoed: the serial line has
  transmitted the prompt and then every keystroke of the line, the line's buffer holds the edited line,
  terminated inside its 4096 bytes, and the characters after the line end are left in the keyboard.
\<close>

theorem user_asks_line:
  assumes "cstr k fmt xs" "wf_fmt xs" "fmt \<noteq> 0" "user_buffer m c fl d i va" "user_frame f" "kio_ok (io m)"
    and "\<forall>ch\<in>set (kstream (io m)). 0 \<le> sint ch" "edit [] (kstream (io m)) = Some (line, ech, rest)"
    and "length buf = READLINE_BUF_SIZE"
  shows "\<exists>chs buf' f' m'. rendered k fmt ap DEF_FORE DEF_BACK = Some chs
     \<and> ureadlineVa va buf k fmt ap f m = Some (buf', Runs f' m')
     \<and> length line < READLINE_BUF_SIZE \<and> take (length line + 1) buf' = line @ [0] \<and> length buf' = length buf
     \<and> kstream (io m') = rest
     \<and> serial_log (snd (snd (io m'))) = serial_log (snd (snd (io m)))
         @ concat (map serial_bytes (filter (\<lambda>ch. ch AND 0xff \<noteq> 0) chs)) @ concat (map serial_bytes ech)
     \<and> kernel_ok m' \<and> current m' = Some c \<and> user_frame f'"
proof -
  have dev: "devices_ok (snd (snd (io m)))" using assms(6) by (simp add: kio_ok_def)
  obtain chs f1 m1 where p: "rendered k fmt ap DEF_FORE DEF_BACK = Some chs"
      "mprintVa va k fmt ap f m = Some (Live 0 (of_nat (printed chs)) f1 m1)"
      "io m1 = fold (\<lambda>ch. kput (ucast ch)) (map (ucast :: u32 \<Rightarrow> u16) (filter (\<lambda>ch. ch AND 0xff \<noteq> 0) chs)) (io m)"
      "serial_log (snd (snd (io m1))) = serial_log (snd (snd (io m))) @ concat (map serial_bytes (filter (\<lambda>ch. ch AND 0xff \<noteq> 0) chs))"
      "user_buffer m1 c fl d i va" "user_frame f1"
    using mprint_ok [OF assms(1,2,4,5) dev] by blast
  have s: "kio_ok (io m1)" "kstream (io m1) = kstream (io m)" using kput_stream [OF assms(6)] unfolding p(3) by blast+
  have m1: "kernel_ok m1" "current m1 = Some c" using p(5) by (simp_all add: user_buffer_def)
  have "ureadlineVa va buf k fmt ap f m = ureadline buf (Runs f1 m1)" using assms(3) p(2) by (simp add: ureadlineVa_def)
  then show ?thesis
    using user_readline_line [OF m1 p(6) s(1), unfolded s(2), OF assms(7,8,9)] p(1,4) by simp
qed

theorem user_asks_line_witness:
  "\<exists>chs buf' f' m'. rendered demo_fmt 0x100 0x500 DEF_FORE DEF_BACK = Some chs
     \<and> ureadlineVa 0x800000 (replicate 4096 0) demo_fmt 0x100 0x500 new_frame (one_task user_vm (toPhy 1 + KERNBASE)) = Some (buf', Runs f' m')
     \<and> take 2 buf' = [97, 0] \<and> serial_log (snd (snd (io m'))) = serial_log (snd (snd typed_line))
         @ concat (map serial_bytes (filter (\<lambda>ch. ch AND 0xff \<noteq> 0) chs)) @ [98, 8, 32, 8, 97, 10]"
proof -
  let ?m = "one_task user_vm (toPhy 1 + KERNBASE)"
  have e: "edit [] (kstream (io ?m)) = Some ([97], [98, 8, 97, 10], [])"
    unfolding one_task_simps typed_line_stream by code_simp
  have n: "\<forall>c\<in>set (kstream (io ?m)). 0 \<le> sint c" by (simp add: typed_line_stream)
  have l: "length (replicate 4096 (0 :: u8)) = READLINE_BUF_SIZE" by (simp only: length_replicate READLINE_BUF_SIZE_def)
  have k: "kio_ok (io ?m)" using typed_line_ok by simp
  have w: "wf_fmt (bytes ''n='' @ [37, 100] @ bytes ''!'')" by (simp add: isDigit_def)
  have "concat (map serial_bytes [98, 8, 97, 10]) = [98, 8, 32, 8, 97, 10]" by (simp add: serial_bytes_def)
  moreover have "length [97 :: u8] + 1 = 2" by simp
  moreover have "(0x100 :: u32) \<noteq> 0" by simp
  ultimately show ?thesis
    using user_asks_line [OF demo_fmt_cstr w _ user_vm_buffer new_frame_user k n e l, of "0x500"]
    by (metis append_Cons append_Nil one_task_simps(5))
qed

end
