(* ===== verification/UserProgram.thy ===== *)
theory UserProgram
  imports UserConsole
begin

text \<open>
  What the user program \<open>user/hello.cc\<close> and its entry code ask of the kernel by system calls that end the
  task: the call of \<open>umain\<close> after \<open>main\<close> has returned, and the request of \<open>pageFault4\<close>, which passes an address
  of the kernel.
\<close>

definition umain_exit :: "Frame \<Rightarrow> Frame" where
  "umain_exit f = syscall_frame exit 0 0 0 0 0 f"

definition pageFault4 :: "Frame \<Rightarrow> Frame" where
  "pageFault4 f = syscall_frame putString (KERNBASE + 0x110000) 10 0 0 0 f"

text \<open>The check rejects every range that is not empty, does not wrap around and starts at or above \<open>ULIM\<close>.\<close>

lemma userCheck_above:
  assumes "alloc_inv s fl" "dir_ok s d fl" "ULIM \<le> va" "va < va + n"
  shows "userCheck (toPhy d + KERNBASE) va n perm s = Some (Inr False)"
proof -
  have "unat va + 4096 * 0 < unat (va + n)" using assms(4) by (simp add: word_less_nat_alt)
  moreover have "\<not> accepts s d perm (va + page_off 0)" using assms(3) by (simp add: accepts_def page_off_def not_less)
  ultimately have "\<not> (\<forall>k. unat va + 4096 * k < unat (va + n) \<longrightarrow> accepts s d perm (va + page_off k))" by blast
  then show ?thesis by (simp only: userCheck_result [OF assms(1,2)])
qed

text \<open>A system call that does not return to its task.\<close>

lemma syscall_monitor:
  assumes "kernel_ok m" "current m = Some c" "user_frame tf" "trapType tf = T_syscall"
    and "ksyscall_main (eax (regs tf)) (edx (regs tf)) (ecx (regs tf)) (saved c tf m) = Some (Inr (ToMonitor m'))"
  shows "user_trap va tf m = Some (Inr (Monitor NullFrame m'))"
proof -
  note t = kernel_ok_task [OF assms(1,2)]
  have "enter tf m = Inr (TaskFrame c, saved c tf m)"
    using assms t by (simp add: enter_def current_task_def Let_def user_frame_def saved_def)
  moreover have "T_syscall \<noteq> T_pageFault" by (simp add: T_syscall_def T_pageFault_def)
  ultimately show ?thesis
    unfolding user_trap_trap [OF assms(3)] using assms(4,5) by (simp add: trap_def dispatch_def syscall_def bindO_def)
qed

text \<open>The two system calls that do not return to their task.\<close>

lemma syscall_ends_task:
  assumes "kernel_ok m" "current m = Some c" "user_frame tf"
    and "pageDir (tasks m ! c) = toPhy d + KERNBASE" "owned_inv (vm m) d fl" "\<not> kernelPageDir (vm m) < KERNBASE"
    and "trapType tf = T_syscall"
    and "eax (regs tf) = num_code exit
      \<or> eax (regs tf) = num_code putString \<and> ULIM \<le> edx (regs tf) \<and> edx (regs tf) < edx (regs tf) + ecx (regs tf)"
  shows "\<exists>m' fl'. user_trap va tf m = Some (Inr (Monitor NullFrame m')) \<and> current m' = None
    \<and> cr3 m' = kernelPageDir (vm m) - KERNBASE \<and> io m' = io m
    \<and> freeTasks m' = Some c \<and> status (tasks m' ! c) = free \<and> nextTask (tasks m' ! c) = freeTasks m
    \<and> (\<forall>i. i \<noteq> c \<longrightarrow> tasks m' ! i = tasks m ! i)
    \<and> alloc_inv (vm m') fl' \<and> set fl' = set fl \<union> owned (vm m) d"
proof -
  note t = kernel_ok_task [OF assms(1,2)]
  define s where "s = saved c tf m"
  have s: "c < length (tasks s)" "current s = Some c" "pageDir (tasks s ! c) = toPhy d + KERNBASE" "vm s = vm m" "io s = io m"
    "freeTasks s = freeTasks m" "\<forall>i. i \<noteq> c \<longrightarrow> tasks s ! i = tasks m ! i"
    using assms(2,4) t by (simp_all add: s_def saved_def)
  have call: "\<exists>b g args. ksyscall_main (eax (regs tf)) (edx (regs tf)) (ecx (regs tf)) s
      = Some (bindE (destroy c b (if b then kprint g args s else s)) (\<lambda>m1. Inr (ToMonitor m1)))"
    using assms(8)
  proof (elim disjE conjE)
    assume "eax (regs tf) = num_code exit"
    then show ?thesis using s(2) by (intro exI [of _ False]) (simp add: ksyscall_main_def sys_exit_def)
  next
    assume a: "eax (regs tf) = num_code putString" "ULIM \<le> edx (regs tf)" "edx (regs tf) < edx (regs tf) + ecx (regs tf)"
    have "userCheck (toPhy d + KERNBASE) (edx (regs tf)) (ecx (regs tf)) PTE_U (vm s) = Some (Inr False)"
      unfolding s(4) by (rule userCheck_above [of _ fl, OF _ _ a(2,3)]) (use assms(5) in \<open>simp_all only: owned_inv_def\<close>)
    then have "\<exists>g args. ksyscall_main (eax (regs tf)) (edx (regs tf)) (ecx (regs tf)) s
        = Some (bindE (destroy c True (kprint g args s)) (\<lambda>m1. Inr (ToMonitor m1)))"
      using s(1-3) a(1) by (auto simp: ksyscall_main_def sys_putString_def task_at_def)
    then show ?thesis by (intro exI [of _ True]) simp
  qed
  have d: "\<exists>m' fl'. destroy c b (if b then kprint g args s else s) = Inr m' \<and> current m' = None
      \<and> cr3 m' = kernelPageDir (vm m) - KERNBASE \<and> io m' = io m
      \<and> freeTasks m' = Some c \<and> tasks m' = (tasks s)[c := (tasks s ! c)\<lparr>status := free, nextTask := freeTasks m\<rparr>]
      \<and> alloc_inv (vm m') fl' \<and> set fl' = set fl \<union> owned (vm m) d" for b g args
    using destroy_current [of c "if b then kprint g args s else s" d fl b] s assms(5,6) by (cases b) simp_all
  obtain m' fl' where m': "ksyscall_main (eax (regs tf)) (edx (regs tf)) (ecx (regs tf)) s = Some (Inr (ToMonitor m'))"
      "current m' = None" "cr3 m' = kernelPageDir (vm m) - KERNBASE" "io m' = io m" "freeTasks m' = Some c"
      "tasks m' = (tasks s)[c := (tasks s ! c)\<lparr>status := free, nextTask := freeTasks m\<rparr>]"
      "alloc_inv (vm m') fl'" "set fl' = set fl \<union> owned (vm m) d"
    using call d by force
  have "user_trap va tf m = Some (Inr (Monitor NullFrame m'))"
    by (rule syscall_monitor [OF assms(1-3,7) m'(1) [unfolded s_def]])
  then show ?thesis using m'(2-) s by (intro exI [of _ m'] exI [of _ fl']) simp
qed



end
