(* ===== verification/Spec2Isabelle.thy ===== *)
theory Spec2Isabelle
  imports Prelude ByteMem Mmu Results PageAlloc PageDir CString PrintFmt Strtol Keyboard Console Readline
    Elf TaskMem Task Syscall VmUtils Monitor Trap TaskTable System MonitorProps Mp UserPrint Boot
    VmInit VmBoot KernelInit Debug Entry UserConsole UserInput UserProgram
begin

text \<open>
  A model of the Litchi kernel, a 32-bit x86 teaching kernel in C++ (\<open>src/kernel\<close>, \<open>src/lib\<close>,
  \<open>src/include\<close>, \<open>src/user\<close>, \<open>src/boot\<close>), with its correctness theorems.

  \<^bold>\<open>The program.\<close> The kernel starts with one page directory, a console and a keyboard. It detects
  the memory, builds the array of page descriptors and the directory that maps all physical memory at
  \<open>KERNBASE\<close>, links the task table, installs the descriptor tables and enters the monitor, a command
  line. The command \<open>runtask\<close> creates a task from an embedded ELF file and leaves the kernel. User code
  comes back by a trap: a system call returns to it, a page fault or \<open>exit\<close> destroys the task and any
  other trap enters the monitor with the task's frame, from where \<open>cont\<close> and \<open>si\<close> resume it.

  \<^bold>\<open>Conventions.\<close> Machine integers are words of their width (\<open>u8\<close>, \<open>u16\<close>, \<open>u32\<close>). Memory is a total
  function from 32-bit addresses to bytes, as the kernel addresses it: physical address \<open>pa\<close> is at
  \<open>pa + KERNBASE\<close>. A fallible operation returns \<open>outcome\<close>, a sum whose left side is a failed \<open>assert\<close>, a
  \<open>kernelPanic\<close> or a null or wild pointer that the code would dereference. A loop that need not end is a
  \<open>partial_function (option)\<close>: \<open>None\<close> is running for ever, and the theorems on such loops prove that
  they return. Pointers to descriptors and tasks are indices into their arrays, \<open>None\<close> the null pointer.
  Device reads (keyboard ports, CMOS, serial status) are arguments or input streams, device writes are
  part of the state. The arrays of page descriptors and of tasks are lists of their own, apart from the byte
  memory. For the descriptors nothing else can reach their memory; the task array's pages, however, are left
  on the free list by the code (the last property of \<open>VmBoot\<close>), so what is proved of the task table holds
  of a run until one of these pages is handed out. Kernel messages are entries of a log, with the format shortened to the text that
  matters and without colour arguments; the rendering of formats is the subject of \<open>PrintFmt\<close>.

  \<^bold>\<open>Theories and sources.\<close>
  \<^item> \<open>Prelude\<close>: errors, sequencing, folds that can fail, facts on words.
  \<^item> \<open>ByteMem\<close>: \<open>mem::\<close> of \<open>lib/string.cc\<close>. \<open>CString\<close>: \<open>str::\<close> of the same file and \<open>include/ctype.h\<close>.
    \<open>Strtol\<close>: \<open>lib/strtol.cc\<close>.
  \<^item> \<open>Results\<close>: \<open>include/result.hh\<close>. \<open>PrintFmt\<close>: \<open>lib/printfmt.cc\<close> over an arbitrary output callback.
  \<^item> \<open>Keyboard\<close>: \<open>kernel/pckbd.c\<close>. \<open>Console\<close>: \<open>kernel/console.cc\<close>. \<open>Readline\<close>: the line editors of
    \<open>kernel/console.cc\<close> and \<open>user/lib/readline.cc\<close>.
  \<^item> \<open>Mmu\<close>: \<open>include/mmu.h\<close>, \<open>include/memlayout.h\<close>. \<open>PageAlloc\<close>: the physical pages of
    \<open>kernel/vmem.cc\<close>. \<open>PageDir\<close>: its page tables. \<open>VmUtils\<close>: its displays.
  \<^item> \<open>Elf\<close>: \<open>include/elf.h\<close>. \<open>TaskMem\<close>: what \<open>kernel/task.cc\<close> does with memory, on the memory state
    alone. \<open>Task\<close>: the operations of \<open>kernel/task.cc\<close> on the kernel's state \<open>machine\<close>, and
    \<open>lib/random.cc\<close>. \<open>TaskTable\<close>: the invariant of the task table.
  \<^item> \<open>Syscall\<close>: \<open>kernel/ksyscall.cc\<close>. \<open>Trap\<close>: \<open>kernel/trap.cc\<close>, \<open>kernel/trap.hh\<close>, \<open>kernel/gdt.c\<close>.
    \<open>Monitor\<close>: \<open>kernel/monitor.cc\<close>. \<open>MonitorProps\<close>: what the monitor does with a line, the display
    that does not end, the decoded descriptor tables.
  \<^item> \<open>Mp\<close>: \<open>kernel/mp.cc\<close>. \<open>UserPrint\<close>: \<open>user/lib/printf.cc\<close>.
  \<^item> \<open>Boot\<close>: the boot loader, \<open>boot/main.c\<close>, on its own memory and disk.
  \<^item> \<open>VmInit\<close>: \<open>vmem::init\<close> and \<open>vmem::pgdir::init\<close>. \<open>VmBoot\<close>: what they leave behind on a bootable
    machine. \<open>KernelInit\<close>: \<open>kernel/init.cc\<close>, from the boot configuration to the monitor. \<open>Debug\<close>:
    \<open>kernel/kdebug.cc\<close> and \<open>kernel/panic.cc\<close>.
  \<^item> \<open>Entry\<close>: the directory of the entry code, \<open>kernel/entrypgdir.c\<close>. \<open>UserConsole\<close>: the user's \<open>print\<close> with its
    buffer in a page of the task, \<open>user/lib/printf.cc\<close> over the traps of \<open>user/include/stdlib.hh\<close>. \<open>UserInput\<close>:
    \<open>user/lib/readline.cc\<close> over the same traps. \<open>UserProgram\<close>: the ends of a task that \<open>user/hello.cc\<close> and
    \<open>user/entry/umain.cc\<close> bring about.
  \<^item> \<open>System\<close>: the whole kernel as a transition system and the properties of its reachable states.

  \<^bold>\<open>Interfaces.\<close> \<open>char_sink\<close> is a callback that takes characters; \<open>line_terminal\<close> extends it by a source
  of characters. The format printer and the line editor are proved once over them and instantiated
  with the kernel's console (\<open>kterm\<close>), the system calls of a user task (\<open>uterm\<close>) and the others that the code uses.

  \<^bold>\<open>Lemma groups.\<close> The memory routines refine list functions on strings and byte ranges; \<open>splitWs\<close>
  refines \<open>pieces\<close>. The allocator's invariant \<open>alloc_inv\<close> ties the linked free list to a list of page
  numbers, and every operation is shown on every branch. The page table operations are refined to the
  two-level view \<open>view\<close>, \<open>lookup\<close>, \<open>entry\<close> of a directory, with \<open>dir_inv\<close> as invariant. \<open>owned_inv\<close> says
  that the pages a task's directory reaches below \<open>UTOP\<close> are its own; set-up, \<open>regionAlloc\<close> and
  \<open>free_memory\<close> preserve it and together give every page back. \<open>task_inv\<close> is the invariant of the task
  table; \<open>System\<close> shows that all handlers and commands keep it. \<open>live_ok\<close> relates the user's print in progress, with
  its buffer in memory, to the characters that the console has and those that wait in the buffer; \<open>user_buffer\<close>
  says where that buffer lies. In \<open>UserConsole\<close> the format and its arguments are read from a memory of their own,
  and in \<open>UserInput\<close> the line is a list, so that the stores to it are not those of the machine.

  \<^bold>\<open>Bounds.\<close> No fuel is used. Loops with a fixed trip count are folds over a list of indices or
  recursions over a natural number; the others are partial functions.

  \<^bold>\<open>Not modelled.\<close> The assembly files (boot sector, entry code, trap stubs) and the one-instruction
  wrappers of \<open>include/x86.h\<close>: they have no logic of their own, and what they do is logged in \<open>hwlog\<close> or
  enters as an argument. \<open>kernel/system.cc\<close>: the processor identification, a sequence of \<open>cpuid\<close>
  instructions. Of \<open>user/hello.cc\<close>, \<open>main\<close> is a sequence of library calls, and the functions that fault on
  purpose are covered by the page fault of any user code; \<open>pageFault4\<close> is modelled. A page fault of the kernel on its
  entry directory, which maps only 4 MB: \<open>boot_config\<close> bounds what is allocated before the kernel's own
  directory is loaded.
\<close>

end
